(* ===== verification/Prelude.thy ===== *)
theory Prelude
  imports Main "HOL-Library.Word"
begin

text \<open>
  Shared vocabulary of the development: machine integers and byte strings, the
  result type of fallible operations, Rust's slicing and checked arithmetic, and the
  little-endian and big-endian integer codecs of the on-disk formats.

  Conventions.  A fallible Rust function returns \<open>'e + 'a\<close>, with \<open>Inl\<close> for
  \<^verbatim>\<open>Err\<close>; the \<^verbatim>\<open>?\<close> operator is \<open>bind_res\<close>.  Field values that are stored on
  disk keep their width (\<open>16 word\<close>, \<open>32 word\<close>, \<open>64 word\<close>).  Offsets and
  lengths are \<open>nat\<close>; where the code calls \<^verbatim>\<open>checked_add\<close> the model tests the
  bound of the 64-bit domain (\<open>checked_add64\<close>).
\<close>

unbundle bit_operations_syntax

named_theorems codec_simps \<open>lengths and round trips of the byte codecs\<close>
named_theorems res_simps \<open>inversion of successful results\<close>

type_synonym u8 = "8 word"
type_synonym u16 = "16 word"
type_synonym u32 = "32 word"
type_synonym u64 = "64 word"
type_synonym bytes = "8 word list"

section \<open>Results\<close>

fun bind_res :: "'e + 'a \<Rightarrow> ('a \<Rightarrow> 'e + 'b) \<Rightarrow> 'e + 'b" where
  "bind_res (Inl e) f = Inl e"
| "bind_res (Inr x) f = f x"

definition ensure :: "bool \<Rightarrow> 'e \<Rightarrow> 'e + unit" where
  "ensure b e = (if b then Inr () else Inl e)"

fun ok_or :: "'a option \<Rightarrow> 'e \<Rightarrow> 'e + 'a" where
  "ok_or None e = Inl e"
| "ok_or (Some x) e = Inr x"

fun res_ok :: "'e + 'a \<Rightarrow> 'a option" where
  "res_ok (Inl e) = None"
| "res_ok (Inr x) = Some x"

definition is_ok :: "'e + 'a \<Rightarrow> bool" where
  "is_ok r = (case r of Inl _ \<Rightarrow> False | Inr _ \<Rightarrow> True)"

text \<open>\<^verbatim>\<open>iter().map(f).collect::<Result<Vec<_>>>()\<close>: the first error wins.\<close>

fun map_res :: "('a \<Rightarrow> 'e + 'b) \<Rightarrow> 'a list \<Rightarrow> 'e + 'b list" where
  "map_res f [] = Inr []"
| "map_res f (x # xs) =
     bind_res (f x) (\<lambda>y. bind_res (map_res f xs) (\<lambda>ys. Inr (y # ys)))"

lemma bind_res_cong [fundef_cong]:
  "m = m' \<Longrightarrow> (\<And>x. m' = Inr x \<Longrightarrow> f x = g x) \<Longrightarrow> bind_res m f = bind_res m' g"
  by (cases m') auto

lemma bind_res_Inr [res_simps]:
  "bind_res m f = Inr y \<longleftrightarrow> (\<exists>x. m = Inr x \<and> f x = Inr y)"
  by (cases m) auto

lemma bind_res_Inl:
  "bind_res m f = Inl e \<longleftrightarrow> m = Inl e \<or> (\<exists>x. m = Inr x \<and> f x = Inl e)"
  by (cases m) auto

lemma ensure_Inr [res_simps]: "ensure b e = Inr u \<longleftrightarrow> b"
  by (simp add: ensure_def)

lemma ensure_True [simp]: "ensure True e = Inr ()"
  by (simp add: ensure_def)

lemma ensure_False [simp]: "ensure False e = Inl e"
  by (simp add: ensure_def)

lemma ok_or_Inl [res_simps]: "ok_or m e = Inl e' \<longleftrightarrow> m = None \<and> e' = e"
  by (cases m) auto

lemma ok_or_Inr [res_simps]: "ok_or m e = Inr x \<longleftrightarrow> m = Some x"
  by (cases m) auto

lemma res_ok_Some [simp]: "res_ok r = Some x \<longleftrightarrow> r = Inr x"
  by (cases r) auto

lemma is_ok_simps [simp]: "is_ok (Inr x)" "\<not> is_ok (Inl e)"
  by (simp_all add: is_ok_def)

lemma map_res_Inr_length: "map_res f xs = Inr ys \<Longrightarrow> length ys = length xs"
  by (induction xs arbitrary: ys) (auto simp: bind_res_Inr)

lemma map_res_all: "(\<And>x. x \<in> set xs \<Longrightarrow> f x = Inr (g x)) \<Longrightarrow> map_res f xs = Inr (map g xs)"
  by (induction xs) auto

section \<open>Slices and checked arithmetic\<close>

text \<open>\<^verbatim>\<open>&bytes[lo..hi]\<close> where the range is known to be in bounds, and the checked
  \<^verbatim>\<open>bytes.get(lo..hi)\<close>.\<close>

definition seg :: "nat \<Rightarrow> nat \<Rightarrow> 'a list \<Rightarrow> 'a list" where
  "seg lo hi xs = take (hi - lo) (drop lo xs)"

definition get_range :: "nat \<Rightarrow> nat \<Rightarrow> 'a list \<Rightarrow> 'a list option" where
  "get_range lo hi xs = (if lo \<le> hi \<and> hi \<le> length xs then Some (seg lo hi xs) else None)"

definition U64_MAX :: nat where
  "U64_MAX = 2 ^ 64 - 1"

definition checked_add64 :: "nat \<Rightarrow> nat \<Rightarrow> nat option" where
  "checked_add64 a b = (if a + b \<le> U64_MAX then Some (a + b) else None)"

definition saturating_add64 :: "nat \<Rightarrow> nat \<Rightarrow> nat" where
  "saturating_add64 a b = min (a + b) U64_MAX"

definition get_at :: "nat \<Rightarrow> 'a list \<Rightarrow> 'a option" where
  "get_at i xs = (if i < length xs then Some (xs ! i) else None)"

lemma get_at_Some [res_simps]: "get_at i xs = Some x \<longleftrightarrow> i < length xs \<and> x = xs ! i"
  by (auto simp: get_at_def)

lemma seg_length [simp]: "length (seg lo hi xs) = min (hi - lo) (length xs - lo)"
  by (simp add: seg_def)

lemma get_range_Some [res_simps]:
  "get_range lo hi xs = Some ys \<longleftrightarrow> lo \<le> hi \<and> hi \<le> length xs \<and> ys = seg lo hi xs"
  by (auto simp: get_range_def)

lemma seg_append_skip: "length xs \<le> lo \<Longrightarrow> seg lo hi (xs @ ys) = seg (lo - length xs) (hi - length xs) ys"
  by (simp add: seg_def)

lemma seg_append_take: "hi \<le> length xs \<Longrightarrow> seg lo hi (xs @ ys) = seg lo hi xs"
  by (cases "lo \<le> length xs") (simp_all add: seg_def)

lemma seg_all [simp]: "seg 0 (length xs) xs = xs"
  by (simp add: seg_def)

lemma seg_0_take: "seg 0 n xs = take n xs"
  by (simp add: seg_def)

lemma seg_eq_nth:
  "hi \<le> length xs \<Longrightarrow> lo \<le> hi \<Longrightarrow> seg lo hi xs = map (\<lambda>i. xs ! i) [lo..<hi]"
  by (rule nth_equalityI) (auto simp: seg_def)

lemma seg_seg: "b \<le> hi - lo \<Longrightarrow> seg a b (seg lo hi xs) = seg (lo + a) (lo + b) xs"
  by (cases "a \<le> b") (simp_all add: seg_def drop_take min_def add.commute)

lemma seg_drop: "seg a b (drop n xs) = seg (n + a) (n + b) xs"
  by (simp add: seg_def add.commute)

lemma seg_take: "b \<le> n \<Longrightarrow> seg a b (take n xs) = seg a b xs"
  by (cases "a \<le> b") (simp_all add: seg_def drop_take min_def)

lemma seg_join: "a \<le> b \<Longrightarrow> b \<le> c \<Longrightarrow> seg a b xs @ seg b c xs = seg a c xs"
proof -
  assume "a \<le> b" "b \<le> c"
  then obtain d e where b: "b = a + d" and c: "c = b + e"
    using le_Suc_ex by metis
  have "seg a c xs = take (d + e) (drop a xs)"
    by (simp add: seg_def b c)
  also have "\<dots> = take d (drop a xs) @ take e (drop d (drop a xs))"
    by (rule take_add)
  finally show ?thesis
    by (simp add: seg_def b c add.commute)
qed

lemma checked_add64_Some [res_simps]:
  "checked_add64 a b = Some c \<longleftrightarrow> c = a + b \<and> a + b \<le> U64_MAX"
  by (auto simp: checked_add64_def)

section \<open>Integer codecs\<close>

text \<open>\<^verbatim>\<open>to_le_bytes\<close> / \<^verbatim>\<open>from_le_bytes\<close> of an unsigned integer of \<open>n\<close> bytes, on its
  value; \<^verbatim>\<open>to_be_bytes\<close> is the reversed string.\<close>

fun nat_to_le :: "nat \<Rightarrow> nat \<Rightarrow> bytes" where
  "nat_to_le 0 x = []"
| "nat_to_le (Suc n) x = word_of_nat (x mod 256) # nat_to_le n (x div 256)"

fun le_to_nat :: "bytes \<Rightarrow> nat" where
  "le_to_nat [] = 0"
| "le_to_nat (b # bs) = unat b + 256 * le_to_nat bs"

definition le16 :: "u16 \<Rightarrow> bytes" where "le16 w = nat_to_le 2 (unat w)"
definition le32 :: "u32 \<Rightarrow> bytes" where "le32 w = nat_to_le 4 (unat w)"
definition le64 :: "u64 \<Rightarrow> bytes" where "le64 w = nat_to_le 8 (unat w)"
definition be16 :: "u16 \<Rightarrow> bytes" where "be16 w = rev (le16 w)"
definition be32 :: "u32 \<Rightarrow> bytes" where "be32 w = rev (le32 w)"
definition be64 :: "u64 \<Rightarrow> bytes" where "be64 w = rev (le64 w)"

definition of_le16 :: "bytes \<Rightarrow> u16" where "of_le16 bs = word_of_nat (le_to_nat bs)"
definition of_le32 :: "bytes \<Rightarrow> u32" where "of_le32 bs = word_of_nat (le_to_nat bs)"
definition of_le64 :: "bytes \<Rightarrow> u64" where "of_le64 bs = word_of_nat (le_to_nat bs)"
definition of_be16 :: "bytes \<Rightarrow> u16" where "of_be16 bs = of_le16 (rev bs)"
definition of_be32 :: "bytes \<Rightarrow> u32" where "of_be32 bs = of_le32 (rev bs)"
definition of_be64 :: "bytes \<Rightarrow> u64" where "of_be64 bs = of_le64 (rev bs)"

lemma unat_lt: "unat (w :: 'a::len word) < 2 ^ LENGTH('a)"
  by (rule unsigned_less)

lemma nat_to_le_length [simp]: "length (nat_to_le n x) = n"
  by (induction n arbitrary: x) auto

lemma le_length [codec_simps, simp]:
  "length (le16 a) = 2" "length (le32 b) = 4" "length (le64 c) = 8" "length (be64 c) = 8"
  by (simp_all add: le16_def le32_def le64_def be64_def)

lemma unat_byte_mod: "unat (word_of_nat (x mod 256) :: u8) = x mod 256"
  by (simp add: unat_of_nat)

lemma le_to_nat_to_le: "le_to_nat (nat_to_le n x) = x mod 256 ^ n"
proof (induction n arbitrary: x)
  case 0
  then show ?case by simp
next
  case (Suc n)
  have "x mod 256 ^ Suc n = x mod 256 + 256 * (x div 256 mod 256 ^ n)"
    by (simp add: mod_mult2_eq)
  then show ?case
    by (simp add: Suc unat_of_nat)
qed

lemma le_to_nat_bound: "le_to_nat bs < 256 ^ length bs"
proof (induction bs)
  case Nil
  then show ?case by simp
next
  case (Cons b bs)
  have "unat b < 256" using unat_lt [of b] by simp
  with Cons have "unat b + 256 * le_to_nat bs < 256 + 256 * (256 ^ length bs - 1)"
    by (metis (no_types, lifting) One_nat_def Suc_pred add_less_le_mono less_Suc_eq_le
        mult_le_mono2 zero_less_numeral zero_less_power)
  also have "\<dots> = 256 ^ length (b # bs)"
    by (simp add: diff_mult_distrib2)
  finally show ?case by simp
qed

lemma nat_to_le_to_nat: "length bs = n \<Longrightarrow> nat_to_le n (le_to_nat bs) = bs"
proof (induction bs arbitrary: n)
  case Nil
  then show ?case by simp
next
  case (Cons b bs)
  have "unat b < 256" using unat_lt [of b] by simp
  then show ?case using Cons by (cases n) auto
qed

lemma of_le_le [codec_simps, simp]:
  "of_le16 (le16 a) = a" "of_le32 (le32 b) = b" "of_le64 (le64 c) = c" "of_be64 (be64 c) = c"
  using unat_lt [of a] unat_lt [of b] unat_lt [of c]
  by (simp_all add: of_le16_def of_le32_def of_le64_def of_be64_def be64_def
      le16_def le32_def le64_def le_to_nat_to_le)

lemma be_length [codec_simps, simp]: "length (be16 a) = 2" "length (be32 b) = 4"
  by (simp_all add: be16_def be32_def)

lemma of_be_be [codec_simps, simp]: "of_be16 (be16 a) = a" "of_be32 (be32 b) = b"
  by (simp_all add: of_be16_def of_be32_def be16_def be32_def)

lemma le_of_le [codec_simps]:
  "length bs = 2 \<Longrightarrow> le16 (of_le16 bs) = bs"
  "length bs = 4 \<Longrightarrow> le32 (of_le32 bs) = bs"
  "length bs = 8 \<Longrightarrow> le64 (of_le64 bs) = bs"
  using le_to_nat_bound [of bs]
  by (simp_all add: of_le16_def of_le32_def of_le64_def le16_def le32_def le64_def
      unat_of_nat nat_to_le_to_nat)

lemma be_of_be [codec_simps]:
  "length bs = 2 \<Longrightarrow> be16 (of_be16 bs) = bs" "length bs = 4 \<Longrightarrow> be32 (of_be32 bs) = bs"
  "length bs = 8 \<Longrightarrow> be64 (of_be64 bs) = bs"
  by (simp_all add: be16_def be32_def be64_def of_be16_def of_be32_def of_be64_def le_of_le)

lemma le_inject [simp]:
  "le16 a = le16 a' \<longleftrightarrow> a = a'" "le32 b = le32 b' \<longleftrightarrow> b = b'"
  "le64 c = le64 c' \<longleftrightarrow> c = c'" "be64 c = be64 c' \<longleftrightarrow> c = c'"
  by (metis of_le_le(1), metis of_le_le(2), metis of_le_le(3), metis of_le_le(4))

lemma unat_of_nat_16: "n < 65536 \<Longrightarrow> unat (word_of_nat n :: u16) = n"
  by (simp add: unat_of_nat)

lemma unat_of_nat_32: "n < 4294967296 \<Longrightarrow> unat (word_of_nat n :: u32) = n"
  by (simp add: unat_of_nat)

lemma unat_of_nat_64: "n \<le> U64_MAX \<Longrightarrow> unat (word_of_nat n :: u64) = n"
  by (simp add: unat_of_nat U64_MAX_def)

lemma unat_le_U64_MAX [simp]: "unat (w :: u64) \<le> U64_MAX"
  using unat_lt [of w] by (simp add: U64_MAX_def)

lemma of_nat_unat_eq: "unat (w :: 'a::len word) = n \<Longrightarrow> word_of_nat n = w"
  by auto

lemma unat_u16_bound: "unat (w :: u16) < 65536"
  using unat_lt [of w] by simp

lemma unat_u32_bound: "unat (w :: u32) < 4294967296"
  using unat_lt [of w] by simp

section \<open>Fallible steps on a state\<close>

text \<open>A step that reads and changes a state and may fail; after a failure the steps that
  follow are skipped and the state it left stays.\<close>

type_synonym ('s, 'e, 'a) step = "'s \<Rightarrow> ('e + 'a) \<times> 's"

definition st_bind :: "('s, 'e, 'a) step \<Rightarrow> ('a \<Rightarrow> ('s, 'e, 'b) step) \<Rightarrow> ('s, 'e, 'b) step" where
  "st_bind m k s = (case m s of (Inl e, s') \<Rightarrow> (Inl e, s') | (Inr x, s') \<Rightarrow> k x s')"

definition st_ret :: "'a \<Rightarrow> ('s, 'e, 'a) step" where
  "st_ret x s = (Inr x, s)"

definition st_lift :: "'e + 'a \<Rightarrow> ('s, 'e, 'a) step" where
  "st_lift r s = (r, s)"

lemma st_bind_Inr:
  "st_bind m k s = (Inr y, s') \<longleftrightarrow> (\<exists>x s1. m s = (Inr x, s1) \<and> k x s1 = (Inr y, s'))"
  by (auto simp: st_bind_def split: prod.splits sum.splits)

lemma st_bind_Inl:
  "st_bind m k s = (Inl e, s') \<longleftrightarrow> m s = (Inl e, s') \<or> (\<exists>x s1. m s = (Inr x, s1) \<and> k x s1 = (Inl e, s'))"
  by (auto simp: st_bind_def split: prod.splits sum.splits)

lemma st_simps [simp]:
  "st_ret x s = (Inr x, s)" "st_lift r s = (r, s)"
  by (simp_all add: st_ret_def st_lift_def)

lemma st_bind_simps [simp]:
  "m s = (Inr x, s1) \<Longrightarrow> st_bind m k s = k x s1"
  "m s = (Inl e, s1) \<Longrightarrow> st_bind m k s = (Inl e, s1)"
  by (simp_all add: st_bind_def)

lemma seg_to_end: "a \<le> b \<Longrightarrow> seg a b xs @ drop b xs = drop a xs"
  by (simp add: seg_def) (metis append_take_drop_id drop_drop le_add_diff_inverse2)

text \<open>The bytes of a string literal.\<close>

definition as_bytes :: "string \<Rightarrow> bytes" where
  "as_bytes s = map of_char s"

lemma as_bytes_length [simp]: "length (as_bytes s) = length s"
  by (simp add: as_bytes_def)

end
