(* ===== verification/Files.thy ===== *)
theory Files
  imports Prelude "HOL-Library.Sublist"
begin

text \<open>
  The files the storage engine reads.  A file is its bytes together with an
  optional first unreadable byte (a failing device): a read that reaches that byte
  returns an I/O error, a read that reaches the end of the file returns no bytes.
  \<open>read_full\<close> is the outcome of Rust's read loops (\<^verbatim>\<open>read_exact\<close>, and the loops that
  collect short reads and retry on \<^verbatim>\<open>Interrupted\<close>): the bytes asked for, the bytes
  before the end of the file, or the device's error.  Splitting a read into several
  short ones never changes the outcome, so the model has no notion of a short read.
\<close>

record os_file =
  fbytes :: bytes
  fbad :: "nat option"

definition readable :: "os_file \<Rightarrow> bytes" where
  "readable f = (case fbad f of None \<Rightarrow> fbytes f | Some b \<Rightarrow> take b (fbytes f))"

definition faulty :: "os_file \<Rightarrow> bool" where
  "faulty f = (case fbad f of None \<Rightarrow> False | Some b \<Rightarrow> b < length (fbytes f))"

definition file_len :: "os_file \<Rightarrow> nat" where
  "file_len f = length (fbytes f)"

datatype read_outcome = Full bytes | Eof bytes | IoFail

definition read_full :: "os_file \<Rightarrow> nat \<Rightarrow> nat \<Rightarrow> read_outcome" where
  "read_full f p n =
     (let got = take n (drop p (readable f)) in
      if length got = n then Full got
      else if faulty f \<and> p < file_len f then IoFail
      else Eof got)"

text \<open>A file whose every byte can be read.\<close>

definition good_file :: "bytes \<Rightarrow> os_file" where
  "good_file bs = \<lparr>fbytes = bs, fbad = None\<rparr>"

lemma readable_good [simp]: "readable (good_file bs) = bs"
  by (simp add: readable_def good_file_def)

lemma faulty_good [simp]: "\<not> faulty (good_file bs)"
  by (simp add: faulty_def good_file_def)

lemma good_file_update [simp]: "(good_file bs)\<lparr>fbytes := xs\<rparr> = good_file xs"
  by (simp add: good_file_def)

lemma file_len_good [simp]: "file_len (good_file bs) = length bs"
  by (simp add: file_len_def good_file_def)

lemma fbytes_good [simp]: "fbytes (good_file bs) = bs"
  by (simp add: good_file_def)

lemma readable_prefix: "prefix (readable f) (fbytes f)"
  by (auto simp: readable_def take_is_prefix split: option.splits)

lemma readable_not_faulty: "\<not> faulty f \<Longrightarrow> readable f = fbytes f"
  by (auto simp: readable_def faulty_def split: option.splits)

lemma length_readable_le: "length (readable f) \<le> file_len f"
  by (auto simp: readable_def file_len_def split: option.splits)

lemma readable_short_iff: "length (readable f) < file_len f \<longleftrightarrow> faulty f"
  by (auto simp: readable_def faulty_def file_len_def split: option.splits)

lemma read_full_Full:
  "read_full f p n = Full bs \<longleftrightarrow> length bs = n \<and> prefix bs (drop p (readable f))"
proof -
  have "length bs = n \<Longrightarrow> prefix bs (drop p (readable f)) \<Longrightarrow> take n (drop p (readable f)) = bs"
    by (auto simp: prefix_def)
  moreover have "prefix (take n (drop p (readable f))) (drop p (readable f))"
    by (rule take_is_prefix)
  ultimately show ?thesis
    by (auto simp: read_full_def Let_def)
qed

lemma read_full_add:
  "read_full f p (m + n) =
     (case read_full f p m of
        Full xs \<Rightarrow> (case read_full f (p + m) n of
                     Full ys \<Rightarrow> Full (xs @ ys)
                   | Eof ys \<Rightarrow> Eof (xs @ ys)
                   | IoFail \<Rightarrow> IoFail)
      | Eof xs \<Rightarrow> Eof xs
      | IoFail \<Rightarrow> IoFail)"
proof -
  let ?d = "drop p (readable f)"
  have split: "take (m + n) ?d = take m ?d @ take n (drop (p + m) (readable f))"
    by (simp add: take_add add.commute)
  have lenle: "length (readable f) \<le> file_len f" by (rule length_readable_le)
  show ?thesis
  proof (cases "length (take m ?d) = m")
    case True
    have *: "p + m < file_len f \<longleftrightarrow> p < file_len f"
      if "length (take n (drop (p + m) (readable f))) \<noteq> n" "faulty f"
    proof
      assume "p < file_len f"
      have "p + m \<le> length (readable f) \<or> m = 0" using True by auto
      then show "p + m < file_len f"
        using readable_short_iff [of f] \<open>faulty f\<close> \<open>p < file_len f\<close> by auto
    qed simp
    show ?thesis
      using True * by (auto simp: read_full_def Let_def split)
  next
    case False
    then have "length (readable f) - p < m" by auto
    then have "take (m + n) ?d = take m ?d" "length (take (m + n) ?d) \<noteq> m + n"
      by auto
    with False show ?thesis by (auto simp: read_full_def Let_def)
  qed
qed

lemma read_full_0 [simp]: "read_full f p 0 = Full []"
  by (simp add: read_full_def)

lemma read_full_not_faulty: "\<not> faulty f \<Longrightarrow> read_full f p n \<noteq> IoFail"
  by (simp add: read_full_def Let_def)

lemma read_full_Eof_prefix:
  "read_full f p n = Eof bs \<Longrightarrow> length bs < n \<and> bs = drop p (readable f)"
  by (auto simp: read_full_def Let_def min_def split: if_splits)

lemma read_full_enough:
  "p + n \<le> length (readable f) \<Longrightarrow> read_full f p n = Full (seg p (p + n) (readable f))"
  by (simp add: read_full_def seg_def Let_def)

lemma read_full_short:
  "\<not> faulty f \<Longrightarrow> length (fbytes f) < p + n \<Longrightarrow> 0 < n \<Longrightarrow> read_full f p n = Eof (drop p (fbytes f))"
  by (simp add: read_full_def readable_not_faulty Let_def)

lemma prefix_chain:
  "prefix (a @ b) (drop p xs) \<longleftrightarrow> prefix a (drop p xs) \<and> prefix b (drop (p + length a) xs)"
  (is "?L \<longleftrightarrow> ?R")
proof
  assume ?L
  then obtain zs where d: "drop p xs = (a @ b) @ zs" by (auto simp: prefix_def)
  then have "drop (p + length a) xs = b @ zs"
    by (metis add.commute append_assoc append_eq_conv_conj drop_drop)
  with d show ?R by (auto simp: prefix_def)
next
  assume ?R
  then obtain zs ys where "drop p xs = a @ zs" "drop (p + length a) xs = b @ ys"
    by (auto simp: prefix_def)
  then have "drop p xs = (a @ b) @ ys"
    by (metis add.commute append_assoc append_eq_conv_conj drop_drop)
  then show ?L by (auto simp: prefix_def)
qed

end
