(* ===== verification/Backend.thy ===== *)
theory Backend
  imports Prelude "HOL-Library.Sublist"
begin

text \<open>
  The append backends of the log writer (\<^verbatim>\<open>src/io_backend/mod.rs\<close>).

  The operating system is a state: the bytes of the file, the bytes known to be on
  stable storage, whether the append lock is poisoned, and a script of answers.  Each
  system call takes the next answer of the script; when it is exhausted every call
  succeeds.  \<^verbatim>\<open>write\<close> may accept only part of its buffer, be interrupted, or fail.
  On top of it stand \<^verbatim>\<open>std::io::BufWriter\<close> as the code uses it (\<open>flush_buf\<close>,
  \<open>bw_write_all\<close>), \<^verbatim>\<open>SyncBackend\<close>, and the completion checks of the \<^verbatim>\<open>io_uring\<close> backend.

  \<^verbatim>\<open>dyn IoBackend\<close> is a record of operations; the locale \<open>io_backend\<close> states what the trait's
  documentation promises of them, and \<open>sync_backend\<close> is shown to keep the promise.
\<close>

section \<open>The operating system\<close>

datatype answer = Done nat | Fail string | Intr

datatype io_error =
    Interrupted
  | WriteZero
  | OsError string
  | InvalidInput string
  | LockPoisoned
  | RollbackFailed io_error io_error

record os =
  d_bytes :: bytes
  d_synced :: bytes
  d_poisoned :: bool
  d_script :: "answer list"

definition os_write :: "bytes \<Rightarrow> (os, io_error, nat) step" where
  "os_write data d =
     (case d_script d of
        [] \<Rightarrow> (Inr (length data), d\<lparr>d_bytes := d_bytes d @ data\<rparr>)
      | Done n # s \<Rightarrow> (Inr (min n (length data)),
                      d\<lparr>d_bytes := d_bytes d @ take n data, d_script := s\<rparr>)
      | Intr # s \<Rightarrow> (Inl Interrupted, d\<lparr>d_script := s\<rparr>)
      | Fail e # s \<Rightarrow> (Inl (OsError e), d\<lparr>d_script := s\<rparr>))"

definition os_len :: "(os, io_error, nat) step" where
  "os_len d =
     (case d_script d of
        [] \<Rightarrow> (Inr (length (d_bytes d)), d)
      | Done _ # s \<Rightarrow> (Inr (length (d_bytes d)), d\<lparr>d_script := s\<rparr>)
      | Intr # s \<Rightarrow> (Inl Interrupted, d\<lparr>d_script := s\<rparr>)
      | Fail e # s \<Rightarrow> (Inl (OsError e), d\<lparr>d_script := s\<rparr>))"

text \<open>\<^verbatim>\<open>set_len\<close> and \<^verbatim>\<open>sync_data\<close> retry an interrupted call.\<close>

function os_set_len :: "nat \<Rightarrow> (os, io_error, unit) step" where
  "os_set_len n d =
     (let ok = d\<lparr>d_bytes := take n (d_bytes d) @ replicate (n - length (d_bytes d)) 0\<rparr> in
      case d_script d of
        [] \<Rightarrow> (Inr (), ok)
      | Done _ # s \<Rightarrow> (Inr (), ok\<lparr>d_script := s\<rparr>)
      | Intr # s \<Rightarrow> os_set_len n (d\<lparr>d_script := s\<rparr>)
      | Fail e # s \<Rightarrow> (Inl (OsError e), d\<lparr>d_script := s\<rparr>))"
  by pat_completeness auto
termination
  by (relation "measure (\<lambda>(n, d). length (d_script d))") auto

function os_sync :: "(os, io_error, unit) step" where
  "os_sync d =
     (case d_script d of
        [] \<Rightarrow> (Inr (), d\<lparr>d_synced := d_bytes d\<rparr>)
      | Done _ # s \<Rightarrow> (Inr (), d\<lparr>d_synced := d_bytes d, d_script := s\<rparr>)
      | Intr # s \<Rightarrow> os_sync (d\<lparr>d_script := s\<rparr>)
      | Fail e # s \<Rightarrow> (Inl (OsError e), d\<lparr>d_script := s\<rparr>))"
  by pat_completeness auto
termination
  by (relation "measure (\<lambda>d. length (d_script d))") auto

declare os_set_len.simps [simp del] os_sync.simps [simp del]

text \<open>The retry loop of \<^verbatim>\<open>write_all\<close> and of \<^verbatim>\<open>BufWriter::flush_buf\<close>; it also returns the bytes
  that were not written.\<close>

function write_loop :: "bytes \<Rightarrow> os \<Rightarrow> (io_error + unit) \<times> bytes \<times> os" where
  "write_loop data d =
     (if data = [] then (Inr (), [], d)
      else case os_write data d of
        (Inr n, d') \<Rightarrow> if n = 0 then (Inl WriteZero, data, d') else write_loop (drop n data) d'
      | (Inl Interrupted, d') \<Rightarrow> write_loop data d'
      | (Inl e, d') \<Rightarrow> (Inl e, data, d'))"
  by pat_completeness auto
termination
  by (relation "measure (\<lambda>(data, d). length data + length (d_script d))")
    (auto simp: os_write_def split: list.splits answer.splits)

declare write_loop.simps [simp del]

section \<open>The buffered writer\<close>

record buf_writer =
  bw_buf :: bytes
  bw_capacity :: nat

definition flush_buf :: "(buf_writer \<times> os, io_error, unit) step" where
  "flush_buf = (\<lambda>(w, d). case write_loop (bw_buf w) d of (r, rest, d') \<Rightarrow> (r, (w\<lparr>bw_buf := rest\<rparr>, d')))"

definition bw_direct :: "bytes \<Rightarrow> (buf_writer \<times> os, io_error, unit) step" where
  "bw_direct data = (\<lambda>(w, d). case write_loop data d of (r, _, d') \<Rightarrow> (r, (w, d')))"

definition bw_fill :: "bytes \<Rightarrow> (buf_writer \<times> os, io_error, unit) step" where
  "bw_fill data = (\<lambda>(w, d). (Inr (), (w\<lparr>bw_buf := bw_buf w @ data\<rparr>, d)))"

definition bw_write_all :: "bytes \<Rightarrow> (buf_writer \<times> os, io_error, unit) step" where
  "bw_write_all data s =
     (let spare = bw_capacity (fst s) - length (bw_buf (fst s)) in
      if length data < spare then bw_fill data s
      else st_bind (if length data > spare then flush_buf else st_ret ())
             (\<lambda>_. if length data \<ge> bw_capacity (fst s) then bw_direct data else bw_fill data) s)"

section \<open>The synchronous backend\<close>

record sync_backend =
  sb_writer :: buf_writer
  sb_offset :: nat

definition sb_step :: "(buf_writer \<times> os, io_error, unit) step \<Rightarrow> (sync_backend \<times> os, io_error, unit) step" where
  "sb_step m = (\<lambda>(b, d). case m (sb_writer b, d) of (r, (w, d')) \<Rightarrow> (r, (b\<lparr>sb_writer := w\<rparr>, d')))"

definition sb_os :: "(os, io_error, 'a) step \<Rightarrow> (sync_backend \<times> os, io_error, 'a) step" where
  "sb_os m = (\<lambda>(b, d). case m d of (r, d') \<Rightarrow> (r, (b, d')))"

definition checked_append_end :: "nat \<Rightarrow> nat \<Rightarrow> io_error + nat" where
  "checked_append_end off len =
     ok_or (checked_add64 off len) (InvalidInput ''append file offset overflow'')"

definition rollback_locked :: "nat \<Rightarrow> (sync_backend \<times> os, io_error, unit) step" where
  "rollback_locked off = (\<lambda>(b, d).
     case st_bind (os_set_len off) (\<lambda>_. os_sync) d of
       (r, d') \<Rightarrow>
         let b' = b\<lparr>sb_writer := \<lparr>bw_buf = [], bw_capacity = bw_capacity (sb_writer b)\<rparr>\<rparr> in
         (r, (if is_ok r then b'\<lparr>sb_offset := off\<rparr> else b', d')))"

text \<open>The tail both append operations share: publish the new offset, or roll back to \<open>start\<close>.\<close>

definition finish_append ::
  "nat \<Rightarrow> nat \<Rightarrow> (sync_backend \<times> os, io_error, 'a) step \<Rightarrow> (sync_backend \<times> os, io_error, 'a) step" where
  "finish_append start end_off m s =
     (case m s of
        (Inr x, (b, d)) \<Rightarrow> (Inr x, (b\<lparr>sb_offset := end_off\<rparr>, d))
      | (Inl cause, s') \<Rightarrow>
          (case rollback_locked start s' of
             (Inr _, s'') \<Rightarrow> (Inl cause, s'')
           | (Inl rollback, s'') \<Rightarrow> (Inl (RollbackFailed cause rollback), s'')))"

definition lock_append :: "(sync_backend \<times> os, io_error, unit) step" where
  "lock_append = (\<lambda>(b, d). if d_poisoned d then (Inl LockPoisoned, (b, d)) else (Inr (), (b, d)))"

definition sb_append :: "bytes \<Rightarrow> (sync_backend \<times> os, io_error, nat) step" where
  "sb_append data =
     st_bind lock_append (\<lambda>_.
     st_bind (sb_os os_len) (\<lambda>start.
     st_bind (st_lift (checked_append_end start (length data))) (\<lambda>end_off.
     finish_append start end_off
       (st_bind (sb_step flush_buf) (\<lambda>_.
        st_bind (sb_step (bw_write_all data)) (\<lambda>_.
        st_bind (sb_step flush_buf) (\<lambda>_. st_ret start)))))))"

definition sb_sync :: "(sync_backend \<times> os, io_error, unit) step" where
  "sb_sync = st_bind (sb_step flush_buf) (\<lambda>_. sb_os os_sync)"

definition sb_flush_no_sync :: "(sync_backend \<times> os, io_error, unit) step" where
  "sb_flush_no_sync = sb_step flush_buf"

definition sb_rollback_to :: "nat \<Rightarrow> (sync_backend \<times> os, io_error, unit) step" where
  "sb_rollback_to off = st_bind lock_append (\<lambda>_. rollback_locked off)"

fun append_end :: "nat \<Rightarrow> bytes list \<Rightarrow> io_error + nat" where
  "append_end running [] = Inr running"
| "append_end running (buf # bufs) =
     bind_res (checked_append_end running (length buf)) (\<lambda>r. append_end r bufs)"

fun write_buffers :: "nat \<Rightarrow> bytes list \<Rightarrow> (sync_backend \<times> os, io_error, nat list) step" where
  "write_buffers running [] = st_ret []"
| "write_buffers running (buf # bufs) =
     st_bind (sb_step (bw_write_all buf)) (\<lambda>_.
     st_bind (st_lift (checked_append_end running (length buf))) (\<lambda>r.
     st_bind (write_buffers r bufs) (\<lambda>offs. st_ret (running # offs))))"

definition sb_append_batch_and_sync :: "bytes list \<Rightarrow> (sync_backend \<times> os, io_error, nat list) step" where
  "sb_append_batch_and_sync buffers =
     st_bind lock_append (\<lambda>_.
     st_bind (sb_os os_len) (\<lambda>start.
     st_bind (st_lift (append_end start buffers)) (\<lambda>end_off.
     finish_append start end_off
       (st_bind (sb_step flush_buf) (\<lambda>_.
        st_bind (write_buffers start buffers) (\<lambda>offs.
        st_bind (sb_step flush_buf) (\<lambda>_.
        st_bind (sb_os os_sync) (\<lambda>_. st_ret offs))))))))"

text \<open>\<^verbatim>\<open>SyncBackend::open\<close> (256 KiB buffer) and \<^verbatim>\<open>open_small_buffer\<close> (8 KiB), once the file is open.\<close>

definition sb_open :: "nat \<Rightarrow> (os, io_error, sync_backend) step" where
  "sb_open capacity =
     st_bind os_len (\<lambda>off. st_ret \<lparr>sb_writer = \<lparr>bw_buf = [], bw_capacity = capacity\<rparr>, sb_offset = off\<rparr>)"

section \<open>The interface\<close>

text \<open>\<^verbatim>\<open>dyn IoBackend\<close>: the operations a backend offers.\<close>

record 'b backend_ops =
  be_append :: "bytes \<Rightarrow> ('b \<times> os, io_error, nat) step"
  be_sync :: "('b \<times> os, io_error, unit) step"
  be_offset :: "'b \<Rightarrow> nat"
  be_rollback_to :: "nat \<Rightarrow> ('b \<times> os, io_error, unit) step"
  be_append_batch_and_sync :: "bytes list \<Rightarrow> ('b \<times> os, io_error, nat list) step"

definition sync_ops :: "sync_backend backend_ops" where
  "sync_ops = \<lparr>be_append = sb_append, be_sync = sb_sync, be_offset = sb_offset,
     be_rollback_to = sb_rollback_to, be_append_batch_and_sync = sb_append_batch_and_sync\<rparr>"

text \<open>The trait's default \<^verbatim>\<open>append_and_sync\<close>.\<close>

definition be_append_and_sync :: "'b backend_ops \<Rightarrow> bytes \<Rightarrow> ('b \<times> os, io_error, nat) step" where
  "be_append_and_sync ops data =
     st_bind (be_append_batch_and_sync ops [data]) (\<lambda>offsets. st_ret (offsets ! 0))"

text \<open>Where each buffer of a batch starts.\<close>

fun starts :: "nat \<Rightarrow> bytes list \<Rightarrow> nat list" where
  "starts off [] = []"
| "starts off (b # bs) = off # starts (off + length b) bs"

fun rollback_failed :: "io_error \<Rightarrow> bool" where
  "rollback_failed (RollbackFailed _ _) = True"
| "rollback_failed _ = False"

locale io_backend =
  fixes ops :: "'b backend_ops" and wfb :: "'b \<Rightarrow> bool"
  assumes append_Ok:
    "wfb b \<Longrightarrow> be_append ops data (b, d) = (Inr start, (b', d')) \<Longrightarrow>
       wfb b' \<and> start = length (d_bytes d) \<and> d_bytes d' = d_bytes d @ data
         \<and> be_offset ops b' = start + length data"
  and append_Err:
    "wfb b \<Longrightarrow> be_append ops data (b, d) = (Inl e, (b', d')) \<Longrightarrow>
       wfb b' \<and> prefix (d_bytes d) (d_bytes d') \<and> (\<not> rollback_failed e \<longrightarrow> d_bytes d' = d_bytes d)"
  and batch_Ok:
    "wfb b \<Longrightarrow> be_append_batch_and_sync ops bufs (b, d) = (Inr offs, (b', d')) \<Longrightarrow>
       wfb b' \<and> offs = starts (length (d_bytes d)) bufs \<and> d_bytes d' = d_bytes d @ concat bufs
         \<and> (bufs \<noteq> [] \<longrightarrow> d_synced d' = d_bytes d' \<and> be_offset ops b' = length (d_bytes d'))"
  and batch_Err:
    "wfb b \<Longrightarrow> be_append_batch_and_sync ops bufs (b, d) = (Inl e, (b', d')) \<Longrightarrow>
       wfb b' \<and> prefix (d_bytes d) (d_bytes d') \<and> (\<not> rollback_failed e \<longrightarrow> d_bytes d' = d_bytes d)"
  and rollback_Ok:
    "wfb b \<Longrightarrow> be_rollback_to ops n (b, d) = (Inr u, (b', d')) \<Longrightarrow> n \<le> length (d_bytes d) \<Longrightarrow>
       wfb b' \<and> d_bytes d' = take n (d_bytes d) \<and> d_synced d' = d_bytes d' \<and> be_offset ops b' = n"
  and rollback_Err:
    "wfb b \<Longrightarrow> be_rollback_to ops n (b, d) = (Inl e, (b', d')) \<Longrightarrow> n \<le> length (d_bytes d) \<Longrightarrow>
       wfb b' \<and> (d_bytes d' = d_bytes d \<or> d_bytes d' = take n (d_bytes d))"
  and sync_Ok:
    "wfb b \<Longrightarrow> be_sync ops (b, d) = (Inr u, (b', d')) \<Longrightarrow>
       wfb b' \<and> d_bytes d' = d_bytes d \<and> d_synced d' = d_bytes d \<and> be_offset ops b' = be_offset ops b"
  and sync_Err:
    "wfb b \<Longrightarrow> be_sync ops (b, d) = (Inl e, (b', d')) \<Longrightarrow> wfb b' \<and> d_bytes d' = d_bytes d"
begin

lemma append_and_sync_Ok:
  assumes "wfb b" "be_append_and_sync ops data (b, d) = (Inr start, (b', d'))"
  shows "wfb b' \<and> start = length (d_bytes d) \<and> d_bytes d' = d_bytes d @ data
    \<and> d_synced d' = d_bytes d' \<and> be_offset ops b' = length (d_bytes d')"
proof -
  obtain offs where offs: "be_append_batch_and_sync ops [data] (b, d) = (Inr offs, (b', d'))" "start = offs ! 0"
    using assms(2) by (auto simp: be_append_and_sync_def st_bind_Inr)
  from batch_Ok [OF assms(1) offs(1)] offs(2) show ?thesis by simp
qed

lemma append_and_sync_Err:
  assumes "wfb b" "be_append_and_sync ops data (b, d) = (Inl e, (b', d'))"
  shows "wfb b' \<and> prefix (d_bytes d) (d_bytes d') \<and> (\<not> rollback_failed e \<longrightarrow> d_bytes d' = d_bytes d)"
proof -
  have "be_append_batch_and_sync ops [data] (b, d) = (Inl e, (b', d'))"
    using assms(2) by (auto simp: be_append_and_sync_def st_bind_Inl)
  from batch_Err [OF assms(1) this] show ?thesis .
qed

end

section \<open>The synchronous backend keeps the promise\<close>

lemma os_set_len_eq:
  "os_set_len n d = (r, d') \<Longrightarrow>
     d_bytes d' = (if is_ok r then take n (d_bytes d) @ replicate (n - length (d_bytes d)) 0 else d_bytes d)"
proof (induction n d rule: os_set_len.induct)
  case (1 n d)
  from "1.prems" show ?case
    using "1.IH" [OF refl]
    by (auto simp: os_set_len.simps [of n d] Let_def split: list.splits answer.splits)
qed

lemma os_sync_eq:
  "os_sync d = (r, d') \<Longrightarrow>
     d_bytes d' = d_bytes d \<and> (is_ok r \<longrightarrow> d_synced d' = d_bytes d)"
proof (induction d rule: os_sync.induct)
  case (1 d)
  from "1.prems" show ?case
    using "1.IH" by (auto simp: os_sync.simps [of d] split: list.splits answer.splits)
qed

lemma os_len_eq: "os_len d = (r, d') \<Longrightarrow> d_bytes d' = d_bytes d \<and> (\<forall>n. r = Inr n \<longrightarrow> n = length (d_bytes d))"
  by (auto simp: os_len_def split: list.splits answer.splits)

lemma os_write_eq:
  "os_write data d = (r, d') \<Longrightarrow>
     d_bytes d' = d_bytes d @ (case r of Inr n \<Rightarrow> take n data | Inl _ \<Rightarrow> [])
       \<and> (\<forall>n. r = Inr n \<longrightarrow> n \<le> length data)"
  by (auto simp: os_write_def min_def split: list.splits answer.splits)

lemma write_loop_eq:
  "write_loop data d = (r, rest, d') \<Longrightarrow>
     (\<exists>sent. data = sent @ rest \<and> d_bytes d' = d_bytes d @ sent) \<and> (is_ok r \<longrightarrow> rest = [])"
proof (induction data d arbitrary: r rest d' rule: write_loop.induct)
  case (1 data d)
  show ?case
  proof (cases "data = []")
    case True
    then show ?thesis using "1.prems" by (auto simp: write_loop.simps)
  next
    case False
    obtain w d1 where w: "os_write data d = (w, d1)" by fastforce
    note eq = os_write_eq [OF w]
    show ?thesis
    proof (cases w)
      case (Inr n)
      show ?thesis
      proof (cases "n = 0")
        case True
        then show ?thesis using "1.prems" False w Inr eq by (auto simp: write_loop.simps [of data])
      next
        case nz: False
        then have "write_loop (drop n data) d1 = (r, rest, d')"
          using "1.prems" False w Inr by (simp add: write_loop.simps [of data])
        from "1.IH"(2) [OF False w [symmetric] Inr nz this]
        obtain sent where "drop n data = sent @ rest" "d_bytes d' = d_bytes d1 @ sent" "is_ok r \<longrightarrow> rest = []"
          by blast
        moreover have "data = take n data @ drop n data" by simp
        ultimately have "data = (take n data @ sent) @ rest" "d_bytes d' = d_bytes d @ take n data @ sent"
          using eq Inr by (metis append.assoc, simp)
        then show ?thesis using \<open>is_ok r \<longrightarrow> rest = []\<close> by blast
      qed
    next
      case (Inl e)
      show ?thesis
      proof (cases "e = Interrupted")
        case True
        then have "write_loop data d1 = (r, rest, d')"
          using "1.prems" False w Inl by (simp add: write_loop.simps [of data])
        from "1.IH"(1) [OF False w [symmetric] Inl True this] show ?thesis
          using Inl eq by simp
      next
        case ne: False
        then have "r = Inl e" "rest = data" "d' = d1"
          using "1.prems" False w Inl by (auto simp: write_loop.simps [of data] split: io_error.splits)
        then show ?thesis using eq Inl by simp
      qed
    qed
  qed
qed

text \<open>What a backend has taken over: the bytes of the file and those still in the buffer.\<close>

definition taken :: "sync_backend \<times> os \<Rightarrow> bytes" where
  "taken s = d_bytes (snd s) @ bw_buf (sb_writer (fst s))"

definition wf_sync :: "sync_backend \<Rightarrow> bool" where
  "wf_sync b \<longleftrightarrow> bw_buf (sb_writer b) = []"

definition grown :: "sync_backend \<times> os \<Rightarrow> sync_backend \<times> os \<Rightarrow> bool" where
  "grown s s' \<longleftrightarrow> prefix (d_bytes (snd s)) (d_bytes (snd s')) \<and> sb_offset (fst s') = sb_offset (fst s)
     \<and> bw_capacity (sb_writer (fst s')) = bw_capacity (sb_writer (fst s))"

lemma grown_refl [simp]: "grown s s" by (simp add: grown_def)

lemma grown_trans [trans]: "grown s s' \<Longrightarrow> grown s' s'' \<Longrightarrow> grown s s''"
  by (auto simp: grown_def intro: prefix_order.trans)

lemma sb_flush_eq:
  assumes "sb_step flush_buf s = (r, s')"
  shows "taken s' = taken s \<and> grown s s' \<and> (is_ok r \<longrightarrow> wf_sync (fst s'))"
proof -
  obtain rest d' where wl: "write_loop (bw_buf (sb_writer (fst s))) (snd s) = (r, rest, d')"
    and s': "s' = ((fst s)\<lparr>sb_writer := (sb_writer (fst s))\<lparr>bw_buf := rest\<rparr>\<rparr>, d')"
    using assms by (cases s) (auto simp: sb_step_def flush_buf_def split: prod.splits)
  from write_loop_eq [OF wl] show ?thesis
    by (auto simp: s' taken_def grown_def wf_sync_def)
qed

lemma sb_direct_eq:
  assumes "sb_step (bw_direct data) s = (r, s')"
  shows "grown s s' \<and> (wf_sync (fst s) \<and> is_ok r \<longrightarrow> taken s' = taken s @ data)"
proof -
  obtain rest d' where wl: "write_loop data (snd s) = (r, rest, d')" and s': "s' = (fst s, d')"
    using assms by (cases s) (auto simp: sb_step_def bw_direct_def split: prod.splits)
  from write_loop_eq [OF wl] show ?thesis
    by (auto simp: s' taken_def grown_def wf_sync_def)
qed

lemma sb_fill_eq: "sb_step (bw_fill data) s = (r, s') \<Longrightarrow> grown s s' \<and> taken s' = taken s @ data"
  by (cases s) (auto simp: sb_step_def bw_fill_def taken_def grown_def)

text \<open>A buffer that does not fit the spare room is emptied first, so bytes handed straight to
  the file never overtake buffered ones.\<close>

lemma sb_write_all_eq:
  assumes "sb_step (bw_write_all data) s = (r, s')" "bw_capacity (sb_writer (fst s)) > 0"
  shows "grown s s' \<and> (is_ok r \<longrightarrow> taken s' = taken s @ data)"
proof -
  define cap where "cap = bw_capacity (sb_writer (fst s))"
  define spare where "spare = cap - length (bw_buf (sb_writer (fst s)))"
  have eq: "sb_step (bw_write_all data) s =
      (if length data < spare then sb_step (bw_fill data) s
       else st_bind (if length data > spare then sb_step flush_buf else st_ret ())
              (\<lambda>_. if length data \<ge> cap then sb_step (bw_direct data) else sb_step (bw_fill data)) s)"
    by (cases s) (auto simp: sb_step_def bw_write_all_def spare_def cap_def Let_def st_bind_def
        split: prod.splits sum.splits)
  consider (fill) "length data < spare" | (flush) "length data > spare" | (exact) "length data = spare"
    by linarith
  then show ?thesis
  proof cases
    case fill
    then show ?thesis using assms(1) sb_fill_eq eq by simp
  next
    case flush
    obtain r1 s1 where fl: "sb_step flush_buf s = (r1, s1)" by (cases "sb_step flush_buf s")
    note f = sb_flush_eq [OF fl]
    show ?thesis
    proof (cases r1)
      case (Inl e)
      then show ?thesis using assms(1) eq fl f flush by auto
    next
      case (Inr u)
      then have step: "(if length data \<ge> cap then sb_step (bw_direct data) else sb_step (bw_fill data)) s1 = (r, s')"
        using assms(1) eq fl flush by simp
      then show ?thesis
        using f Inr sb_direct_eq [of data s1 r s'] sb_fill_eq [of data s1 r s']
        by (auto intro: grown_trans split: if_splits)
    qed
  next
    case exact
    then have "length data \<ge> cap \<longleftrightarrow> wf_sync (fst s)"
      using assms(2) by (cases "bw_buf (sb_writer (fst s))") (auto simp: spare_def cap_def wf_sync_def)
    then show ?thesis
      using assms(1) eq exact sb_direct_eq [of data s r s'] sb_fill_eq [of data s r s']
      by (auto split: if_splits)
  qed
qed

lemma rollback_locked_eq:
  assumes "rollback_locked n (b, d) = (r, (b', d'))"
  shows "bw_buf (sb_writer b') = [] \<and> bw_capacity (sb_writer b') = bw_capacity (sb_writer b) \<and>
     (let cutoff = take n (d_bytes d) @ replicate (n - length (d_bytes d)) 0 in
      (is_ok r \<longrightarrow> d_bytes d' = cutoff \<and> d_synced d' = cutoff \<and> sb_offset b' = n) \<and>
      (d_bytes d' = d_bytes d \<or> d_bytes d' = cutoff))"
proof -
  obtain r0 d0 where sl: "os_set_len n d = (r0, d0)" by (cases "os_set_len n d")
  obtain r1 d1 where sy: "os_sync d0 = (r1, d1)" by (cases "os_sync d0")
  show ?thesis
    using assms os_set_len_eq [OF sl] os_sync_eq [OF sy] sl sy
    by (cases r0) (auto simp: rollback_locked_def Let_def st_bind_def split: sum.splits if_splits)
qed

lemma finish_append_Inr:
  assumes "finish_append start end_off m s = (Inr x, (b', d'))"
  shows "\<exists>b1. m s = (Inr x, (b1, d')) \<and> b' = b1\<lparr>sb_offset := end_off\<rparr>"
  using assms by (auto simp: finish_append_def split: prod.splits sum.splits)

lemma finish_append_Inl:
  assumes "finish_append start end_off m s = (Inl e, (b', d'))"
    and "\<And>c s1. m s = (Inl c, s1) \<Longrightarrow> bw_capacity (sb_writer (fst s)) > 0 \<Longrightarrow> grown s s1"
    and "start = length (d_bytes (snd s))" "bw_capacity (sb_writer (fst s)) > 0"
  shows "wf_sync b' \<and> bw_capacity (sb_writer b') > 0 \<and> prefix (d_bytes (snd s)) (d_bytes d') \<and>
     (\<not> rollback_failed e \<longrightarrow> d_bytes d' = d_bytes (snd s))"
proof -
  obtain c b1 d1 where m: "m s = (Inl c, (b1, d1))"
    using assms(1) by (auto simp: finish_append_def split: prod.splits sum.splits)
  obtain r where rb: "rollback_locked start (b1, d1) = (r, (b', d'))" and e: "\<not> rollback_failed e \<longrightarrow> is_ok r"
    using assms(1) m by (auto simp: finish_append_def split: prod.splits sum.splits)
  have g: "grown s (b1, d1)" using assms(2,4) m by blast
  then have "take start (d_bytes d1) @ replicate (start - length (d_bytes d1)) 0 = d_bytes (snd s)"
    using assms(3) by (auto simp: grown_def prefix_def)
  then show ?thesis
    using rollback_locked_eq [OF rb] g assms(4) e by (auto simp: Let_def wf_sync_def grown_def)
qed

lemma lock_append_eq: "lock_append s = (r, s') \<Longrightarrow> s' = s"
  by (cases s) (auto simp: lock_append_def split: if_splits)

lemma sb_os_len_eq:
  "sb_os os_len s = (r, s') \<Longrightarrow>
     fst s' = fst s \<and> d_bytes (snd s') = d_bytes (snd s) \<and> (\<forall>n. r = Inr n \<longrightarrow> n = length (d_bytes (snd s)))"
  using os_len_eq by (cases s) (auto simp: sb_os_def split: prod.splits)

lemma sb_os_sync_eq:
  "sb_os os_sync s = (r, s') \<Longrightarrow>
     fst s' = fst s \<and> d_bytes (snd s') = d_bytes (snd s) \<and> (is_ok r \<longrightarrow> d_synced (snd s') = d_bytes (snd s))"
  using os_sync_eq by (cases s) (auto simp: sb_os_def split: prod.splits)

text \<open>The start of both append operations: nothing has been written when they fail early.\<close>

lemma append_prologue:
  assumes "st_bind lock_append (\<lambda>_. st_bind (sb_os os_len) (\<lambda>start.
     st_bind (st_lift (chk start)) (\<lambda>end_off. k start end_off))) (b, d) = (r, (b', d'))"
  shows "(\<not> is_ok r \<and> b' = b \<and> d_bytes d' = d_bytes d) \<or>
     (\<exists>d1 end_off. d_bytes d1 = d_bytes d \<and> chk (length (d_bytes d)) = Inr end_off \<and>
        k (length (d_bytes d)) end_off (b, d1) = (r, (b', d')))"
proof -
  obtain r0 s0 where lk: "lock_append (b, d) = (r0, s0)" by (cases "lock_append (b, d)")
  obtain r1 b1 d1 where ln: "sb_os os_len (b, d) = (r1, (b1, d1))" by (cases "sb_os os_len (b, d)") auto
  show ?thesis
    using assms lock_append_eq [OF lk] sb_os_len_eq [OF ln] lk ln
    by (cases r0; cases r1; cases "chk (length (d_bytes d))") (auto simp: st_bind_def)
qed

text \<open>A sequence of steps each of which only adds bytes.\<close>

definition grows :: "(sync_backend \<times> os, io_error, 'a) step \<Rightarrow> bool" where
  "grows m \<longleftrightarrow> (\<forall>s r s'. bw_capacity (sb_writer (fst s)) > 0 \<longrightarrow> m s = (r, s') \<longrightarrow> grown s s')"

lemma grows_grown: "grows m \<Longrightarrow> m s = (r, s') \<Longrightarrow> bw_capacity (sb_writer (fst s)) > 0 \<Longrightarrow> grown s s'"
  unfolding grows_def by blast

lemma grows_bind:
  assumes "grows m" "\<And>x. grows (k x)"
  shows "grows (st_bind m k)"
  unfolding grows_def
proof (intro allI impI)
  fix s r s' assume cap: "bw_capacity (sb_writer (fst s)) > 0" and eq: "st_bind m k s = (r, s')"
  obtain r1 s1 where m: "m s = (r1, s1)" by (cases "m s")
  note g = grows_grown [OF assms(1) m cap]
  show "grown s s'"
  proof (cases r1)
    case (Inl e)
    then show ?thesis using eq m g by simp
  next
    case (Inr x)
    then have "k x s1 = (r, s')" using eq m by simp
    moreover have "bw_capacity (sb_writer (fst s1)) > 0" using g cap by (simp add: grown_def)
    ultimately show ?thesis using grows_grown [OF assms(2)] g grown_trans by blast
  qed
qed

lemma grows_ret [simp]: "grows (st_ret x)" "grows (st_lift r')"
  by (auto simp: grows_def)

lemma grows_io [simp]:
  "grows (sb_step flush_buf)" "grows (sb_step (bw_write_all data))" "grows (sb_os os_sync)"
  using sb_flush_eq sb_write_all_eq sb_os_sync_eq by (auto simp: grows_def grown_def)

lemma grows_write_buffers: "grows (write_buffers running bufs)"
  by (induction bufs arbitrary: running) (auto intro!: grows_bind)

lemma write_buffers_Inr:
  "write_buffers running bufs s = (Inr offs, s') \<Longrightarrow> bw_capacity (sb_writer (fst s)) > 0 \<Longrightarrow>
     taken s' = taken s @ concat bufs \<and> offs = starts running bufs"
proof (induction bufs arbitrary: running s offs s')
  case (Cons buf bufs)
  from Cons.prems(1) obtain s1 offs' where w: "sb_step (bw_write_all buf) s = (Inr (), s1)"
    and rest: "write_buffers (running + length buf) bufs s1 = (Inr offs', s')" and o: "offs = running # offs'"
    by (auto simp: st_bind_Inr checked_append_end_def checked_add64_Some ok_or_Inr)
  from sb_write_all_eq [OF w Cons.prems(2)]
  have "taken s1 = taken s @ buf" "bw_capacity (sb_writer (fst s1)) > 0"
    using Cons.prems(2) by (auto simp: grown_def)
  then show ?case using Cons.IH [OF rest] o by simp
qed auto

lemma append_end_eq: "append_end running bufs = Inr e \<Longrightarrow> e = running + length (concat bufs)"
proof (induction bufs arbitrary: running)
  case (Cons buf bufs)
  then have "append_end (running + length buf) bufs = Inr e"
    by (auto simp: bind_res_Inr checked_append_end_def checked_add64_Some ok_or_Inr)
  from Cons.IH [OF this] show ?case by simp
qed simp

definition wf_backend :: "sync_backend \<Rightarrow> bool" where
  "wf_backend b \<longleftrightarrow> wf_sync b \<and> bw_capacity (sb_writer b) > 0"

lemma taken_wf: "wf_sync b \<Longrightarrow> taken (b, d) = d_bytes d"
  by (simp add: taken_def wf_sync_def)

lemma sb_append_Inr:
  assumes "wf_backend b" "sb_append data (b, d) = (Inr start, (b', d'))"
  shows "wf_backend b' \<and> start = length (d_bytes d) \<and> d_bytes d' = d_bytes d @ data
    \<and> sb_offset b' = start + length data"
proof -
  from append_prologue [OF assms(2) [unfolded sb_append_def]]
  obtain d1 end_off where d1: "d_bytes d1 = d_bytes d"
    and e: "checked_append_end (length (d_bytes d)) (length data) = Inr end_off"
    and fin: "finish_append (length (d_bytes d)) end_off
       (st_bind (sb_step flush_buf) (\<lambda>_. st_bind (sb_step (bw_write_all data)) (\<lambda>_.
        st_bind (sb_step flush_buf) (\<lambda>_. st_ret (length (d_bytes d)))))) (b, d1) = (Inr start, (b', d'))"
    by auto
  from finish_append_Inr [OF fin] obtain b1 s1 s2 where
    s1: "sb_step flush_buf (b, d1) = (Inr (), s1)" and s2: "sb_step (bw_write_all data) s1 = (Inr (), s2)"
    and s3: "sb_step flush_buf s2 = (Inr (), (b1, d'))" and st: "start = length (d_bytes d)"
    and b': "b' = b1\<lparr>sb_offset := end_off\<rparr>"
    by (auto simp: st_bind_Inr)
  note f1 = sb_flush_eq [OF s1] and f3 = sb_flush_eq [OF s3]
  have cap: "bw_capacity (sb_writer (fst s1)) > 0"
    using assms(1) f1 by (auto simp: grown_def wf_backend_def)
  note f2 = sb_write_all_eq [OF s2 cap]
  have "wf_backend b1" using f2 f3 cap by (auto simp: wf_backend_def grown_def)
  moreover have "d_bytes d' = d_bytes d @ data"
    using f1 f2 f3 assms(1) d1 taken_wf [of b1 d'] taken_wf [of b d1] by (simp add: wf_backend_def)
  ultimately show ?thesis
    using b' st e
    by (auto simp: wf_backend_def wf_sync_def checked_append_end_def checked_add64_Some ok_or_Inr)
qed

text \<open>A failed append of either kind leaves the file as it found it, unless the rollback
  itself failed; then the file still starts with what was there before.\<close>

lemma append_failed:
  assumes b: "wf_backend b"
    and eq: "st_bind lock_append (\<lambda>_. st_bind (sb_os os_len) (\<lambda>start.
       st_bind (st_lift (chk start)) (\<lambda>end_off. finish_append start end_off (m start)))) (b, d) = (Inl e, (b', d'))"
    and g: "\<And>start. grows (m start)"
  shows "wf_backend b' \<and> prefix (d_bytes d) (d_bytes d') \<and> (\<not> rollback_failed e \<longrightarrow> d_bytes d' = d_bytes d)"
proof -
  consider "b' = b \<and> d_bytes d' = d_bytes d"
    | d1 end_off where "d_bytes d1 = d_bytes d"
      "finish_append (length (d_bytes d)) end_off (m (length (d_bytes d))) (b, d1) = (Inl e, (b', d'))"
    using append_prologue [OF eq] by blast
  then show ?thesis
  proof cases
    case 2
    have cap: "bw_capacity (sb_writer (fst (b, d1))) > 0" using b by (simp add: wf_backend_def)
    have "m (length (d_bytes d)) (b, d1) = (Inl c, s1) \<Longrightarrow>
        bw_capacity (sb_writer (fst (b, d1))) > 0 \<Longrightarrow> grown (b, d1) s1" for c s1
      using grows_grown [OF g] by blast
    moreover have "length (d_bytes d) = length (d_bytes (snd (b, d1)))" using 2(1) by simp
    ultimately show ?thesis
      using finish_append_Inl [OF 2(2) _ _ cap] unfolding wf_backend_def snd_conv 2(1) by blast
  qed (use b in simp)
qed

lemma sb_append_Inl:
  assumes "wf_backend b" "sb_append data (b, d) = (Inl e, (b', d'))"
  shows "wf_backend b' \<and> prefix (d_bytes d) (d_bytes d') \<and> (\<not> rollback_failed e \<longrightarrow> d_bytes d' = d_bytes d)"
  by (rule append_failed [OF assms(1) assms(2) [unfolded sb_append_def]])
    (intro grows_bind grows_io grows_ret)

lemma sb_batch_Inr:
  assumes "wf_backend b" "sb_append_batch_and_sync bufs (b, d) = (Inr offs, (b', d'))"
  shows "wf_backend b' \<and> offs = starts (length (d_bytes d)) bufs \<and> d_bytes d' = d_bytes d @ concat bufs
    \<and> d_synced d' = d_bytes d' \<and> sb_offset b' = length (d_bytes d')"
proof -
  from append_prologue [OF assms(2) [unfolded sb_append_batch_and_sync_def]]
  obtain d1 end_off where d1: "d_bytes d1 = d_bytes d"
    and e: "append_end (length (d_bytes d)) bufs = Inr end_off"
    and fin: "finish_append (length (d_bytes d)) end_off
       (st_bind (sb_step flush_buf) (\<lambda>_. st_bind (write_buffers (length (d_bytes d)) bufs) (\<lambda>offs.
        st_bind (sb_step flush_buf) (\<lambda>_. st_bind (sb_os os_sync) (\<lambda>_. st_ret offs))))) (b, d1)
       = (Inr offs, (b', d'))"
    by auto
  from finish_append_Inr [OF fin] obtain b1 s1 s2 s3 where
    s1: "sb_step flush_buf (b, d1) = (Inr (), s1)"
    and s2: "write_buffers (length (d_bytes d)) bufs s1 = (Inr offs, s2)"
    and s3: "sb_step flush_buf s2 = (Inr (), s3)" and s4: "sb_os os_sync s3 = (Inr (), (b1, d'))"
    and b': "b' = b1\<lparr>sb_offset := end_off\<rparr>"
    by (auto simp: st_bind_Inr)
  note f1 = sb_flush_eq [OF s1] and f3 = sb_flush_eq [OF s3] and f4 = sb_os_sync_eq [OF s4]
  have cap: "bw_capacity (sb_writer (fst s1)) > 0"
    using assms(1) f1 by (auto simp: grown_def wf_backend_def)
  note f2 = write_buffers_Inr [OF s2 cap]
  have cap2: "bw_capacity (sb_writer (fst s2)) > 0"
    using grows_grown [OF grows_write_buffers s2 cap] cap by (simp add: grown_def)
  have "wf_backend b1" using f3 f4 cap2 by (auto simp: wf_backend_def grown_def)
  moreover have "d_bytes d' = d_bytes d @ concat bufs"
    using f1 f2 f3 f4 assms(1) d1 taken_wf [of "fst s3" "snd s3"] taken_wf [of b d1]
    by (simp add: wf_backend_def)
  moreover from this have "sb_offset b' = length (d_bytes d')" using append_end_eq [OF e] b' by simp
  moreover have "d_synced d' = d_bytes d'" using f4 by simp
  moreover have "wf_backend b'" using \<open>wf_backend b1\<close> b' by (simp add: wf_backend_def wf_sync_def)
  ultimately show ?thesis using f2 by blast
qed

lemma sb_batch_Inl:
  assumes "wf_backend b" "sb_append_batch_and_sync bufs (b, d) = (Inl e, (b', d'))"
  shows "wf_backend b' \<and> prefix (d_bytes d) (d_bytes d') \<and> (\<not> rollback_failed e \<longrightarrow> d_bytes d' = d_bytes d)"
  by (rule append_failed [OF assms(1) assms(2) [unfolded sb_append_batch_and_sync_def]])
    (intro grows_bind grows_io grows_ret grows_write_buffers)

lemma sb_rollback_eq:
  assumes "wf_backend b" "sb_rollback_to n (b, d) = (r, (b', d'))" "n \<le> length (d_bytes d)"
  shows "wf_backend b' \<and> (d_bytes d' = d_bytes d \<or> d_bytes d' = take n (d_bytes d)) \<and>
    (is_ok r \<longrightarrow> d_bytes d' = take n (d_bytes d) \<and> d_synced d' = d_bytes d' \<and> sb_offset b' = n)"
proof (cases "d_poisoned d")
  case True
  then show ?thesis using assms by (auto simp: sb_rollback_to_def lock_append_def st_bind_def)
next
  case False
  then have "rollback_locked n (b, d) = (r, (b', d'))"
    using assms(2) by (simp add: sb_rollback_to_def lock_append_def st_bind_def)
  from rollback_locked_eq [OF this] assms(1,3) show ?thesis
    by (auto simp: wf_backend_def wf_sync_def Let_def)
qed

lemma sb_sync_eq:
  assumes "wf_backend b" "sb_sync (b, d) = (r, (b', d'))"
  shows "wf_backend b' \<and> d_bytes d' = d_bytes d \<and> sb_offset b' = sb_offset b
    \<and> (is_ok r \<longrightarrow> d_synced d' = d_bytes d)"
proof -
  have "sb_step flush_buf (b, d) = (Inr (), (b, d))"
    using assms(1) by (simp add: sb_step_def flush_buf_def wf_backend_def wf_sync_def write_loop.simps)
  then have "sb_os os_sync (b, d) = (r, (b', d'))" using assms(2) by (simp add: sb_sync_def)
  from sb_os_sync_eq [OF this] assms(1) show ?thesis by simp
qed

interpretation sync: io_backend sync_ops wf_backend
proof (unfold_locales, unfold sync_ops_def backend_ops.simps, goal_cases)
  case 1 then show ?case by (rule sb_append_Inr)
next
  case 2 then show ?case by (rule sb_append_Inl)
next
  case (3 b bufs d offs b' d')
  then show ?case using sb_batch_Inr [OF 3] by simp
next
  case 4 then show ?case by (rule sb_batch_Inl)
next
  case (5 b n d u b' d')
  then show ?case using sb_rollback_eq [OF 5] by simp
next
  case (6 b n d e b' d')
  then show ?case using sb_rollback_eq [OF 6] by simp
next
  case (7 b d u b' d')
  then show ?case using sb_sync_eq [OF 7] by simp
next
  case (8 b d e b' d')
  then show ?case using sb_sync_eq [OF 8] by simp
qed

end
