(* ===== verification/Log_Format.thy ===== *)
theory Log_Format
  imports Files Backend
begin

text \<open>
  The record format of the append-only Bitcask log
  (\<^verbatim>\<open>src/sections/log_part_01.rs\<close>, \<^verbatim>\<open>log_part_02.rs\<close>): the data types, the size
  validation, the encoders of live records and tombstones, and the batch encoders
  with the positions they report.  The checksum \<open>crc\<close> is \<^verbatim>\<open>crc32fast::hash\<close>, a
  parameter; the clock reading \<open>now\<close> is \<^verbatim>\<open>now_ms()\<close>.  An incremental
  \<^verbatim>\<open>crc32fast::Hasher\<close> is the string of bytes fed to it.

  The lemmas relate the in-place encoders (placeholder, body, patched checksum) to
  \<open>frame_bytes\<close>, the byte string that a record denotes.
\<close>

type_synonym crc_fn = "bytes \<Rightarrow> u32"

section \<open>Definitions\<close>

definition HEADER_SIZE :: nat where [simp]: "HEADER_SIZE = 26"
definition TOMBSTONE :: u32 where [simp]: "TOMBSTONE = 4294967295"
definition MAX_VALUE_SIZE :: nat where [simp]: "MAX_VALUE_SIZE = 512 * 1024 * 1024"
definition BODY_LEN_FILE_SIZE_CHECK_THRESHOLD :: nat where
  "BODY_LEN_FILE_SIZE_CHECK_THRESHOLD = 64 * 1024"
definition STREAM_READ_CHUNK_SIZE :: nat where
  "STREAM_READ_CHUNK_SIZE = 64 * 1024"

datatype log_error =
    IoError
  | KeyTooLarge nat
  | ValueTooLarge nat
  | ValueTooLargeInRecord nat
  | TruncatedRecord string
  | ShortRead string nat nat
  | CrcMismatch u32 u32
  | BodyPastEof nat nat
  | LengthOverflow string
  | PrefixExceedsLog
  | PrefixEndsBeforeEof
  | PrefixCutsRecord
  | LogPathChanged
  | LogChanged nat nat
  | LogGrew nat nat
  | AmbiguousTail nat nat string
  | NotALiveRecord nat
  | CopyRollbackFailed log_error log_error
  | BackendFailed io_error

fun is_truncated_record :: "log_error \<Rightarrow> bool" where
  "is_truncated_record (TruncatedRecord label) = True"
| "is_truncated_record _ = False"

record log_record =
  timestamp_ms :: u64
  expire_at_ms :: u64
  rkey :: bytes
  rvalue :: "bytes option"

record record_metadata =
  m_timestamp_ms :: u64
  m_expire_at_ms :: u64
  m_key :: bytes
  m_value_size :: u32
  m_is_tombstone :: bool
  m_offset :: nat
  m_record_size :: nat

datatype batch_write =
    Put bytes bytes u64
  | Delete bytes

datatype batch_write_result =
    PutResult nat nat
  | DeleteResult nat nat

definition validate_kv_sizes :: "bytes \<Rightarrow> bytes \<Rightarrow> log_error + unit" where
  "validate_kv_sizes key value =
     (if length key > 65535 then Inl (KeyTooLarge (length key))
      else if length value > MAX_VALUE_SIZE then Inl (ValueTooLarge (length value))
      else Inr ())"

definition record_len :: "nat \<Rightarrow> nat \<Rightarrow> nat" where
  "record_len key_len value_len = HEADER_SIZE + key_len + value_len"

definition tombstone_len :: "nat \<Rightarrow> nat" where
  "tombstone_len key_len = HEADER_SIZE + key_len"

text \<open>Overwrites \<open>bs\<close> from position \<open>at\<close>: \<^verbatim>\<open>buf[at..at+n].copy_from_slice(bs)\<close>.\<close>

definition patch :: "nat \<Rightarrow> bytes \<Rightarrow> bytes \<Rightarrow> bytes" where
  "patch at bs buf = take at buf @ bs @ drop (at + length bs) buf"

definition encode_record_into :: "crc_fn \<Rightarrow> u64 \<Rightarrow> bytes \<Rightarrow> bytes \<Rightarrow> bytes \<Rightarrow> u64 \<Rightarrow> bytes" where
  "encode_record_into crc now buf key value expire =
     (let start = length buf;
          key_size = word_of_nat (length key) :: u16;
          value_size = word_of_nat (length value) :: u32;
          buf1 = buf @ replicate 4 0 @ le64 now @ le64 expire @ le16 key_size
                   @ le32 value_size @ key @ value;
          c = crc (drop (start + 4) buf1)
      in patch start (le32 c) buf1)"

definition encode_tombstone_into :: "crc_fn \<Rightarrow> u64 \<Rightarrow> bytes \<Rightarrow> bytes \<Rightarrow> bytes" where
  "encode_tombstone_into crc now buf key =
     (let start = length buf;
          key_size = word_of_nat (length key) :: u16;
          buf1 = buf @ replicate 4 0 @ le64 now @ le64 0 @ le16 key_size
                   @ le32 TOMBSTONE @ key;
          c = crc (drop (start + 4) buf1)
      in patch start (le32 c) buf1)"

definition encode_record :: "crc_fn \<Rightarrow> u64 \<Rightarrow> bytes \<Rightarrow> bytes \<Rightarrow> u64 \<Rightarrow> bytes" where
  "encode_record crc now key value expire = encode_record_into crc now [] key value expire"

definition encode_tombstone :: "crc_fn \<Rightarrow> u64 \<Rightarrow> bytes \<Rightarrow> bytes" where
  "encode_tombstone crc now key = encode_tombstone_into crc now [] key"

text \<open>Batches.  Every record of a batch takes its own clock reading, so the clock is a
  list with one reading per entry.\<close>

fun batch_write_len :: "batch_write \<Rightarrow> nat" where
  "batch_write_len (Put key value expire) = record_len (length key) (length value)"
| "batch_write_len (Delete key) = tombstone_len (length key)"

fun validate_batch_write :: "batch_write \<Rightarrow> log_error + unit" where
  "validate_batch_write (Put key value expire) = validate_kv_sizes key value"
| "validate_batch_write (Delete key) = validate_kv_sizes key []"

fun validate_batch_writes :: "batch_write list \<Rightarrow> log_error + unit" where
  "validate_batch_writes [] = Inr ()"
| "validate_batch_writes (e # es) =
     bind_res (validate_batch_write e) (\<lambda>_. validate_batch_writes es)"

fun batch_total_len :: "nat \<Rightarrow> batch_write list \<Rightarrow> log_error + nat" where
  "batch_total_len acc [] = Inr acc"
| "batch_total_len acc (e # es) =
     bind_res (ok_or (checked_add64 acc (batch_write_len e))
                (LengthOverflow ''batch record length overflow''))
       (\<lambda>acc'. batch_total_len acc' es)"

fun encode_batch_write_into :: "crc_fn \<Rightarrow> u64 \<Rightarrow> bytes \<Rightarrow> batch_write \<Rightarrow> bytes" where
  "encode_batch_write_into crc now buf (Put key value expire) =
     encode_record_into crc now buf key value expire"
| "encode_batch_write_into crc now buf (Delete key) = encode_tombstone_into crc now buf key"

text \<open>The clock is read once per record: \<open>clock i\<close> is what the \<open>i\<close>-th reading returns.\<close>

fun encode_all :: "crc_fn \<Rightarrow> (nat \<Rightarrow> u64) \<Rightarrow> batch_write list \<Rightarrow> bytes \<Rightarrow> bytes" where
  "encode_all crc clock [] buf = buf"
| "encode_all crc clock (e # es) buf =
     encode_all crc (\<lambda>i. clock (Suc i)) es (encode_batch_write_into crc (clock 0) buf e)"

definition encode_batch_writes :: "crc_fn \<Rightarrow> (nat \<Rightarrow> u64) \<Rightarrow> batch_write list \<Rightarrow> log_error + bytes" where
  "encode_batch_writes crc clock entries =
     bind_res (batch_total_len 0 entries) (\<lambda>_. Inr (encode_all crc clock entries []))"

fun batch_write_results :: "batch_write list \<Rightarrow> nat \<Rightarrow> batch_write_result list" where
  "batch_write_results [] running = []"
| "batch_write_results (Put key value expire # es) running =
     PutResult running (length value)
       # batch_write_results es (running + record_len (length key) (length value))"
| "batch_write_results (Delete key # es) running =
     DeleteResult running (HEADER_SIZE + length key)
       # batch_write_results es (running + tombstone_len (length key))"

text \<open>The record that a batch entry stands for, and the byte string a record denotes.\<close>

fun entry_record :: "u64 \<Rightarrow> batch_write \<Rightarrow> log_record" where
  "entry_record now (Put key value expire) =
     \<lparr>timestamp_ms = now, expire_at_ms = expire, rkey = key, rvalue = Some value\<rparr>"
| "entry_record now (Delete key) =
     \<lparr>timestamp_ms = now, expire_at_ms = 0, rkey = key, rvalue = None\<rparr>"

definition value_size_field :: "log_record \<Rightarrow> u32" where
  "value_size_field r =
     (case rvalue r of None \<Rightarrow> TOMBSTONE | Some v \<Rightarrow> word_of_nat (length v))"

definition value_bytes :: "log_record \<Rightarrow> bytes" where
  "value_bytes r = (case rvalue r of None \<Rightarrow> [] | Some v \<Rightarrow> v)"

definition frame_fields :: "log_record \<Rightarrow> bytes" where
  "frame_fields r = le64 (timestamp_ms r) @ le64 (expire_at_ms r)
     @ le16 (word_of_nat (length (rkey r))) @ le32 (value_size_field r)"

definition frame_body :: "log_record \<Rightarrow> bytes" where
  "frame_body r = frame_fields r @ rkey r @ value_bytes r"

definition frame_bytes :: "crc_fn \<Rightarrow> log_record \<Rightarrow> bytes" where
  "frame_bytes crc r = le32 (crc (frame_body r)) @ frame_body r"

definition record_ok :: "log_record \<Rightarrow> bool" where
  "record_ok r \<longleftrightarrow> length (rkey r) \<le> 65535 \<and> length (value_bytes r) \<le> MAX_VALUE_SIZE"

section \<open>Encoders and the frames they write\<close>

lemma patch_placeholder:
  "length c = 4 \<Longrightarrow> patch (length buf) c (buf @ replicate 4 0 @ body) = buf @ c @ body"
  by (simp add: patch_def)

lemma encode_record_into_eq:
  "encode_record_into crc now buf key value expire =
     buf @ frame_bytes crc \<lparr>timestamp_ms = now, expire_at_ms = expire, rkey = key, rvalue = Some value\<rparr>"
  by (simp add: encode_record_into_def Let_def patch_placeholder frame_bytes_def frame_body_def
      frame_fields_def value_size_field_def value_bytes_def)

lemma encode_tombstone_into_eq:
  "encode_tombstone_into crc now buf key =
     buf @ frame_bytes crc \<lparr>timestamp_ms = now, expire_at_ms = 0, rkey = key, rvalue = None\<rparr>"
  by (simp add: encode_tombstone_into_def Let_def patch_placeholder frame_bytes_def frame_body_def
      frame_fields_def value_size_field_def value_bytes_def)

lemma encode_batch_write_into_eq:
  "encode_batch_write_into crc now buf e = buf @ frame_bytes crc (entry_record now e)"
  by (cases e) (simp_all add: encode_record_into_eq encode_tombstone_into_eq)

fun entry_records :: "(nat \<Rightarrow> u64) \<Rightarrow> batch_write list \<Rightarrow> log_record list" where
  "entry_records clock [] = []"
| "entry_records clock (e # es) = entry_record (clock 0) e # entry_records (\<lambda>i. clock (Suc i)) es"

lemma encode_all_eq:
  "encode_all crc clock es buf = buf @ concat (map (frame_bytes crc) (entry_records clock es))"
  by (induction crc clock es buf rule: encode_all.induct) (simp_all add: encode_batch_write_into_eq)

lemma entry_records_length [simp]: "length (entry_records clock es) = length es"
  by (induction clock es rule: entry_records.induct) simp_all

lemma entry_records_nth: "i < length es \<Longrightarrow> entry_records clock es ! i = entry_record (clock i) (es ! i)"
  by (induction clock es arbitrary: i rule: entry_records.induct) (auto simp: nth_Cons split: nat.splits)

lemma frame_fields_length [simp]: "length (frame_fields r) = 22"
  by (simp add: frame_fields_def)

lemma frame_length:
  "length (frame_bytes crc r) = HEADER_SIZE + length (rkey r) + length (value_bytes r)"
  by (simp add: frame_bytes_def frame_body_def)

lemma frame_length_ge: "26 \<le> length (frame_bytes crc r)"
  by (simp add: frame_length)

lemma frame_nonempty [simp]: "frame_bytes crc r \<noteq> []"
  using frame_length_ge [of crc r] by auto

lemma entry_frame_length: "length (frame_bytes crc (entry_record now e)) = batch_write_len e"
  by (cases e) (simp_all add: frame_length record_len_def tombstone_len_def value_bytes_def)

lemma validate_batch_write_ok:
  "validate_batch_write e = Inr u \<Longrightarrow> record_ok (entry_record now e)"
  by (cases e) (auto simp: validate_kv_sizes_def record_ok_def value_bytes_def split: if_splits)

lemma validate_batch_writes_ok:
  "validate_batch_writes es = Inr u \<Longrightarrow> e \<in> set es \<Longrightarrow> record_ok (entry_record now e)"
  by (induction es) (auto simp: bind_res_Inr intro: validate_batch_write_ok)

lemma value_size_field_live:
  "record_ok r \<Longrightarrow> rvalue r = Some v \<Longrightarrow>
     value_size_field r \<noteq> TOMBSTONE \<and> unat (value_size_field r) = length v"
proof -
  assume "record_ok r" "rvalue r = Some v"
  then have len: "length v \<le> 536870912"
    by (simp add: record_ok_def value_bytes_def)
  then have un: "unat (word_of_nat (length v) :: u32) = length v"
    by (intro unat_of_nat_32) simp
  have "(word_of_nat (length v) :: u32) \<noteq> 4294967295"
  proof
    assume "(word_of_nat (length v) :: u32) = 4294967295"
    then have "length v = unat (4294967295 :: u32)" using un by simp
    then show False using len by simp
  qed
  then show ?thesis
    using un \<open>rvalue r = Some v\<close> by (simp add: value_size_field_def)
qed

end
