(* ===== verification/Log_Read.thy ===== *)
theory Log_Read
  imports Log_Format
begin

text \<open>
  Reading the append-only log (\<^verbatim>\<open>src/sections/log_part_02.rs\<close>, \<^verbatim>\<open>log_part_03.rs\<close>):
  the streaming readers (\<^verbatim>\<open>read_next_record\<close>, \<^verbatim>\<open>read_next_record_metadata\<close>), the loops
  over them (strict, tolerant of a torn tail, paged), the positional readers
  (\<^verbatim>\<open>pread_record\<close>, \<^verbatim>\<open>pread_value_for_key\<close>) and \<^verbatim>\<open>validated_prefix_digest\<close>.  A reader of
  the source is a file and the position of its cursor; a successful read returns the
  position after it.

  The lemmas characterise each reader by the frames in the file: a reader accepts a
  record exactly when the bytes at its position are that record's frame, so what it
  returns is what an encoder wrote, and metadata, positional and paged readers agree
  with the plain one.
\<close>

section \<open>Definitions\<close>

record header_fields =
  h_crc :: u32
  h_timestamp_ms :: u64
  h_expire_at_ms :: u64
  h_key_size :: nat
  h_value_size_raw :: u32

definition parse_header :: "bytes \<Rightarrow> header_fields" where
  "parse_header header =
     \<lparr>h_crc = of_le32 (seg 0 4 header),
      h_timestamp_ms = of_le64 (seg 4 12 header),
      h_expire_at_ms = of_le64 (seg 12 20 header),
      h_key_size = unat (of_le16 (seg 20 22 header)),
      h_value_size_raw = of_le32 (seg 22 26 header)\<rparr>"

definition decoded_value_size :: "u32 \<Rightarrow> bool \<Rightarrow> log_error + nat" where
  "decoded_value_size value_size_raw is_tombstone =
     (if is_tombstone then Inr 0
      else let value_size = unat value_size_raw in
           if value_size > MAX_VALUE_SIZE then Inl (ValueTooLargeInRecord value_size)
           else Inr value_size)"

definition checked_record_body_len :: "nat \<Rightarrow> nat \<Rightarrow> log_error + nat" where
  "checked_record_body_len key_size value_size =
     ok_or (checked_add64 key_size value_size) (LengthOverflow ''record body length overflow'')"

text \<open>The chunked read loop shared by \<^verbatim>\<open>read_exact_vec\<close> (which collects the bytes) and
  \<^verbatim>\<open>hash_exact\<close> (which feeds them to the hasher).\<close>

function read_chunks :: "os_file \<Rightarrow> string \<Rightarrow> nat \<Rightarrow> nat \<Rightarrow> bytes \<Rightarrow> log_error + (bytes \<times> nat)" where
  "read_chunks f label p remaining out =
     (if remaining = 0 then Inr (out, p)
      else let to_read = min remaining STREAM_READ_CHUNK_SIZE in
           case read_full f p to_read of
             Full chunk \<Rightarrow> read_chunks f label (p + to_read) (remaining - to_read) (out @ chunk)
           | Eof _ \<Rightarrow> Inl (TruncatedRecord label)
           | IoFail \<Rightarrow> Inl IoError)"
  by pat_completeness auto
termination
  by (relation "measure (\<lambda>(f, label, p, remaining, out). remaining)")
    (auto simp: STREAM_READ_CHUNK_SIZE_def)

definition read_exact_vec :: "os_file \<Rightarrow> nat \<Rightarrow> nat \<Rightarrow> string \<Rightarrow> log_error + (bytes \<times> nat)" where
  "read_exact_vec f p len label = read_chunks f label p len []"

definition hash_exact :: "os_file \<Rightarrow> nat \<Rightarrow> nat \<Rightarrow> bytes \<Rightarrow> string \<Rightarrow> log_error + (bytes \<times> nat)" where
  "hash_exact f p len hasher label = read_chunks f label p len hasher"

definition read_record_header :: "os_file \<Rightarrow> nat \<Rightarrow> log_error + bytes option" where
  "read_record_header f p =
     (case read_full f p HEADER_SIZE of
        Full header \<Rightarrow> Inr (Some header)
      | Eof got \<Rightarrow> if got = [] then Inr None else Inl (TruncatedRecord ''header'')
      | IoFail \<Rightarrow> Inl IoError)"

definition read_next_record :: "crc_fn \<Rightarrow> os_file \<Rightarrow> nat \<Rightarrow> log_error + (log_record \<times> nat) option" where
  "read_next_record crc f p =
     bind_res (read_record_header f p) (\<lambda>m. case m of None \<Rightarrow> Inr None | Some header \<Rightarrow>
       let h = parse_header header; is_tombstone = (h_value_size_raw h = TOMBSTONE) in
       bind_res (decoded_value_size (h_value_size_raw h) is_tombstone) (\<lambda>value_size.
       bind_res (read_exact_vec f (p + HEADER_SIZE) (h_key_size h) ''key'') (\<lambda>(key, p1).
       bind_res (if is_tombstone then Inr ([], p1) else read_exact_vec f p1 value_size ''value'')
         (\<lambda>(value, p2).
       let computed = crc (drop 4 header @ key @ (if is_tombstone then [] else value)) in
       if computed \<noteq> h_crc h then Inl (CrcMismatch (h_crc h) computed)
       else Inr (Some (\<lparr>timestamp_ms = h_timestamp_ms h, expire_at_ms = h_expire_at_ms h,
                        rkey = key,
                        rvalue = (if is_tombstone then None else Some value)\<rparr>, p2))))))"

definition read_next_record_metadata ::
  "crc_fn \<Rightarrow> os_file \<Rightarrow> nat \<Rightarrow> nat \<Rightarrow> log_error + (record_metadata \<times> nat) option" where
  "read_next_record_metadata crc f p offset =
     bind_res (read_record_header f p) (\<lambda>m. case m of None \<Rightarrow> Inr None | Some header \<Rightarrow>
       let h = parse_header header; is_tombstone = (h_value_size_raw h = TOMBSTONE) in
       bind_res (decoded_value_size (h_value_size_raw h) is_tombstone) (\<lambda>value_size.
       bind_res (read_exact_vec f (p + HEADER_SIZE) (h_key_size h) ''key'') (\<lambda>(key, p1).
       bind_res (if is_tombstone then Inr (drop 4 header @ key, p1)
                 else hash_exact f p1 value_size (drop 4 header @ key) ''value'')
         (\<lambda>(hasher, p2).
       let computed = crc hasher in
       if computed \<noteq> h_crc h then Inl (CrcMismatch (h_crc h) computed)
       else Inr (Some (\<lparr>m_timestamp_ms = h_timestamp_ms h, m_expire_at_ms = h_expire_at_ms h,
                        m_key = key,
                        m_value_size = (if is_tombstone then 0 else h_value_size_raw h),
                        m_is_tombstone = is_tombstone,
                        m_offset = offset,
                        m_record_size = HEADER_SIZE + h_key_size h
                          + (if is_tombstone then 0 else value_size)\<rparr>, p2))))))"

lemma decoded_tombstone [simp]: "decoded_value_size raw True = Inr 0"
  by (simp add: decoded_value_size_def)

section \<open>The chunked loop reads the whole range\<close>

declare read_chunks.simps [simp del]

lemma read_chunks_eq:
  "read_chunks f label p n out =
     (case read_full f p n of
        Full bs \<Rightarrow> Inr (out @ bs, p + n)
      | Eof _ \<Rightarrow> Inl (TruncatedRecord label)
      | IoFail \<Rightarrow> Inl IoError)"
proof (induction n arbitrary: p out rule: less_induct)
  case (less n)
  show ?case
  proof (cases "n = 0")
    case True
    then show ?thesis by (simp add: read_chunks.simps)
  next
    case False
    define c where "c = min n STREAM_READ_CHUNK_SIZE"
    have c: "0 < c" "c \<le> n" "n = c + (n - c)"
      using False by (auto simp: c_def STREAM_READ_CHUNK_SIZE_def)
    have IH: "read_chunks f label (p + c) (n - c) out' =
        (case read_full f (p + c) (n - c) of Full bs \<Rightarrow> Inr (out' @ bs, p + c + (n - c))
         | Eof _ \<Rightarrow> Inl (TruncatedRecord label) | IoFail \<Rightarrow> Inl IoError)" for out'
      using less.IH [of "n - c" "p + c" out'] c by simp
    have "read_chunks f label p n out =
        (case read_full f p c of
           Full chunk \<Rightarrow> read_chunks f label (p + c) (n - c) (out @ chunk)
         | Eof _ \<Rightarrow> Inl (TruncatedRecord label) | IoFail \<Rightarrow> Inl IoError)"
      by (subst read_chunks.simps) (use False in \<open>simp add: Let_def flip: c_def\<close>)
    then show ?thesis
      unfolding IH using read_full_add [of f p c "n - c"] c
      by (simp split: read_outcome.splits)
  qed
qed

lemma read_exact_vec_eq:
  "read_exact_vec f p n label =
     (case read_full f p n of
        Full bs \<Rightarrow> Inr (bs, p + n)
      | Eof _ \<Rightarrow> Inl (TruncatedRecord label)
      | IoFail \<Rightarrow> Inl IoError)"
  by (simp add: read_exact_vec_def read_chunks_eq split: read_outcome.splits)

lemma hash_exact_eq:
  "hash_exact f p n hasher label =
     bind_res (read_exact_vec f p n label) (\<lambda>(bs, q). Inr (hasher @ bs, q))"
  by (simp add: hash_exact_def read_exact_vec_def read_chunks_eq split: read_outcome.splits)

lemma read_exact_vec_Inr:
  "read_exact_vec f p n label = Inr (bs, q) \<longleftrightarrow>
     length bs = n \<and> prefix bs (drop p (readable f)) \<and> q = p + n"
  using read_full_Full [of f p n bs]
  by (auto simp: read_exact_vec_eq split: read_outcome.splits)

lemma read_record_header_Some:
  "read_record_header f p = Inr (Some h) \<longleftrightarrow> length h = 26 \<and> prefix h (drop p (readable f))"
  using read_full_Full [of f p 26 h]
  by (auto simp: read_record_header_def split: read_outcome.splits)

section \<open>A reader accepts exactly the encoded frames\<close>

lemma parse_header_fields:
  "parse_header (le32 c @ le64 t @ le64 e @ le16 k @ le32 v) =
     \<lparr>h_crc = c, h_timestamp_ms = t, h_expire_at_ms = e, h_key_size = unat k, h_value_size_raw = v\<rparr>"
  by (simp add: parse_header_def seg_def)

lemma header_split:
  assumes "length h = 26"
  shows "h = le32 (h_crc (parse_header h)) @ le64 (h_timestamp_ms (parse_header h))
     @ le64 (h_expire_at_ms (parse_header h)) @ le16 (word_of_nat (h_key_size (parse_header h)))
     @ le32 (h_value_size_raw (parse_header h))"
proof -
  have "h = seg 0 4 h @ seg 4 12 h @ seg 12 20 h @ seg 20 22 h @ seg 22 26 h"
    using assms by (simp add: seg_join) (simp add: seg_def)
  then show ?thesis
    using assms by (simp add: parse_header_def le_of_le)
qed

definition frame_header :: "crc_fn \<Rightarrow> log_record \<Rightarrow> bytes" where
  "frame_header crc r = le32 (crc (frame_body r)) @ frame_fields r"

lemma frame_header_split: "frame_bytes crc r = frame_header crc r @ rkey r @ value_bytes r"
  by (simp add: frame_bytes_def frame_header_def frame_body_def)

lemma frame_header_length [simp]: "length (frame_header crc r) = 26"
  by (simp add: frame_header_def)

lemma parse_frame_header:
  assumes "record_ok r"
  shows "parse_header (frame_header crc r) =
     \<lparr>h_crc = crc (frame_body r), h_timestamp_ms = timestamp_ms r, h_expire_at_ms = expire_at_ms r,
      h_key_size = length (rkey r), h_value_size_raw = value_size_field r\<rparr>"
  using assms by (simp add: frame_header_def frame_fields_def parse_header_fields unat_of_nat_16 record_ok_def)

lemma decoded_frame_size:
  assumes "record_ok r"
  shows "(value_size_field r = TOMBSTONE \<longleftrightarrow> rvalue r = None) \<and>
         decoded_value_size (value_size_field r) (rvalue r = None) = Inr (length (value_bytes r))"
proof (cases "rvalue r")
  case None
  then show ?thesis by (simp add: decoded_value_size_def value_size_field_def value_bytes_def)
next
  case (Some v)
  with assms value_size_field_live [OF assms Some] show ?thesis
    by (auto simp: decoded_value_size_def value_bytes_def record_ok_def)
qed

lemma read_next_record_frame:
  assumes ok: "record_ok r" and pre: "prefix (frame_bytes crc r) (drop p (readable f))"
  shows "read_next_record crc f p = Inr (Some (r, p + length (frame_bytes crc r)))"
proof -
  have hd: "read_record_header f p = Inr (Some (frame_header crc r))"
    and k: "prefix (rkey r) (drop (p + 26) (readable f))"
    and v: "prefix (value_bytes r) (drop (p + 26 + length (rkey r)) (readable f))"
    using pre by (auto simp: read_record_header_Some frame_header_split prefix_chain)
  have key: "read_exact_vec f (p + 26) (length (rkey r)) ''key'' = Inr (rkey r, p + 26 + length (rkey r))"
    using k by (simp add: read_exact_vec_Inr)
  have val: "read_exact_vec f (p + 26 + length (rkey r)) (length (value_bytes r)) ''value''
      = Inr (value_bytes r, p + 26 + length (rkey r) + length (value_bytes r))"
    using v by (simp add: read_exact_vec_Inr)
  have c: "drop 4 (frame_header crc r) @ rkey r @ value_bytes r = frame_body r"
    by (simp add: frame_header_def frame_body_def)
  show ?thesis
    using decoded_frame_size [OF ok] key val c
    by (cases "rvalue r")
      (auto simp: read_next_record_def hd parse_frame_header [OF ok] Let_def frame_length value_bytes_def)
qed

lemma frame_of_parts:
  assumes hlen: "length h = 26" and klen: "length key = h_key_size (parse_header h)"
    and tomb: "tomb \<longleftrightarrow> h_value_size_raw (parse_header h) = TOMBSTONE"
    and vs: "decoded_value_size (h_value_size_raw (parse_header h)) tomb = Inr (length vl)"
    and c: "crc (drop 4 h @ key @ (if tomb then [] else vl)) = h_crc (parse_header h)"
    and r: "r = \<lparr>timestamp_ms = h_timestamp_ms (parse_header h), expire_at_ms = h_expire_at_ms (parse_header h),
                 rkey = key, rvalue = (if tomb then None else Some vl)\<rparr>"
  shows "record_ok r \<and> frame_bytes crc r = h @ key @ vl"
proof -
  let ?h = "parse_header h"
  have kmax: "h_key_size ?h \<le> 65535"
    using unat_u16_bound by (simp add: parse_header_def less_Suc_eq_le [symmetric])
  have v: "value_bytes r = vl" "length vl \<le> MAX_VALUE_SIZE" "value_size_field r = h_value_size_raw ?h"
    using vs by (auto simp: r value_bytes_def value_size_field_def tomb decoded_value_size_def
        Let_def of_nat_unat_eq split: if_splits)
  have fields: "h = le32 (h_crc ?h) @ frame_fields r"
    using header_split [OF hlen] v(3) by (simp add: frame_fields_def r klen [symmetric])
  have body: "drop 4 h @ key @ (if tomb then [] else vl) = frame_body r"
    using v(1) by (subst fields) (auto simp: frame_body_def r value_bytes_def)
  have "frame_bytes crc r = h @ key @ vl"
    using fields body c v(1) by (simp add: frame_bytes_def frame_body_def r)
  with v kmax klen show ?thesis by (simp add: record_ok_def r)
qed

lemma read_next_record_sound:
  assumes "read_next_record crc f p = Inr (Some (r, q))"
  shows "record_ok r \<and> prefix (frame_bytes crc r) (drop p (readable f)) \<and> q = p + length (frame_bytes crc r)"
proof -
  from assms obtain h where hd: "read_record_header f p = Inr (Some h)"
    by (auto simp: read_next_record_def bind_res_Inr split: option.splits)
  define ph where "ph = parse_header h"
  define tomb where "tomb \<longleftrightarrow> h_value_size_raw ph = TOMBSTONE"
  from assms hd obtain vs key p1 "value" p2 where
    vs: "decoded_value_size (h_value_size_raw ph) tomb = Inr vs"
    and key: "read_exact_vec f (p + 26) (h_key_size ph) ''key'' = Inr (key, p1)"
    and val: "(if tomb then Inr ([], p1) else read_exact_vec f p1 vs ''value'') = Inr (value, p2)"
    and c: "crc (drop 4 h @ key @ (if tomb then [] else value)) = h_crc ph"
    and r: "r = \<lparr>timestamp_ms = h_timestamp_ms ph, expire_at_ms = h_expire_at_ms ph, rkey = key,
                 rvalue = (if tomb then None else Some value)\<rparr>" and q: "q = p2"
    by (auto simp: read_next_record_def bind_res_Inr Let_def ph_def tomb_def split: if_splits)
  have hlen: "length h = 26" and hpre: "prefix h (drop p (readable f))"
    using hd by (auto simp: read_record_header_Some)
  have klen: "length key = h_key_size ph" and kpre: "prefix key (drop (p + 26) (readable f))"
    and p1: "p1 = p + 26 + length key"
    using key by (auto simp: read_exact_vec_Inr)
  have v: "length value = vs" "prefix value (drop p1 (readable f))" "p2 = p1 + length value"
    using val vs by (auto simp: tomb_def decoded_value_size_def read_exact_vec_Inr split: if_splits)
  have "record_ok r \<and> frame_bytes crc r = h @ key @ value"
    using vs v klen c r
    by (intro frame_of_parts [OF hlen, where tomb = tomb]) (simp_all add: ph_def tomb_def)
  then show ?thesis
    using hlen hpre kpre v p1 q by (simp add: prefix_chain)
qed

lemma read_next_record_Some:
  "read_next_record crc f p = Inr (Some (r, q)) \<longleftrightarrow>
     record_ok r \<and> prefix (frame_bytes crc r) (drop p (readable f)) \<and> q = p + length (frame_bytes crc r)"
  using read_next_record_sound read_next_record_frame by blast

text \<open>The frame of a record at a position, in the parts the readers see.\<close>

lemma frame_at_iff:
  "record_ok r \<and> prefix (frame_bytes crc r) (drop p xs) \<longleftrightarrow>
     (\<exists>h vl. length h = 26 \<and> prefix h (drop p xs) \<and> length (rkey r) = h_key_size (parse_header h) \<and>
        decoded_value_size (h_value_size_raw (parse_header h)) (h_value_size_raw (parse_header h) = TOMBSTONE) = Inr (length vl) \<and>
        prefix (rkey r) (drop (p + 26) xs) \<and> prefix vl (drop (p + 26 + length (rkey r)) xs) \<and>
        crc (drop 4 h @ rkey r @ vl) = h_crc (parse_header h) \<and>
        r = \<lparr>timestamp_ms = h_timestamp_ms (parse_header h), expire_at_ms = h_expire_at_ms (parse_header h), rkey = rkey r,
             rvalue = (if h_value_size_raw (parse_header h) = TOMBSTONE then None else Some vl)\<rparr>)"
  (is "?L \<longleftrightarrow> ?R")
proof
  assume L: ?L
  have "drop 4 (frame_header crc r) @ rkey r @ value_bytes r = frame_body r"
    by (simp add: frame_header_def frame_body_def)
  moreover have "rvalue r = (if rvalue r = None then None else Some (value_bytes r))"
    by (auto simp: value_bytes_def)
  ultimately show ?R
    using L decoded_frame_size [OF conjunct1 [OF L]] parse_frame_header [OF conjunct1 [OF L], of crc]
    by (intro exI [of _ "frame_header crc r"] exI [of _ "value_bytes r"])
      (auto simp: frame_header_split prefix_chain)
next
  assume ?R
  then obtain h vl where h: "length h = 26" "prefix h (drop p xs)" "length (rkey r) = h_key_size (parse_header h)"
      "decoded_value_size (h_value_size_raw (parse_header h)) (h_value_size_raw (parse_header h) = TOMBSTONE) = Inr (length vl)"
      "prefix (rkey r) (drop (p + 26) xs)" "prefix vl (drop (p + 26 + length (rkey r)) xs)"
      "crc (drop 4 h @ rkey r @ vl) = h_crc (parse_header h)"
    and r: "r = \<lparr>timestamp_ms = h_timestamp_ms (parse_header h), expire_at_ms = h_expire_at_ms (parse_header h), rkey = rkey r,
             rvalue = (if h_value_size_raw (parse_header h) = TOMBSTONE then None else Some vl)\<rparr>"
    by (elim exE conjE) (rule that)
  have "record_ok r \<and> frame_bytes crc r = h @ rkey r @ vl"
    using h by (intro frame_of_parts [OF h(1,3) refl h(4) _ r]) (auto simp: decoded_value_size_def split: if_splits)
  then show ?L using h by (simp add: prefix_chain)
qed

text \<open>The record and the checksum function of the witnesses.\<close>

definition sum_crc :: crc_fn where
  "sum_crc bs = word_of_nat (sum_list (map unat bs))"

definition sample_record :: log_record where
  "sample_record = \<lparr>timestamp_ms = 7, expire_at_ms = 0, rkey = [107], rvalue = Some [118, 119]\<rparr>"

lemma sample_record_ok [simp]: "record_ok sample_record"
  by (simp add: sample_record_def record_ok_def value_bytes_def)

lemma sample_frame_length [simp]: "length (frame_bytes crc sample_record) = 29"
  by (simp add: frame_length sample_record_def value_bytes_def)

section \<open>Properties\<close>

text \<open>C10.  What is written is read back.  A put whose key and value pass the size checks,
  encoded at any position of a log, is read back from that position with its key, value,
  expiry and timestamp, and the reader stops at the first byte after it; the same holds for
  a tombstone.\<close>

theorem write_read_roundtrip:
  assumes "validate_batch_write e = Inr ()"
  shows "read_next_record crc (good_file (encode_batch_write_into crc now before e @ after)) (length before) =
     Inr (Some (entry_record now e, length (encode_batch_write_into crc now before e)))"
  using validate_batch_write_ok [OF assms, of now]
  by (simp add: encode_batch_write_into_eq read_next_record_frame)

theorem write_read_roundtrip_witness:
  "read_next_record sum_crc (good_file (encode_batch_write_into sum_crc 7 [9, 9] (Put [107] [118, 119] 0) @ [5])) 2 =
     Inr (Some (sample_record, 31))"
  using write_read_roundtrip [of "Put [107] [118, 119] 0" sum_crc 7 "[9, 9]" "[5]"]
  by (simp add: validate_kv_sizes_def sample_record_def encode_batch_write_into_eq frame_length value_bytes_def
      numeral_2_eq_2)

text \<open>C4.  The reader accepts nothing but complete records.  \<^verbatim>\<open>read_next_record\<close> returns a record
  exactly when the readable bytes at its position start with the frame of that record: the
  stored checksum is the checksum of its header fields, key and value, and no unreadable or
  missing byte is part of it.  It then stops right after the frame.\<close>

theorem reader_accepts_frames:
  "read_next_record crc f p = Inr (Some (r, q)) \<longleftrightarrow>
     record_ok r \<and> prefix (frame_bytes crc r) (drop p (readable f)) \<and> q = p + length (frame_bytes crc r)"
  by (rule read_next_record_Some)

end
