(* ===== verification/Log_Scan.thy ===== *)
theory Log_Scan
  imports Log_Read
begin

text \<open>
  The loops over the log (\<^verbatim>\<open>LogReader::iter_from_start\<close>, \<^verbatim>\<open>iter_from_start_tolerant\<close>,
  \<^verbatim>\<open>iter_from_offset_tolerant\<close>, \<^verbatim>\<open>iter_metadata_page_tolerant\<close>,
  \<^verbatim>\<open>validated_prefix_digest\<close>; \<^verbatim>\<open>src/sections/log_part_02.rs\<close>, \<^verbatim>\<open>log_part_03.rs\<close>).
  \<open>torn\<close> says which byte strings are the residue of an append that a crash cut short;
  the lemmas show that the strict scan accepts exactly a sequence of frames, the
  tolerant scan exactly a sequence of frames followed by such a residue, and that
  reading page by page is the tolerant scan.
\<close>

section \<open>Definitions\<close>

lemma read_next_record_progress:
  "read_next_record crc f p = Inr (Some (r, q)) \<Longrightarrow> p + 26 \<le> q \<and> q \<le> length (readable f)"
  using frame_length_ge [of crc r] prefix_length_le [of "frame_bytes crc r" "drop p (readable f)"]
  by (auto simp: read_next_record_Some)

function iter_from :: "crc_fn \<Rightarrow> os_file \<Rightarrow> nat \<Rightarrow> log_record list \<Rightarrow> log_error + log_record list" where
  "iter_from crc f p records =
     (case read_next_record crc f p of
        Inl e \<Rightarrow> Inl e
      | Inr None \<Rightarrow> Inr records
      | Inr (Some (r, q)) \<Rightarrow> iter_from crc f q (records @ [r]))"
  by pat_completeness auto
termination
  by (relation "measure (\<lambda>(crc, f, p, records). length (readable f) - p)")
    (auto dest!: read_next_record_progress)

definition iter_from_start :: "crc_fn \<Rightarrow> os_file \<Rightarrow> log_error + log_record list" where
  "iter_from_start crc f = iter_from crc f 0 []"

function iter_tolerant :: "crc_fn \<Rightarrow> os_file \<Rightarrow> nat \<Rightarrow> log_record list \<Rightarrow> log_error + log_record list" where
  "iter_tolerant crc f p records =
     (case read_next_record crc f p of
        Inr (Some (r, q)) \<Rightarrow> iter_tolerant crc f q (records @ [r])
      | Inr None \<Rightarrow> Inr records
      | Inl e \<Rightarrow> if is_truncated_record e then Inr records else Inl e)"
  by pat_completeness auto
termination
  by (relation "measure (\<lambda>(crc, f, p, records). length (readable f) - p)")
    (auto dest!: read_next_record_progress)

definition iter_from_start_tolerant :: "crc_fn \<Rightarrow> os_file \<Rightarrow> log_error + log_record list" where
  "iter_from_start_tolerant crc f = iter_tolerant crc f 0 []"

definition iter_from_offset_tolerant :: "crc_fn \<Rightarrow> os_file \<Rightarrow> nat \<Rightarrow> log_error + log_record list" where
  "iter_from_offset_tolerant crc f offset = iter_tolerant crc f offset []"

text \<open>The metadata of a record, as the scan reports it.\<close>

definition metadata_of :: "nat \<Rightarrow> log_record \<Rightarrow> record_metadata" where
  "metadata_of offset r =
     \<lparr>m_timestamp_ms = timestamp_ms r, m_expire_at_ms = expire_at_ms r, m_key = rkey r,
      m_value_size = word_of_nat (length (value_bytes r)),
      m_is_tombstone = (rvalue r = None), m_offset = offset,
      m_record_size = HEADER_SIZE + length (rkey r) + length (value_bytes r)\<rparr>"

lemma read_next_record_metadata_eq:
  "read_next_record_metadata crc f p offset =
     bind_res (read_next_record crc f p)
       (\<lambda>m. Inr (map_option (\<lambda>(r, q). (metadata_of offset r, q)) m))"
proof (cases "read_record_header f p")
  case (Inl e)
  then show ?thesis by (simp add: read_next_record_metadata_def read_next_record_def)
next
  case (Inr m)
  show ?thesis
  proof (cases m)
    case None
    with Inr show ?thesis by (simp add: read_next_record_metadata_def read_next_record_def)
  next
    case (Some h)
    let ?h = "parse_header h"
    note defs = Inr Some read_next_record_metadata_def read_next_record_def Let_def hash_exact_eq
      metadata_of_def value_bytes_def decoded_value_size_def
    show ?thesis
    proof (cases "h_value_size_raw ?h = 4294967295")
      case True
      then show ?thesis
        by (cases "read_exact_vec f (p + 26) (h_key_size ?h) ''key''")
          (auto simp: defs read_exact_vec_Inr)
    next
      case False
      show ?thesis
      proof (cases "read_exact_vec f (p + 26) (h_key_size ?h) ''key''")
        case (Inl e)
        with False show ?thesis by (simp add: defs)
      next
        case (Inr kq)
        then obtain ks q where kq: "read_exact_vec f (p + 26) (h_key_size ?h) ''key'' = Inr (ks, q)"
          by (cases kq) auto
        then have "length ks = h_key_size ?h" by (simp add: read_exact_vec_Inr)
        moreover have "read_exact_vec f q (unat (h_value_size_raw ?h)) ''value'' = Inr (bs, q2) \<Longrightarrow>
            length bs = unat (h_value_size_raw ?h)" for bs q2
          by (simp add: read_exact_vec_Inr)
        ultimately show ?thesis
          using False kq
          by (cases "read_exact_vec f q (unat (h_value_size_raw ?h)) ''value''")
            (simp_all add: defs split: prod.splits)
      qed
    qed
  qed
qed

function page_loop ::
  "crc_fn \<Rightarrow> os_file \<Rightarrow> nat \<Rightarrow> nat \<Rightarrow> nat \<Rightarrow> record_metadata list
     \<Rightarrow> log_error + (record_metadata list \<times> nat \<times> bool)" where
  "page_loop crc f p offset limit records =
     (if length records < limit then
        (case read_next_record_metadata crc f p offset of
           Inr (Some (m, q)) \<Rightarrow>
             bind_res (ok_or (checked_add64 offset (m_record_size m))
                        (LengthOverflow ''record offset overflow''))
               (\<lambda>offset'. page_loop crc f q offset' limit (records @ [m]))
         | Inr None \<Rightarrow> Inr (records, offset, True)
         | Inl e \<Rightarrow> if is_truncated_record e then Inr (records, offset, True) else Inl e)
      else Inr (records, offset, False))"
  by pat_completeness auto
termination
  by (relation "measure (\<lambda>(crc, f, p, offset, limit, records). limit - length records)") auto

definition iter_metadata_page_tolerant ::
  "crc_fn \<Rightarrow> os_file \<Rightarrow> nat \<Rightarrow> nat \<Rightarrow> log_error + (record_metadata list \<times> nat \<times> bool)" where
  "iter_metadata_page_tolerant crc f offset limit =
     (if limit = 0 then Inr ([], offset, False) else page_loop crc f offset offset limit [])"

lemma read_next_record_metadata_progress:
  "read_next_record_metadata crc f p offset = Inr (Some (m, q)) \<Longrightarrow>
     \<exists>r. read_next_record crc f p = Inr (Some (r, q)) \<and> m = metadata_of offset r
         \<and> q = p + m_record_size m \<and> 26 \<le> m_record_size m"
  by (auto simp: read_next_record_metadata_eq bind_res_Inr read_next_record_Some frame_length metadata_of_def)

function prefix_frames :: "crc_fn \<Rightarrow> os_file \<Rightarrow> nat \<Rightarrow> nat \<Rightarrow> log_error + unit" where
  "prefix_frames crc f prefix_bytes offset =
     (if offset < prefix_bytes then
        bind_res (read_next_record_metadata crc f offset offset) (\<lambda>m. case m of
            None \<Rightarrow> Inl PrefixEndsBeforeEof
          | Some (m, q) \<Rightarrow>
              bind_res (ok_or (checked_add64 offset (m_record_size m))
                         (LengthOverflow ''history checkpoint offset overflow''))
                (\<lambda>offset'. if offset' > prefix_bytes then Inl PrefixCutsRecord
                           else prefix_frames crc f prefix_bytes offset'))
      else Inr ())"
  by pat_completeness auto
termination
  by (relation "measure (\<lambda>(crc, f, prefix_bytes, offset). prefix_bytes - offset)")
    (auto simp: checked_add64_Some ok_or_Inr dest!: read_next_record_metadata_progress)

definition validated_prefix_digest ::
  "crc_fn \<Rightarrow> (bytes \<Rightarrow> bytes) \<Rightarrow> os_file \<Rightarrow> nat \<Rightarrow> log_error + bytes" where
  "validated_prefix_digest crc sha f prefix_bytes =
     (if file_len f < prefix_bytes then Inl PrefixExceedsLog
      else bind_res (prefix_frames crc f prefix_bytes 0) (\<lambda>_.
             case read_chunks f [] 0 prefix_bytes [] of
               Inl _ \<Rightarrow> Inl IoError
             | Inr (hashed, _) \<Rightarrow> Inr (sha hashed)))"

text \<open>The residue of an append that a crash cut short: a partial header, or a complete
  header whose key and value bytes are not all there.\<close>

definition torn :: "bytes \<Rightarrow> bool" where
  "torn rest \<longleftrightarrow> rest \<noteq> [] \<and>
     (length rest < HEADER_SIZE \<or>
      (let h = parse_header (take HEADER_SIZE rest) in
       case decoded_value_size (h_value_size_raw h) (h_value_size_raw h = TOMBSTONE) of
         Inl _ \<Rightarrow> False
       | Inr vs \<Rightarrow> length rest < HEADER_SIZE + h_key_size h + vs))"

abbreviation frames :: "crc_fn \<Rightarrow> log_record list \<Rightarrow> bytes" where
  "frames crc rs \<equiv> concat (map (frame_bytes crc) rs)"

abbreviation all_ok :: "log_record list \<Rightarrow> bool" where
  "all_ok rs \<equiv> list_all record_ok rs"

fun metas :: "nat \<Rightarrow> log_record list \<Rightarrow> record_metadata list" where
  "metas offset [] = []"
| "metas offset (r # rs) =
     metadata_of offset r # metas (offset + m_record_size (metadata_of offset r)) rs"

section \<open>Torn tails\<close>

lemma read_full_cases:
  "\<not> faulty f \<Longrightarrow> read_full f p n =
     (if n \<le> length (drop p (fbytes f)) then Full (take n (drop p (fbytes f))) else Eof (drop p (fbytes f)))"
  by (simp add: read_full_def readable_not_faulty Let_def)

lemma is_truncated_iff: "is_truncated_record e \<longleftrightarrow> (\<exists>label. e = TruncatedRecord label)"
  by (cases e) auto

lemma read_truncated_not_faulty:
  "read_next_record crc f p = Inl (TruncatedRecord label) \<Longrightarrow> \<not> faulty f"
proof
  assume tr: "read_next_record crc f p = Inl (TruncatedRecord label)" and fl: "faulty f"
  have no_eof: "read_full f q n \<noteq> Eof bs" if "q \<le> length (readable f)" for q n bs
    using that fl readable_short_iff [of f] by (auto simp: read_full_def Let_def)
  have ev: "read_exact_vec f q n l \<noteq> Inl (TruncatedRecord label)" if "q \<le> length (readable f)" for q n l
    using no_eof [OF that, of n] by (auto simp: read_exact_vec_eq split: read_outcome.splits)
  have step: "read_exact_vec f q n l = Inr (bs, q') \<Longrightarrow> q \<le> length (readable f) \<Longrightarrow> q' \<le> length (readable f)"
    for q n l bs q'
    by (auto simp: read_exact_vec_Inr dest!: prefix_length_le)
  show False
  proof (cases "read_record_header f p")
    case (Inl e)
    then obtain bs where bs: "read_full f p 26 = Eof bs" "bs \<noteq> []"
      using tr by (auto simp: read_next_record_def read_record_header_def split: read_outcome.splits if_splits)
    then have "p \<le> length (readable f)"
      using read_full_Eof_prefix [OF bs(1)] by (cases "p \<le> length (readable f)") auto
    then show False using no_eof bs by blast
  next
    case (Inr m)
    show False
    proof (cases m)
      case None
      then show False using tr Inr by (simp add: read_next_record_def)
    next
      case (Some h)
      have p: "p + 26 \<le> length (readable f)"
        using Inr Some by (auto simp: read_record_header_Some dest!: prefix_length_le)
      then show False
        using tr Inr Some ev step
        by (auto simp: read_next_record_def Let_def bind_res_Inl decoded_value_size_def split: if_splits)
    qed
  qed
qed

lemma read_next_truncated:
  assumes "\<not> faulty f"
  shows "(\<exists>label. read_next_record crc f p = Inl (TruncatedRecord label)) \<longleftrightarrow> torn (drop p (fbytes f))"
proof -
  define rest where "rest = drop p (fbytes f)"
  have d: "drop (p + n) (fbytes f) = drop n rest" for n
    by (simp add: rest_def add.commute)
  note rf = read_full_cases [OF assms, of p, folded rest_def] read_full_cases [OF assms, of "p + _", unfolded d]
  show ?thesis
  proof (cases "length rest < 26")
    case True
    then show ?thesis
      by (auto simp: read_next_record_def read_record_header_def rf torn_def rest_def [symmetric])
  next
    case False
    define h where "h = parse_header (take 26 rest)"
    from False show ?thesis
      by (auto simp: read_next_record_def read_record_header_def rf torn_def rest_def [symmetric]
          h_def [symmetric] Let_def read_exact_vec_eq decoded_value_size_def add.assoc split: if_splits)
  qed
qed

lemma torn_strict_prefix:
  assumes ok: "record_ok r" and sp: "strict_prefix bs (frame_bytes crc r)" and ne: "bs \<noteq> []"
  shows "torn bs"
proof -
  have len: "length bs < length (frame_bytes crc r)"
    using sp by (rule prefix_length_less)
  show ?thesis
  proof (cases "length bs < 26")
    case True
    with ne show ?thesis by (simp add: torn_def)
  next
    case False
    then have "take 26 bs = take 26 (frame_bytes crc r)"
      using sp by (auto simp: strict_prefix_def prefix_def)
    then have "take 26 bs = frame_header crc r"
      by (simp add: frame_header_split)
    then show ?thesis
      using ne len decoded_frame_size [OF ok]
      by (simp add: torn_def parse_frame_header [OF ok] frame_length)
  qed
qed

section \<open>What the scans accept\<close>

declare iter_from.simps [simp del] iter_tolerant.simps [simp del] page_loop.simps [simp del]
  prefix_frames.simps [simp del]

lemma read_next_None:
  "read_next_record crc f p = Inr None \<longleftrightarrow> drop p (readable f) = [] \<and> \<not> (faulty f \<and> p < file_len f)"
proof -
  have "read_next_record crc f p = Inr None \<longleftrightarrow> read_record_header f p = Inr None"
    by (auto simp: read_next_record_def bind_res_Inr Let_def split: option.splits if_splits prod.splits)
  also have "\<dots> \<longleftrightarrow> drop p (readable f) = [] \<and> \<not> (faulty f \<and> p < file_len f)"
    by (auto simp: read_record_header_def read_full_def Let_def)
  finally show ?thesis .
qed

lemma frames_uncons:
  assumes "drop p (readable f) = frames crc (r # rs) @ tail" "record_ok r"
  shows "read_next_record crc f p = Inr (Some (r, p + length (frame_bytes crc r)))"
    and "drop (p + length (frame_bytes crc r)) (readable f) = frames crc rs @ tail"
proof -
  show "read_next_record crc f p = Inr (Some (r, p + length (frame_bytes crc r)))"
    using assms by (simp add: read_next_record_Some prefix_def)
  show "drop (p + length (frame_bytes crc r)) (readable f) = frames crc rs @ tail"
    using arg_cong [OF assms(1), of "drop (length (frame_bytes crc r))"] by (simp add: add.commute)
qed

lemma read_next_cons:
  assumes "read_next_record crc f p = Inr (Some (r, q))"
  shows "record_ok r" "drop p (readable f) = frame_bytes crc r @ drop q (readable f)"
    "faulty f \<and> q < file_len f \<longleftrightarrow> faulty f \<and> p < file_len f"
proof -
  from assms have *: "record_ok r" "prefix (frame_bytes crc r) (drop p (readable f))"
      "q = p + length (frame_bytes crc r)"
    by (auto simp: read_next_record_Some)
  then show "record_ok r" "drop p (readable f) = frame_bytes crc r @ drop q (readable f)"
    by (auto simp: prefix_def) (metis add.commute append_eq_conv_conj drop_drop)
  show "faulty f \<and> q < file_len f \<longleftrightarrow> faulty f \<and> p < file_len f"
    using read_next_record_progress [OF assms] readable_short_iff [of f] by auto
qed

lemma iter_from_iff:
  "iter_from crc f p acc = Inr rs \<longleftrightarrow>
     (\<exists>rs'. rs = acc @ rs' \<and> all_ok rs' \<and> drop p (readable f) = frames crc rs'
        \<and> \<not> (faulty f \<and> p < file_len f))"
proof (induction crc f p acc rule: iter_from.induct)
  case (1 crc f p acc)
  have Cons: "read_next_record crc f p = Inr (Some (r, p + length (frame_bytes crc r)))"
    if "drop p (readable f) = frames crc (r # rs')" "all_ok (r # rs')" for r rs'
    using frames_uncons(1) [of p f crc r rs' "[]"] that by simp
  consider (err) e where "read_next_record crc f p = Inl e"
    | (none) "read_next_record crc f p = Inr None"
    | (some) r q where "read_next_record crc f p = Inr (Some (r, q))"
    by (metis obj_sumE option.exhaust surj_pair)
  then show ?case
  proof cases
    case err
    have "\<not> (\<exists>rs'. all_ok rs' \<and> drop p (readable f) = frames crc rs' \<and> \<not> (faulty f \<and> p < file_len f))"
    proof
      assume "\<exists>rs'. all_ok rs' \<and> drop p (readable f) = frames crc rs' \<and> \<not> (faulty f \<and> p < file_len f)"
      then obtain rs' where *: "all_ok rs'" "drop p (readable f) = frames crc rs'"
          "\<not> (faulty f \<and> p < file_len f)" by blast
      then show False
        using err read_next_None [of crc f p] Cons by (cases rs') auto
    qed
    then show ?thesis using err by (simp add: iter_from.simps)
  next
    case none
    then have "drop p (readable f) = []" "\<not> (faulty f \<and> p < file_len f)"
      by (simp_all add: read_next_None)
    then show ?thesis
      using none by (auto simp: iter_from.simps)
  next
    case (some r q)
    note cons = read_next_cons [OF some]
    have "iter_from crc f p acc = Inr rs \<longleftrightarrow>
        (\<exists>rs'. rs = (acc @ [r]) @ rs' \<and> all_ok rs' \<and> drop q (readable f) = frames crc rs'
           \<and> \<not> (faulty f \<and> q < file_len f))"
      using "1.IH" [OF some refl] some by (simp add: iter_from.simps)
    also have "\<dots> \<longleftrightarrow> (\<exists>rs'. rs = acc @ rs' \<and> all_ok rs' \<and> drop p (readable f) = frames crc rs'
           \<and> \<not> (faulty f \<and> p < file_len f))" (is "?L \<longleftrightarrow> ?R")
    proof
      assume ?L
      then obtain rs' where *: "rs = (acc @ [r]) @ rs'" "all_ok rs'" "drop q (readable f) = frames crc rs'"
        "\<not> (faulty f \<and> q < file_len f)" by blast
      with cons have "rs = acc @ (r # rs')" "all_ok (r # rs')" "drop p (readable f) = frames crc (r # rs')"
        "\<not> (faulty f \<and> p < file_len f)" by simp_all
      then show ?R by blast
    next
      assume ?R
      then obtain rs' where *: "rs = acc @ rs'" "all_ok rs'" "drop p (readable f) = frames crc rs'"
        "\<not> (faulty f \<and> p < file_len f)" by blast
      then obtain r' rs'' where rs': "rs' = r' # rs''" using cons(2) by (cases rs') auto
      then have "r' = r" using Cons * some by auto
      then show ?L using * rs' cons by auto
    qed
    finally show ?thesis .
  qed
qed

lemma iter_tolerant_iff:
  assumes "\<not> faulty f"
  shows "iter_tolerant crc f p acc = Inr rs \<longleftrightarrow>
     (\<exists>rs' tail. rs = acc @ rs' \<and> all_ok rs' \<and> drop p (fbytes f) = frames crc rs' @ tail
        \<and> (tail = [] \<or> torn tail))"
  using assms
proof (induction crc f p acc rule: iter_tolerant.induct)
  case (1 crc f p acc)
  note nf = readable_not_faulty [OF "1.prems"]
  have Cons: "read_next_record crc f p = Inr (Some (r, p + length (frame_bytes crc r)))"
    if "drop p (fbytes f) = frames crc (r # rs') @ tail" "all_ok (r # rs')" for r rs' tail
    using frames_uncons(1) [of p f crc r rs' tail] that nf by simp
  have tr: "read_next_record crc f p = Inl e \<Longrightarrow> is_truncated_record e \<longleftrightarrow> torn (drop p (fbytes f))" for e
    using read_next_truncated [OF "1.prems", of crc p] by (auto simp: is_truncated_iff)
  have none: "read_next_record crc f p = Inr None \<longleftrightarrow> drop p (fbytes f) = []"
    using "1.prems" nf by (simp add: read_next_None)
  consider (err) e where "read_next_record crc f p = Inl e"
    | (none) "read_next_record crc f p = Inr None"
    | (some) r q where "read_next_record crc f p = Inr (Some (r, q))"
    by (metis obj_sumE option.exhaust surj_pair)
  then show ?case
  proof cases
    case err
    have "rs' = []" if "drop p (fbytes f) = frames crc rs' @ tail" "all_ok rs'" for rs' tail
      using that Cons err by (cases rs') auto
    note nil = this
    have "(\<exists>rs' tail. rs = acc @ rs' \<and> all_ok rs' \<and> drop p (fbytes f) = frames crc rs' @ tail
        \<and> (tail = [] \<or> torn tail)) \<longleftrightarrow> rs = acc \<and> (drop p (fbytes f) = [] \<or> torn (drop p (fbytes f)))"
      (is "?L \<longleftrightarrow> ?R")
    proof
      assume ?L
      then obtain rs' tail where *: "rs = acc @ rs'" "all_ok rs'" "drop p (fbytes f) = frames crc rs' @ tail"
        "tail = [] \<or> torn tail" by blast
      then have "rs' = []" using nil by blast
      with * show ?R by auto
    next
      assume ?R
      then show ?L by (intro exI [of _ "[]"] exI [of _ "drop p (fbytes f)"]) simp
    qed
    then show ?thesis
      using err tr [OF err] none by (auto simp: iter_tolerant.simps)
  next
    case 2: none
    then show ?thesis
      using none by (auto simp: iter_tolerant.simps torn_def)
  next
    case (some r q)
    note cons = read_next_cons [OF some, unfolded nf]
    have nt: "\<not> torn (drop p (fbytes f))"
      using some read_next_truncated [OF "1.prems", of crc p] by auto
    have "iter_tolerant crc f p acc = Inr rs \<longleftrightarrow>
        (\<exists>rs' tail. rs = (acc @ [r]) @ rs' \<and> all_ok rs' \<and> drop q (fbytes f) = frames crc rs' @ tail
           \<and> (tail = [] \<or> torn tail))"
      using "1.IH" [OF some refl refl "1.prems"] some by (simp add: iter_tolerant.simps)
    also have "\<dots> \<longleftrightarrow> (\<exists>rs' tail. rs = acc @ rs' \<and> all_ok rs' \<and> drop p (fbytes f) = frames crc rs' @ tail
           \<and> (tail = [] \<or> torn tail))" (is "?L \<longleftrightarrow> ?R")
    proof
      assume ?L
      then obtain rs' tail where *: "rs = (acc @ [r]) @ rs'" "all_ok rs'"
        "drop q (fbytes f) = frames crc rs' @ tail" "tail = [] \<or> torn tail" by blast
      with cons have "rs = acc @ (r # rs')" "all_ok (r # rs')"
        "drop p (fbytes f) = frames crc (r # rs') @ tail" by simp_all
      then show ?R using *(4) by blast
    next
      assume ?R
      then obtain rs' tail where *: "rs = acc @ rs'" "all_ok rs'" "drop p (fbytes f) = frames crc rs' @ tail"
        "tail = [] \<or> torn tail" by blast
      then obtain r' rs'' where rs': "rs' = r' # rs''" using cons(2) nt by (cases rs') auto
      then have "r' = r" using Cons * some by auto
      then show ?L using * rs' cons by auto
    qed
    finally show ?thesis .
  qed
qed

section \<open>Pages and validated prefixes\<close>

lemma metadata_size: "m_record_size (metadata_of offset r) = length (frame_bytes crc r)"
  by (simp add: metadata_of_def frame_length)

lemma page_loop_eq:
  assumes "\<not> faulty f" "file_len f \<le> U64_MAX"
    and "drop p (fbytes f) = frames crc rs @ tail" "all_ok rs" "tail = [] \<or> torn tail"
  shows "page_loop crc f p p limit acc =
     (let n = limit - length acc
      in Inr (acc @ metas p (take n rs), p + length (frames crc (take n rs)), length rs < n))"
  using assms(3,4)
proof (induction rs arbitrary: p acc)
  case Nil
  have rd: "read_next_record crc f p = Inr None \<or>
      (\<exists>label. read_next_record crc f p = Inl (TruncatedRecord label))"
    using Nil assms(5) read_next_truncated [OF assms(1), of crc p]
    by (auto simp: read_next_None readable_not_faulty [OF assms(1)] assms(1))
  then show ?case
    by (auto simp: page_loop.simps [of crc f p p limit acc] read_next_record_metadata_eq Let_def)
next
  case (Cons r rs)
  let ?q = "p + length (frame_bytes crc r)"
  have rd: "read_next_record crc f p = Inr (Some (r, ?q))"
    and rest: "drop ?q (fbytes f) = frames crc rs @ tail"
    using frames_uncons [of p f crc r rs tail] Cons.prems readable_not_faulty [OF assms(1)] by auto
  have "?q \<le> U64_MAX"
    using read_next_record_progress [OF rd] length_readable_le [of f] assms(2) by linarith
  then have chk: "checked_add64 p (length (frame_bytes crc r)) = Some ?q"
    by (simp add: checked_add64_def)
  show ?case
  proof (cases "length acc < limit")
    case False
    then show ?thesis by (simp add: page_loop.simps [of crc f p p limit acc])
  next
    case True
    then obtain n where n: "limit - length acc = Suc n"
      by (metis Suc_diff_Suc)
    then have n': "limit - Suc (length acc) = n" by linarith
    have "page_loop crc f p p limit acc = page_loop crc f ?q ?q limit (acc @ [metadata_of p r])"
      using True rd chk
      by (simp add: page_loop.simps [of crc f p p limit acc] read_next_record_metadata_eq
          metadata_size [of _ _ crc])
    then show ?thesis
      using Cons.IH [OF rest, of "acc @ [metadata_of p r]"] Cons.prems(2) n n'
      by (simp add: Let_def metadata_size [of _ _ crc])
  qed
qed

lemma iter_tolerant_drop:
  assumes "\<not> faulty f" "iter_from_offset_tolerant crc f offset = Inr rs"
  shows "iter_from_offset_tolerant crc f (offset + length (frames crc (take n rs))) = Inr (drop n rs)"
proof -
  from assms obtain tail where *: "all_ok rs" "drop offset (fbytes f) = frames crc rs @ tail"
    "tail = [] \<or> torn tail"
    by (auto simp: iter_from_offset_tolerant_def iter_tolerant_iff)
  have "frames crc rs = frames crc (take n rs) @ frames crc (drop n rs)"
    by (simp flip: concat_append map_append)
  with *(2) have "drop offset (fbytes f) = frames crc (take n rs) @ frames crc (drop n rs) @ tail"
    by simp
  from arg_cong [OF this, of "drop (length (frames crc (take n rs)))"]
  have "drop (offset + length (frames crc (take n rs))) (fbytes f) = frames crc (drop n rs) @ tail"
    by (simp add: add.commute)
  moreover have "all_ok (drop n rs)"
    using *(1) by (auto simp: list_all_iff dest: in_set_dropD)
  ultimately show ?thesis
    using * assms(1) by (auto simp: iter_from_offset_tolerant_def iter_tolerant_iff)
qed

lemma prefix_frames_iff:
  assumes "prefix_bytes \<le> U64_MAX" "offset \<le> prefix_bytes"
  shows "prefix_frames crc f prefix_bytes offset = Inr () \<longleftrightarrow>
     (\<exists>rs. all_ok rs \<and> offset + length (frames crc rs) = prefix_bytes
        \<and> prefix (frames crc rs) (drop offset (readable f)))"
  using assms
proof (induction crc f prefix_bytes offset rule: prefix_frames.induct)
  case (1 crc f prefix_bytes offset)
  show ?case
  proof (cases "offset = prefix_bytes")
    case True
    then show ?thesis by (auto simp: prefix_frames.simps intro: exI [of _ "[]"])
  next
    case False
    with "1.prems" have lt: "offset < prefix_bytes" by simp
    have cons: "read_next_record crc f offset = Inr (Some (r, offset + length (frame_bytes crc r)))"
        "prefix (frames crc rs) (drop (offset + length (frame_bytes crc r)) (readable f))"
      if "prefix (frames crc (r # rs)) (drop offset (readable f))" "all_ok (r # rs)" for r rs
      using that by (auto simp: read_next_record_Some prefix_chain)
    show ?thesis
    proof (cases "\<exists>r q. read_next_record crc f offset = Inr (Some (r, q))")
      case False
      have "prefix_frames crc f prefix_bytes offset \<noteq> Inr ()"
        using False lt
        by (subst prefix_frames.simps)
          (auto simp: bind_res_Inr read_next_record_metadata_eq split: option.splits)
      moreover have "\<not> (\<exists>rs. all_ok rs \<and> offset + length (frames crc rs) = prefix_bytes
          \<and> prefix (frames crc rs) (drop offset (readable f)))"
      proof
        assume "\<exists>rs. all_ok rs \<and> offset + length (frames crc rs) = prefix_bytes
          \<and> prefix (frames crc rs) (drop offset (readable f))"
        then obtain rs where rs: "all_ok rs" "offset + length (frames crc rs) = prefix_bytes"
          "prefix (frames crc rs) (drop offset (readable f))" by blast
        then show False using False lt cons(1) by (cases rs) auto
      qed
      ultimately show ?thesis by blast
    next
      case True
      then obtain r q where rd: "read_next_record crc f offset = Inr (Some (r, q))" by blast
      then have q: "q = offset + length (frame_bytes crc r)" and ok: "record_ok r"
        and pre: "prefix (frame_bytes crc r) (drop offset (readable f))"
        by (auto simp: read_next_record_Some)
      have step: "prefix_frames crc f prefix_bytes offset = Inr () \<longleftrightarrow>
          q \<le> prefix_bytes \<and> prefix_frames crc f prefix_bytes q = Inr ()"
        using lt rd q "1.prems"(1)
        by (subst prefix_frames.simps)
          (auto simp: read_next_record_metadata_eq checked_add64_def metadata_size [of _ _ crc])
      have IH: "q \<le> prefix_bytes \<Longrightarrow> prefix_frames crc f prefix_bytes q = Inr () \<longleftrightarrow>
          (\<exists>rs. all_ok rs \<and> q + length (frames crc rs) = prefix_bytes
             \<and> prefix (frames crc rs) (drop q (readable f)))"
        using "1.IH" [of "Some (metadata_of offset r, q)" "(metadata_of offset r, q)" "metadata_of offset r" q q]
          lt rd q "1.prems"(1)
        by (simp add: read_next_record_metadata_eq checked_add64_def metadata_size [of _ _ crc])
      show ?thesis (is "_ \<longleftrightarrow> ?R")
      proof
        assume "prefix_frames crc f prefix_bytes offset = Inr ()"
        then obtain rs where "all_ok rs" "q + length (frames crc rs) = prefix_bytes"
          "prefix (frames crc rs) (drop q (readable f))" using step IH by blast
        then have "all_ok (r # rs)" "offset + length (frames crc (r # rs)) = prefix_bytes"
          "prefix (frames crc (r # rs)) (drop offset (readable f))"
          using ok pre q by (auto simp: prefix_chain)
        then show ?R by blast
      next
        assume ?R
        then obtain rs where rs: "all_ok rs" "offset + length (frames crc rs) = prefix_bytes"
          "prefix (frames crc rs) (drop offset (readable f))" by blast
        then obtain r' rs' where rs': "rs = r' # rs'" using lt by (cases rs) auto
        then have "r' = r" using cons(1) rs rd by auto
        then show "prefix_frames crc f prefix_bytes offset = Inr ()"
          using step IH rs rs' q cons(2) [of r' rs'] by auto
      qed
    qed
  qed
qed

text \<open>The newest record of each key.\<close>

definition replay :: "log_record list \<Rightarrow> bytes \<rightharpoonup> log_record" where
  "replay rs = map_of (rev (map (\<lambda>r. (rkey r, r)) rs))"

lemma replay_snoc: "replay (rs @ [r]) = (replay rs)(rkey r \<mapsto> r)"
  by (simp add: replay_def)

section \<open>Properties\<close>

text \<open>C5.  The strict scan is exact: \<^verbatim>\<open>iter_from_start\<close> returns a list of records exactly when
  every byte of the log is readable and the log is the concatenation of their frames.\<close>

theorem strict_scan_exact:
  "iter_from_start crc f = Inr rs \<longleftrightarrow> all_ok rs \<and> \<not> (faulty f \<and> fbytes f \<noteq> []) \<and> fbytes f = frames crc rs"
proof -
  have "readable f = fbytes f" if "\<not> (faulty f \<and> 0 < file_len f)"
    using that readable_not_faulty [of f] readable_prefix [of f]
    by (cases "faulty f") (auto simp: file_len_def prefix_def)
  then show ?thesis
    by (auto simp: iter_from_start_def iter_from_iff file_len_def)
qed

text \<open>C6.  The tolerant scan is exact: on a readable log \<^verbatim>\<open>iter_from_offset_tolerant\<close> returns a
  list of records exactly when the bytes from that offset are their frames, followed by
  nothing or by the residue of an append that was cut short.  A bad checksum or an impossible
  length in the middle of the log is never skipped.\<close>

theorem tolerant_scan_exact:
  assumes "\<not> faulty f"
  shows "iter_from_offset_tolerant crc f offset = Inr rs \<longleftrightarrow>
     (\<exists>tail. all_ok rs \<and> drop offset (fbytes f) = frames crc rs @ tail \<and> (tail = [] \<or> torn tail))"
  using iter_tolerant_iff [OF assms, of crc offset "[]"] by (simp add: iter_from_offset_tolerant_def)

theorem tolerant_scan_exact_witness:
  "iter_from_offset_tolerant sum_crc (good_file (frame_bytes sum_crc sample_record @ [1, 2, 3])) 0 = Inr [sample_record]"
  by (subst tolerant_scan_exact) (auto simp: torn_def)

text \<open>C7.  Reading page by page is the tolerant scan.  On a readable log whose tolerant scan from
  an offset yields a list of records, a page of limit \<open>n\<close> carries the metadata of the first \<open>n\<close>
  of them with their exact offsets, it says the scan is done exactly when fewer than \<open>n\<close> were
  left, and the tolerant scan from the offset it hands back yields exactly the others.\<close>

theorem metadata_pages_cover_scan:
  assumes "\<not> faulty f" "file_len f \<le> U64_MAX" "0 < n"
    and scan: "iter_from_offset_tolerant crc f offset = Inr rs"
  shows "\<exists>next. iter_metadata_page_tolerant crc f offset n = Inr (metas offset (take n rs), next, length rs < n) \<and>
     iter_from_offset_tolerant crc f next = Inr (drop n rs)"
proof -
  from scan obtain tail where "all_ok rs" "drop offset (fbytes f) = frames crc rs @ tail" "tail = [] \<or> torn tail"
    using assms(1) by (auto simp: iter_from_offset_tolerant_def iter_tolerant_iff)
  with page_loop_eq [OF assms(1,2), of offset crc rs tail n "[]"] assms(3)
  show ?thesis
    using iter_tolerant_drop [OF assms(1) scan, of n]
    by (auto simp: iter_metadata_page_tolerant_def Let_def)
qed

lemma scan_two_samples:
  "iter_from_offset_tolerant sum_crc (good_file (frames sum_crc [sample_record, sample_record])) 0
     = Inr [sample_record, sample_record]"
  by (auto simp: iter_from_offset_tolerant_def iter_tolerant_iff)

theorem metadata_pages_cover_scan_witness:
  "\<exists>next. iter_metadata_page_tolerant sum_crc (good_file (frames sum_crc [sample_record, sample_record])) 0 1
       = Inr ([metadata_of 0 sample_record], next, False) \<and>
     iter_from_offset_tolerant sum_crc (good_file (frames sum_crc [sample_record, sample_record])) next = Inr [sample_record]"
  using metadata_pages_cover_scan [OF _ _ _ scan_two_samples, of 1] by (simp add: U64_MAX_def)

text \<open>C8.  A history checkpoint is only taken at a record boundary: \<^verbatim>\<open>validated_prefix_digest\<close>
  returns a digest exactly when the first \<open>n\<close> bytes are readable and are whole records, and it
  is the digest of exactly these bytes.\<close>

theorem prefix_digest_exact:
  assumes "file_len f \<le> U64_MAX"
  shows "validated_prefix_digest crc sha f n = Inr d \<longleftrightarrow>
     (\<exists>rs. all_ok rs \<and> length (frames crc rs) = n \<and> prefix (frames crc rs) (readable f) \<and> d = sha (frames crc rs))"
   
proof -
  have iff: "n \<le> file_len f \<Longrightarrow> prefix_frames crc f n 0 = Inr () \<longleftrightarrow>
      (\<exists>rs. all_ok rs \<and> length (frames crc rs) = n \<and> prefix (frames crc rs) (readable f))"
    using prefix_frames_iff [of n 0 crc f] assms by simp
  have rd: "read_chunks f [] 0 n [] = Inr (bs, n)" if "length bs = n" "prefix bs (readable f)" for bs
    using read_full_Full [of f 0 n bs] that by (simp add: read_chunks_eq)
  have le: "n \<le> file_len f" if "length bs = n" "prefix bs (readable f)" for bs
    using prefix_length_le [OF that(2)] length_readable_le [of f] that(1) by linarith
  show ?thesis
  proof (cases "\<exists>rs. all_ok rs \<and> length (frames crc rs) = n \<and> prefix (frames crc rs) (readable f)")
    case True
    then obtain rs where rs: "all_ok rs" "length (frames crc rs) = n" "prefix (frames crc rs) (readable f)"
      by blast
    have "validated_prefix_digest crc sha f n = Inr (sha (frames crc rs))"
      using rs rd [OF rs(2,3)] le [OF rs(2,3)] iff True by (simp add: validated_prefix_digest_def)
    moreover have "frames crc rs' = frames crc rs"
      if "length (frames crc rs') = n" "prefix (frames crc rs') (readable f)" for rs'
      using that rs by (metis prefix_length_prefix prefix_order.antisym order_refl)
    ultimately show ?thesis using rs by (metis sum.inject(2))
  next
    case False
    then have "validated_prefix_digest crc sha f n \<noteq> Inr d"
      using iff by (auto simp: validated_prefix_digest_def bind_res_Inr)
    then show ?thesis using False by blast
  qed
qed

theorem prefix_digest_exact_witness:
  "validated_prefix_digest sum_crc id (good_file (frame_bytes sum_crc sample_record @ [1, 2, 3])) 29
     = Inr (frame_bytes sum_crc sample_record)"
  by (subst prefix_digest_exact) (auto simp: U64_MAX_def intro: exI [of _ "[sample_record]"])

end
