(* ===== verification/Log_Recovery.thy ===== *)
theory Log_Recovery
  imports Log_Scan
begin

text \<open>
  Crash recovery of the active log: \<^verbatim>\<open>recover_torn_tail\<close> and \<^verbatim>\<open>probe_torn_tail\<close>
  (\<^verbatim>\<open>src/sections/log_part_02.rs\<close>).  The environment of a recovery says what the
  operating system answers: whether the file could be opened and locked, whether the two
  opens name the same file, the length each \<^verbatim>\<open>metadata()\<close> call sees, and whether \<^verbatim>\<open>set_len\<close> and \<^verbatim>\<open>sync_data\<close> succeed.  A recovery
  returns its result together with the file it leaves behind.

  The lemmas show that the window-by-window probe with its checksum budget examines
  every position of the suffix, that recovery never discards a complete record, and
  that a failed recovery leaves the file as it was.
\<close>

section \<open>Definitions\<close>

definition TORN_TAIL_PROBE_WINDOW_BYTES :: nat where
  "TORN_TAIL_PROBE_WINDOW_BYTES = 1024 * 1024"
definition MAX_TORN_TAIL_CRC_BYTES_PER_WINDOW :: nat where
  "MAX_TORN_TAIL_CRC_BYTES_PER_WINDOW = 32 * 1024 * 1024"

datatype torn_tail_probe = NoLaterRecord | LaterRecord | BudgetExceeded

text \<open>The body length a candidate header announces, if it is one a record can have.\<close>

definition candidate_body_len :: "bytes \<Rightarrow> nat option" where
  "candidate_body_len header =
     (let key_size = unat (of_le16 (seg 20 22 header));
          value_size_raw = of_le32 (seg 22 26 header) in
      if value_size_raw = TOMBSTONE then checked_add64 key_size 0
      else let value_size = unat value_size_raw in
           if value_size > MAX_VALUE_SIZE then None else checked_add64 key_size value_size)"

text \<open>The candidates of one window, from \<open>candidate\<close> to \<open>candidate_end\<close>; \<open>None\<close> when the
  window holds no record.\<close>

function probe_candidates ::
  "crc_fn \<Rightarrow> os_file \<Rightarrow> bytes \<Rightarrow> nat \<Rightarrow> nat \<Rightarrow> nat \<Rightarrow> nat \<Rightarrow> nat \<Rightarrow> log_error + torn_tail_probe option" where
  "probe_candidates crc f window read_start flen candidate candidate_end crc_work =
     (if candidate < candidate_end then
        let header_offset = candidate - read_start;
            header_end = header_offset + HEADER_SIZE;
            header = seg header_offset header_end window;
            skip = (\<lambda>work. probe_candidates crc f window read_start flen (candidate + 1) candidate_end work)
        in case Option.bind (candidate_body_len header) (\<lambda>body_len.
                  Option.bind (checked_add64 HEADER_SIZE body_len) (\<lambda>rec_len.
                  map_option (\<lambda>record_end. (body_len, rec_len, record_end))
                    (checked_add64 candidate rec_len))) of
             None \<Rightarrow> skip crc_work
           | Some (body_len, rec_len, record_end) \<Rightarrow>
               if record_end > flen then skip crc_work
               else
                 let crc_len = rec_len - 4 in
                 if crc_len > MAX_TORN_TAIL_CRC_BYTES_PER_WINDOW
                    \<or> crc_work > MAX_TORN_TAIL_CRC_BYTES_PER_WINDOW - crc_len
                 then Inr (Some BudgetExceeded)
                 else
                   let stored_crc = of_le32 (seg 0 4 header); body_end = header_end + body_len in
                   bind_res (if body_end \<le> length window
                             then Inr (drop 4 header @ seg header_end body_end window)
                             else bind_res (ok_or (checked_add64 candidate HEADER_SIZE)
                                             (LengthOverflow ''torn tail body offset overflow''))
                                    (\<lambda>off. bind_res (hash_exact f off body_len (drop 4 header) ''torn tail candidate'')
                                       (\<lambda>(hashed, _). Inr hashed)))
                     (\<lambda>hashed. if crc hashed = stored_crc then Inr (Some LaterRecord)
                               else skip (crc_work + crc_len))
      else Inr None)"
  by pat_completeness auto
termination
  by (relation "measure (\<lambda>(crc, f, window, read_start, flen, candidate, candidate_end, crc_work).
        candidate_end - candidate)") auto

function probe_windows ::
  "crc_fn \<Rightarrow> os_file \<Rightarrow> nat \<Rightarrow> nat \<Rightarrow> nat \<Rightarrow> log_error + torn_tail_probe" where
  "probe_windows crc f window_len flen chunk_start =
     (let max_candidate_start = flen - HEADER_SIZE in
      if chunk_start \<le> max_candidate_start then
        let read_end = min (case checked_add64 chunk_start window_len of None \<Rightarrow> flen | Some e \<Rightarrow> e) flen;
            next_chunk_start = (case checked_add64 chunk_start TORN_TAIL_PROBE_WINDOW_BYTES of
                                  None \<Rightarrow> max_candidate_start + 1 | Some n \<Rightarrow> n);
            candidate_end = min next_chunk_start (max_candidate_start + 1) in
        case read_full f chunk_start (read_end - chunk_start) of
          Full window \<Rightarrow>
            bind_res (probe_candidates crc f window chunk_start flen chunk_start candidate_end 0)
              (\<lambda>found. case found of
                 Some probe \<Rightarrow> Inr probe
               | None \<Rightarrow> if candidate_end > max_candidate_start then Inr NoLaterRecord
                         else probe_windows crc f window_len flen next_chunk_start)
        | _ \<Rightarrow> Inl IoError
      else Inr NoLaterRecord)"
  by pat_completeness auto
termination
  by (relation "measure (\<lambda>(crc, f, window_len, flen, chunk_start). Suc flen - chunk_start)")
    (auto simp: checked_add64_def TORN_TAIL_PROBE_WINDOW_BYTES_def split: if_splits)

definition probe_torn_tail :: "crc_fn \<Rightarrow> os_file \<Rightarrow> nat \<Rightarrow> nat \<Rightarrow> log_error + torn_tail_probe" where
  "probe_torn_tail crc f suffix_start flen =
     (if flen < suffix_start then Inl (LengthOverflow ''torn tail starts past end of file'')
      else let suffix_len = flen - suffix_start in
           if suffix_len < HEADER_SIZE then Inr NoLaterRecord
           else probe_windows crc f (min (TORN_TAIL_PROBE_WINDOW_BYTES + (HEADER_SIZE - 1)) suffix_len)
                  flen suffix_start)"

function scan_valid_end :: "crc_fn \<Rightarrow> os_file \<Rightarrow> nat \<Rightarrow> nat \<Rightarrow> log_error + (nat \<times> bool)" where
  "scan_valid_end crc f p valid_end =
     (case read_next_record_metadata crc f p valid_end of
        Inr (Some (m, q)) \<Rightarrow>
          bind_res (ok_or (checked_add64 valid_end (m_record_size m)) (LengthOverflow ''record offset overflow''))
            (\<lambda>valid_end'. scan_valid_end crc f q valid_end')
      | Inr None \<Rightarrow> Inr (valid_end, False)
      | Inl e \<Rightarrow> if is_truncated_record e then Inr (valid_end, True) else Inl e)"
  by pat_completeness auto
termination
  by (relation "measure (\<lambda>(crc, f, p, valid_end). length (readable f) - p)")
    (auto dest!: read_next_record_metadata_progress read_next_record_progress)

record recovery_env =
  open_ok :: bool
  stat_ok :: bool
  final_stat_ok :: bool
  same_identity :: bool
  len_locked :: nat
  len_scanned :: nat
  len_final :: nat
  set_len_ok :: bool
  sync_ok :: bool

definition recover_torn_tail ::
  "crc_fn \<Rightarrow> recovery_env \<Rightarrow> os_file \<Rightarrow> (log_error + nat) \<times> os_file" where
  "recover_torn_tail crc env f =
     (if \<not> open_ok env then (Inl IoError, f)
      else if \<not> same_identity env then (Inl LogPathChanged, f)
      else case scan_valid_end crc f 0 0 of
        Inl e \<Rightarrow> (Inl e, f)
      | Inr (valid_end, saw_truncated_tail) \<Rightarrow>
          let flen = len_locked env; current = len_scanned env in
          if \<not> stat_ok env then (Inl IoError, f)
          else if current \<noteq> flen then (Inl (LogChanged flen current), f)
          else if valid_end > current then (Inl (LogGrew valid_end current), f)
          else
            (case (if saw_truncated_tail \<and> current - valid_end \<ge> HEADER_SIZE
                   then bind_res (probe_torn_tail crc f valid_end current) (\<lambda>p. case p of
                          NoLaterRecord \<Rightarrow> Inr ()
                        | LaterRecord \<Rightarrow> Inl (AmbiguousTail valid_end current ''later record candidate'')
                        | BudgetExceeded \<Rightarrow> Inl (AmbiguousTail valid_end current ''probe budget exceeded''))
                   else Inr ()) of
               Inl e \<Rightarrow> (Inl e, f)
             | Inr _ \<Rightarrow>
                 if valid_end < current then
                   if \<not> final_stat_ok env then (Inl IoError, f)
                   else if len_final env \<noteq> current then (Inl (LogChanged current (len_final env)), f)
                   else if \<not> set_len_ok env then (Inl IoError, f)
                   else (if sync_ok env then Inr valid_end else Inl IoError,
                         f\<lparr>fbytes := take valid_end (fbytes f)\<rparr>)
                 else (Inr valid_end, f)))"

text \<open>An undisturbed recovery: nothing else touches the file and the device accepts the
  truncation.\<close>

definition calm_env :: "os_file \<Rightarrow> recovery_env" where
  "calm_env f = \<lparr>open_ok = True, stat_ok = True, final_stat_ok = True, same_identity = True, len_locked = file_len f, len_scanned = file_len f,
     len_final = file_len f, set_len_ok = True, sync_ok = True\<rparr>"

text \<open>A complete record with a valid checksum starts at position \<open>p\<close>.\<close>

definition record_at :: "crc_fn \<Rightarrow> bytes \<Rightarrow> nat \<Rightarrow> bool" where
  "record_at crc bs p \<longleftrightarrow> (\<exists>r. record_ok r \<and> prefix (frame_bytes crc r) (drop p bs))"

section \<open>The probe examines every position\<close>

declare probe_candidates.simps [simp del] probe_windows.simps [simp del] scan_valid_end.simps [simp del]

lemma record_at_read:
  "record_at crc bs p \<longleftrightarrow> (\<exists>r q. read_next_record crc (good_file bs) p = Inr (Some (r, q)))"
  by (auto simp: record_at_def read_next_record_Some)

lemma candidate_body_len_eq:
  "candidate_body_len header =
     (let h = parse_header header in
      case decoded_value_size (h_value_size_raw h) (h_value_size_raw h = TOMBSTONE) of
        Inl _ \<Rightarrow> None | Inr vs \<Rightarrow> Some (h_key_size h + vs))"
  using unat_u16_bound [of "of_le16 (seg 20 22 header)"]
  by (simp add: candidate_body_len_def parse_header_def decoded_value_size_def checked_add64_def
      U64_MAX_def Let_def)

lemma candidate_body_len_bound: "candidate_body_len header = Some n \<Longrightarrow> n \<le> 65535 + 536870912"
  using unat_u16_bound [of "of_le16 (seg 20 22 header)"]
  by (auto simp: candidate_body_len_def checked_add64_def Let_def split: if_splits)

lemma record_at_iff:
  assumes "p + 26 \<le> length bs"
  shows "record_at crc bs p \<longleftrightarrow>
     (case candidate_body_len (seg p (p + 26) bs) of
        None \<Rightarrow> False
      | Some n \<Rightarrow> p + 26 + n \<le> length bs \<and>
          crc (drop 4 (seg p (p + 26) bs) @ seg (p + 26) (p + 26 + n) bs) = of_le32 (seg 0 4 (seg p (p + 26) bs)))"
proof -
  let ?f = "good_file bs"
  let ?hd = "seg p (p + 26) bs"
  define h where "h = parse_header ?hd"
  have rf: "read_full ?f q n = (if n \<le> length bs - q then Full (seg q (q + n) bs) else Eof (drop q bs))" for q n
    by (simp add: read_full_cases seg_def)
  have hd: "read_record_header ?f p = Inr (Some ?hd)"
    using assms by (simp add: read_record_header_def rf)
  have crc: "h_crc h = of_le32 (seg 0 4 ?hd)" by (simp add: h_def parse_header_def)
  have join: "seg a (a + b) bs @ seg (a + b) (a + b + c) bs = seg a (a + b + c) bs" for a b c
    by (rule seg_join) simp_all
  show ?thesis
  proof (cases "decoded_value_size (h_value_size_raw h) (h_value_size_raw h = TOMBSTONE)")
    case (Inl e)
    then show ?thesis
      by (simp add: record_at_read read_next_record_def hd h_def [symmetric] Let_def candidate_body_len_eq)
  next
    case (Inr vs)
    have tomb: "h_value_size_raw h = TOMBSTONE \<Longrightarrow> vs = 0"
      using Inr by simp
    let ?k = "h_key_size h"
    have cb: "candidate_body_len ?hd = Some (?k + vs)"
      using Inr by (simp add: candidate_body_len_eq h_def [symmetric] Let_def)
    show ?thesis
      using Inr tomb join [of "p + 26" ?k vs] assms
      by (cases "h_value_size_raw h = TOMBSTONE")
        (auto simp: record_at_read read_next_record_def hd h_def [symmetric] crc [symmetric] Let_def cb
          read_exact_vec_eq rf add.assoc seg_def [of _ _ "[]"])
  qed
qed

lemma probe_candidates_step:
  assumes "\<not> faulty f" "length (fbytes f) = flen" "flen \<le> U64_MAX"
    and w: "window = seg rs re (fbytes f)" "rs \<le> c" "ce + 25 \<le> re" "re \<le> flen" and c: "c < ce"
  shows "probe_candidates crc f window rs flen c ce work =
     (case candidate_body_len (seg c (c + 26) (fbytes f)) of
        None \<Rightarrow> probe_candidates crc f window rs flen (c + 1) ce work
      | Some n \<Rightarrow>
          if c + 26 + n > flen then probe_candidates crc f window rs flen (c + 1) ce work
          else if 22 + n > MAX_TORN_TAIL_CRC_BYTES_PER_WINDOW
                  \<or> work > MAX_TORN_TAIL_CRC_BYTES_PER_WINDOW - (22 + n) then Inr (Some BudgetExceeded)
          else if record_at crc (fbytes f) c then Inr (Some LaterRecord)
          else probe_candidates crc f window rs flen (c + 1) ce (work + (22 + n)))"
proof -
  let ?B = "fbytes f"
  have hb: "c + 26 \<le> re" "c + 26 \<le> length ?B" using assms by auto
  have hdr: "seg (c - rs) (c - rs + 26) window = seg c (c + 26) ?B"
    using w hb by (simp add: seg_seg)
  show ?thesis
  proof (cases "candidate_body_len (seg c (c + 26) ?B)")
    case None
    then show ?thesis
      using c by (subst probe_candidates.simps) (simp add: Let_def hdr)
  next
    case (Some n)
    note nb = candidate_body_len_bound [OF Some]
    then have add26: "checked_add64 26 n = Some (26 + n)"
      by (simp add: checked_add64_def U64_MAX_def)
    show ?thesis
    proof (cases "c + (26 + n) \<le> flen")
      case False
      have "checked_add64 c (26 + n) = None \<or> checked_add64 c (26 + n) = Some (c + (26 + n))"
        by (simp add: checked_add64_def)
      then show ?thesis
        using c False by (subst probe_candidates.simps) (auto simp: Let_def hdr Some add26 add.assoc)
    next
      case True
      then have addc: "checked_add64 c (26 + n) = Some (c + (26 + n))" "checked_add64 c 26 = Some (c + 26)"
        using assms(3) by (simp_all add: checked_add64_def)
      have win: "c - rs + 26 + n \<le> length window \<Longrightarrow>
          seg (c - rs + 26) (c - rs + 26 + n) window = seg (c + 26) (c + 26 + n) ?B"
        using w hb by (subst w(1), subst seg_seg) (auto simp: add.assoc)
      have rd: "hash_exact f (c + 26) n x l = Inr (x @ seg (c + 26) (c + 26 + n) ?B, c + 26 + n)" for x l
        using True assms(1,2)
        by (simp add: hash_exact_eq read_exact_vec_eq read_full_enough readable_not_faulty)
      have rec: "record_at crc ?B c \<longleftrightarrow>
          crc (drop 4 (seg c (c + 26) ?B) @ seg (c + 26) (c + 26 + n) ?B) = of_le32 (seg 0 4 (seg c (c + 26) ?B))"
        using True assms(2) by (simp add: record_at_iff [OF hb(2)] Some add.assoc)
      show ?thesis
        using c True
        by (subst probe_candidates.simps)
          (simp add: Let_def hdr Some add26 addc add.assoc [symmetric] win rd rec)
    qed
  qed
qed

lemma probe_candidates_spec:
  assumes "\<not> faulty f" "length (fbytes f) = flen" "flen \<le> U64_MAX"
    and "window = seg rs re (fbytes f)" "rs \<le> c" "ce + 25 \<le> re" "re \<le> flen"
  shows "(case probe_candidates crc f window rs flen c ce work of
            Inl _ \<Rightarrow> False
          | Inr None \<Rightarrow> (\<forall>p. c \<le> p \<and> p < ce \<longrightarrow> \<not> record_at crc (fbytes f) p)
          | Inr (Some LaterRecord) \<Rightarrow> (\<exists>p. c \<le> p \<and> p < ce \<and> record_at crc (fbytes f) p)
          | Inr (Some NoLaterRecord) \<Rightarrow> False
          | Inr (Some BudgetExceeded) \<Rightarrow> True)"
  using assms(5)
proof (induction "ce - c" arbitrary: c work)
  case 0
  then show ?case by (subst probe_candidates.simps) auto
next
  case (Suc k)
  then have c: "c < ce" "k = ce - (c + 1)" by auto
  have IH: "case probe_candidates crc f window rs flen (c + 1) ce work' of
            Inl _ \<Rightarrow> False
          | Inr None \<Rightarrow> (\<forall>p. c + 1 \<le> p \<and> p < ce \<longrightarrow> \<not> record_at crc (fbytes f) p)
          | Inr (Some LaterRecord) \<Rightarrow> (\<exists>p. c + 1 \<le> p \<and> p < ce \<and> record_at crc (fbytes f) p)
          | Inr (Some NoLaterRecord) \<Rightarrow> False
          | Inr (Some BudgetExceeded) \<Rightarrow> True" for work'
    using Suc.hyps(1) [OF c(2)] Suc.prems by simp
  note step = probe_candidates_step [OF assms(1-4) Suc.prems assms(6,7) c(1), of crc work]
  have ext: "(\<forall>p. c + 1 \<le> p \<and> p < ce \<longrightarrow> \<not> record_at crc (fbytes f) p) \<Longrightarrow> \<not> record_at crc (fbytes f) c \<Longrightarrow>
      (\<forall>p. c \<le> p \<and> p < ce \<longrightarrow> \<not> record_at crc (fbytes f) p)"
    by (metis Suc_eq_plus1 le_eq_less_or_eq Suc_leI)
  have keep: "case probe_candidates crc f window rs flen (c + 1) ce work' of
            Inl _ \<Rightarrow> False
          | Inr None \<Rightarrow> (\<forall>p. c \<le> p \<and> p < ce \<longrightarrow> \<not> record_at crc (fbytes f) p)
          | Inr (Some LaterRecord) \<Rightarrow> (\<exists>p. c \<le> p \<and> p < ce \<and> record_at crc (fbytes f) p)
          | Inr (Some NoLaterRecord) \<Rightarrow> False
          | Inr (Some BudgetExceeded) \<Rightarrow> True" if "\<not> record_at crc (fbytes f) c" for work'
    using IH [of work'] ext that
    by (auto split: sum.splits option.splits torn_tail_probe.splits intro: Suc_leD)
  have "c + 26 \<le> length (fbytes f)" using assms c by linarith
  note rec = record_at_iff [OF this, of crc]
  show ?case
  proof (cases "record_at crc (fbytes f) c")
    case True
    then obtain n where "candidate_body_len (seg c (c + 26) (fbytes f)) = Some n" "c + 26 + n \<le> flen"
      using rec assms(2) by (auto split: option.splits)
    then show ?thesis using step True c by auto
  next
    case False
    then show ?thesis using keep unfolding step by (simp split: option.split)
  qed
qed

lemma probe_windows_spec:
  assumes f: "\<not> faulty f" "length (fbytes f) = flen" "flen \<le> U64_MAX" "26 \<le> flen"
    and wl: "window_len = min (TORN_TAIL_PROBE_WINDOW_BYTES + 25) suffix_len" "flen - c \<le> suffix_len"
  shows "(case probe_windows crc f window_len flen c of
            Inl _ \<Rightarrow> False
          | Inr NoLaterRecord \<Rightarrow> (\<forall>p. c \<le> p \<and> p \<le> flen - 26 \<longrightarrow> \<not> record_at crc (fbytes f) p)
          | Inr LaterRecord \<Rightarrow> (\<exists>p. c \<le> p \<and> p \<le> flen - 26 \<and> record_at crc (fbytes f) p)
          | Inr BudgetExceeded \<Rightarrow> True)"
  using wl(2)
proof (induction "Suc flen - c" arbitrary: c rule: less_induct)
  case less
  let ?M = "flen - 26" and ?W = TORN_TAIL_PROBE_WINDOW_BYTES
  show ?case
  proof (cases "c \<le> ?M")
    case False
    then show ?thesis by (subst probe_windows.simps) (auto simp: Let_def)
  next
    case True
    define re where "re = min (case checked_add64 c window_len of None \<Rightarrow> flen | Some e \<Rightarrow> e) flen"
    define nx where "nx = (case checked_add64 c ?W of None \<Rightarrow> ?M + 1 | Some n \<Rightarrow> n)"
    define ce where "ce = min nx (?M + 1)"
    have W: "?W = 1048576" by (simp add: TORN_TAIL_PROBE_WINDOW_BYTES_def)
    have re: "re = min (c + window_len) flen"
      using f(3) by (auto simp: re_def checked_add64_def)
    have ce: "ce = min (c + ?W) (?M + 1)"
      using f(3,4) by (auto simp: ce_def nx_def checked_add64_def)
    have fits: "ce + 25 \<le> re" "re \<le> flen" "c \<le> re"
      using True less.prems f(4) wl(1) unfolding ce re by auto
    have rd: "read_full f c (re - c) = Full (seg c re (fbytes f))"
      using fits f(1,2) by (auto simp: read_full_cases seg_def)
    note pc = probe_candidates_spec [OF f(1-3) refl order_refl [of c] fits(1,2), where crc = crc and work = 0]
    have eq: "probe_windows crc f window_len flen c =
        bind_res (probe_candidates crc f (seg c re (fbytes f)) c flen c ce 0)
          (\<lambda>found. case found of Some probe \<Rightarrow> Inr probe
             | None \<Rightarrow> if ce > ?M then Inr NoLaterRecord else probe_windows crc f window_len flen nx)"
      using True by (subst probe_windows.simps) (simp add: Let_def re_def nx_def ce_def rd [unfolded re_def])
    have nx: "ce \<le> ?M \<Longrightarrow> nx = ce" "ce \<le> ?M \<Longrightarrow> c < nx"
      using W by (auto simp: ce_def ce nx_def checked_add64_def split: if_splits)
    have IH: "ce \<le> ?M \<Longrightarrow> case probe_windows crc f window_len flen nx of
            Inl _ \<Rightarrow> False
          | Inr NoLaterRecord \<Rightarrow> (\<forall>p. nx \<le> p \<and> p \<le> ?M \<longrightarrow> \<not> record_at crc (fbytes f) p)
          | Inr LaterRecord \<Rightarrow> (\<exists>p. nx \<le> p \<and> p \<le> ?M \<and> record_at crc (fbytes f) p)
          | Inr BudgetExceeded \<Rightarrow> True"
      using less.hyps [of nx] nx less.prems True by simp
    show ?thesis
    proof (cases "probe_candidates crc f (seg c re (fbytes f)) c flen c ce 0")
      case (Inl e)
      then show ?thesis using pc by simp
    next
      case (Inr found)
      show ?thesis
      proof (cases found)
        case (Some probe)
        have "p < ce \<Longrightarrow> p \<le> ?M" for p by (simp add: ce)
        then show ?thesis using pc Inr Some eq by (auto split: torn_tail_probe.splits)
      next
        case None
        then have none: "\<forall>p. c \<le> p \<and> p < ce \<longrightarrow> \<not> record_at crc (fbytes f) p" using pc Inr by simp
        show ?thesis
        proof (cases "ce > ?M")
          case True
          then show ?thesis using none Inr None eq by auto
        next
          case False
          then have le: "ce \<le> ?M" by simp
          show ?thesis
            using IH [OF le] nx [OF le] none Inr None eq le
            by (auto split: sum.splits torn_tail_probe.splits)
              (metis leI less_imp_le order_trans)+
        qed
      qed
    qed
  qed
qed

lemma record_at_length: "record_at crc bs p \<Longrightarrow> p + 26 \<le> length bs"
  using read_next_record_progress [of crc "good_file bs" p] by (auto simp: record_at_read)

lemma probe_torn_tail_spec:
  assumes "\<not> faulty f" "length (fbytes f) = flen" "flen \<le> U64_MAX" "start \<le> flen"
  shows "(case probe_torn_tail crc f start flen of
            Inl _ \<Rightarrow> False
          | Inr NoLaterRecord \<Rightarrow> (\<forall>p\<ge>start. \<not> record_at crc (fbytes f) p)
          | Inr LaterRecord \<Rightarrow> (\<exists>p\<ge>start. record_at crc (fbytes f) p)
          | Inr BudgetExceeded \<Rightarrow> True)"
proof (cases "flen - start < 26")
  case True
  then have "\<not> record_at crc (fbytes f) p" if "start \<le> p" for p
    using record_at_length [of crc "fbytes f" p] that assms(2) by linarith
  with True assms(4) show ?thesis by (simp add: probe_torn_tail_def)
next
  case False
  then have "26 \<le> flen" by linarith
  have inside: "record_at crc (fbytes f) p \<Longrightarrow> p \<le> flen - 26" for p
    using record_at_length [of crc "fbytes f" p] assms(2) by linarith
  have eq: "probe_torn_tail crc f start flen =
      probe_windows crc f (min (TORN_TAIL_PROBE_WINDOW_BYTES + 25) (flen - start)) flen start"
    using False assms(4) by (simp add: probe_torn_tail_def Let_def)
  show ?thesis
    using probe_windows_spec [OF assms(1-3) \<open>26 \<le> flen\<close> refl order_refl, of start crc] inside
    unfolding eq by (auto split: sum.splits torn_tail_probe.splits)
qed

section \<open>What recovery keeps\<close>

lemma scan_valid_end_eq:
  assumes "\<not> faulty f" "file_len f \<le> U64_MAX"
    and "drop p (fbytes f) = frames crc rs @ tail" "all_ok rs" "tail = [] \<or> torn tail"
  shows "scan_valid_end crc f p p = Inr (p + length (frames crc rs), tail \<noteq> [])"
  using assms(3,4)
proof (induction rs arbitrary: p)
  case Nil
  then have rest: "drop p (fbytes f) = tail" by simp
  have none: "read_next_record crc f p = Inr None \<longleftrightarrow> tail = []"
    using assms(1) rest by (simp only: read_next_None readable_not_faulty simp_thms)
  show ?case
  proof (cases "tail = []")
    case True
    then show ?thesis using none by (simp add: scan_valid_end.simps [of crc f p] read_next_record_metadata_eq)
  next
    case False
    then obtain label where "read_next_record crc f p = Inl (TruncatedRecord label)"
      using assms(5) read_next_truncated [OF assms(1), of crc p] rest by auto
    then show ?thesis
      using False by (simp add: scan_valid_end.simps [of crc f p] read_next_record_metadata_eq)
  qed
next
  case (Cons r rs)
  let ?q = "p + length (frame_bytes crc r)"
  have rd: "read_next_record crc f p = Inr (Some (r, ?q))"
    and rest: "drop ?q (fbytes f) = frames crc rs @ tail"
    using frames_uncons [of p f crc r rs tail] Cons.prems readable_not_faulty [OF assms(1)] by auto
  have "?q \<le> U64_MAX"
    using read_next_record_progress [OF rd] length_readable_le [of f] assms(2) by linarith
  then show ?case
    using rd Cons.IH [OF rest] Cons.prems(2)
    by (simp add: scan_valid_end.simps [of crc f p] read_next_record_metadata_eq
        metadata_size [of _ _ crc] checked_add64_def)
qed

lemma scan_valid_end_Inr:
  assumes "scan_valid_end crc f p p = Inr (v, saw)" "p \<le> length (readable f)"
  shows "\<not> faulty f \<and> (\<exists>rs tail. all_ok rs \<and> drop p (fbytes f) = frames crc rs @ tail
           \<and> v = p + length (frames crc rs) \<and> saw = (tail \<noteq> []) \<and> (tail = [] \<or> torn tail))"
  using assms
proof (induction "length (readable f) - p" arbitrary: p rule: less_induct)
  case less
  consider (err) e where "read_next_record crc f p = Inl e"
    | (none) "read_next_record crc f p = Inr None"
    | (some) r q where "read_next_record crc f p = Inr (Some (r, q))"
    by (metis obj_sumE option.exhaust surj_pair)
  then show ?case
  proof cases
    case err
    then obtain label where e: "e = TruncatedRecord label" "v = p" "saw"
      using less.prems(1)
      by (auto simp: scan_valid_end.simps [of crc f p] read_next_record_metadata_eq is_truncated_iff split: if_splits)
    have nf: "\<not> faulty f" using err e(1) read_truncated_not_faulty by blast
    have "torn (drop p (fbytes f))" using err e(1) read_next_truncated [OF nf] by blast
    then show ?thesis
      using nf e by (intro conjI exI [of _ "[]"] exI [of _ "drop p (fbytes f)"]) (auto simp: torn_def)
  next
    case none
    have "v = p" "\<not> saw"
      using less.prems(1) none by (simp_all add: scan_valid_end.simps [of crc f p] read_next_record_metadata_eq)
    moreover have "drop p (readable f) = []" "\<not> (faulty f \<and> p < file_len f)"
      using none by (simp_all add: read_next_None)
    moreover from this have "\<not> faulty f"
      using less.prems(2) readable_short_iff [of f] by auto
    ultimately show ?thesis
      by (intro conjI exI [of _ "[]"] exI [of _ "[]"]) (auto simp: readable_not_faulty)
  next
    case (some r q)
    note cons = read_next_cons [OF some]
    note prog = read_next_record_progress [OF some]
    have q: "q = p + length (frame_bytes crc r)" using some by (simp add: read_next_record_Some)
    have "scan_valid_end crc f q q = Inr (v, saw)"
      using less.prems(1) some q
      by (simp add: scan_valid_end.simps [of crc f p] read_next_record_metadata_eq
          metadata_size [of _ _ crc] bind_res_Inr ok_or_Inr checked_add64_Some)
    moreover have "length (readable f) - q < length (readable f) - p" "q \<le> length (readable f)"
      using prog by linarith+
    ultimately obtain rs tail where *: "\<not> faulty f" "all_ok rs" "drop q (fbytes f) = frames crc rs @ tail"
      "v = q + length (frames crc rs)" "saw = (tail \<noteq> [])" "tail = [] \<or> torn tail"
      using less.hyps by blast
    then have "all_ok (r # rs)" "drop p (fbytes f) = frames crc (r # rs) @ tail"
      "v = p + length (frames crc (r # rs))"
      using cons(1,2) q by (simp_all add: readable_not_faulty)
    then show ?thesis using * by blast
  qed
qed

lemma probe_candidates_budget:
  assumes f: "\<not> faulty f" "length (fbytes f) = flen" "flen \<le> U64_MAX"
    and w: "window = seg rs re (fbytes f)" "rs \<le> c" "ce + 25 \<le> re" "re \<le> flen"
    and work: "work + (ce - c) * (flen - rs) \<le> MAX_TORN_TAIL_CRC_BYTES_PER_WINDOW"
  shows "probe_candidates crc f window rs flen c ce work \<noteq> Inr (Some BudgetExceeded)"
  using w(2) work
proof (induction "ce - c" arbitrary: c work)
  case 0
  then show ?case by (subst probe_candidates.simps) auto
next
  case (Suc k)
  then have c: "c < ce" "k = ce - (c + 1)" by auto
  have work: "work + (flen - rs) + (ce - (c + 1)) * (flen - rs) \<le> MAX_TORN_TAIL_CRC_BYTES_PER_WINDOW"
    using Suc.prems(2) c(1) by (simp add: Suc_diff_Suc [symmetric])
  have IH: "work' \<le> work + (flen - rs) \<Longrightarrow>
      probe_candidates crc f window rs flen (c + 1) ce work' \<noteq> Inr (Some BudgetExceeded)" for work'
    using Suc.hyps(1) [OF c(2), of work'] Suc.prems(1) work by simp
  show ?case
  proof (cases "candidate_body_len (seg c (c + 26) (fbytes f))")
    case None
    then show ?thesis
      using probe_candidates_step [OF f w(1) Suc.prems(1) w(3,4) c(1), of crc work] IH by simp
  next
    case (Some n)
    show ?thesis
    proof (cases "c + 26 + n \<le> flen")
      case False
      then show ?thesis
        using probe_candidates_step [OF f w(1) Suc.prems(1) w(3,4) c(1), of crc work] IH Some by simp
    next
      case True
      then have "22 + n \<le> flen - rs" using Suc.prems(1) by linarith
      moreover from this have "work + (22 + n) \<le> MAX_TORN_TAIL_CRC_BYTES_PER_WINDOW"
        using work by linarith
      ultimately show ?thesis
        using probe_candidates_step [OF f w(1) Suc.prems(1) w(3,4) c(1), of crc work]
          IH [of "work + (22 + n)"] Some True by simp
    qed
  qed
qed

text \<open>A tail of at most 5792 bytes fits one window, and checking every candidate in it stays
  within the budget (5792 squared is below 32 MiB).\<close>

lemma probe_small_tail:
  assumes f: "\<not> faulty f" "length (fbytes f) = flen" "flen \<le> U64_MAX" "start \<le> flen"
    and small: "flen - start \<le> 5792"
  shows "probe_torn_tail crc f start flen \<noteq> Inr BudgetExceeded"
proof (cases "flen - start < 26")
  case False
  let ?re = flen and ?ce = "flen - 26 + 1"
  have le: "start \<le> flen - 26" using False by linarith
  have W: "TORN_TAIL_PROBE_WINDOW_BYTES = 1048576" by (simp add: TORN_TAIL_PROBE_WINDOW_BYTES_def)
  have wl: "min (TORN_TAIL_PROBE_WINDOW_BYTES + 25) (flen - start) = flen - start"
    using small W by simp
  have re: "min (case checked_add64 start (flen - start) of None \<Rightarrow> flen | Some e \<Rightarrow> e) flen = flen"
    using f(3,4) by (auto simp: checked_add64_def)
  have ce: "min (case checked_add64 start TORN_TAIL_PROBE_WINDOW_BYTES of
        None \<Rightarrow> flen - 26 + 1 | Some n \<Rightarrow> n) (flen - 26 + 1) = ?ce"
    using False small W by (auto simp: checked_add64_def)
  have rd: "read_full f start (flen - start) = Full (seg start flen (fbytes f))"
    using f by (simp add: read_full_cases seg_def)
  have "(?ce - start) * (flen - start) \<le> 5792 * 5792"
    using small False by (intro mult_le_mono) auto
  then have "0 + (?ce - start) * (flen - start) \<le> MAX_TORN_TAIL_CRC_BYTES_PER_WINDOW"
    by (simp add: MAX_TORN_TAIL_CRC_BYTES_PER_WINDOW_def)
  note pc = probe_candidates_budget [OF f(1-3) refl order_refl _ order_refl this, of crc]
  have eq: "probe_windows crc f (flen - start) flen start =
      bind_res (probe_candidates crc f (seg start flen (fbytes f)) start flen start ?ce 0)
        (\<lambda>found. case found of Some probe \<Rightarrow> Inr probe | None \<Rightarrow> Inr NoLaterRecord)"
    using le re ce rd by (subst probe_windows.simps) (simp add: Let_def cong: option.case_cong)
  show ?thesis
    using pc False f(4) wl
    by (auto simp: probe_torn_tail_def Let_def eq bind_res_Inr split: option.splits)
qed (simp add: probe_torn_tail_def)

lemma recover_torn_tail_calm:
  assumes f: "\<not> faulty f" "file_len f \<le> U64_MAX" "fbytes f = frames crc rs @ tail" "all_ok rs"
    and tail: "tail = [] \<or> torn tail"
  defines "n \<equiv> length (frames crc rs)"
  shows "recover_torn_tail crc (calm_env f) f = (Inr n, f\<lparr>fbytes := frames crc rs\<rparr>) \<or>
     26 \<le> length tail \<and> ((\<exists>p\<ge>n. record_at crc (fbytes f) p) \<or> 5792 < length tail) \<and>
     (\<exists>why. recover_torn_tail crc (calm_env f) f = (Inl (AmbiguousTail n (file_len f) why), f))"
proof -
  have sc: "scan_valid_end crc f 0 0 = Inr (n, tail \<noteq> [])"
    using scan_valid_end_eq [OF f(1,2), of 0 crc rs tail] assms by simp
  have le: "n \<le> file_len f" and tl: "file_len f - n = length tail"
    using f(3) by (simp_all add: file_len_def n_def)
  note probe = probe_torn_tail_spec [OF f(1) file_len_def [symmetric] f(2) le, of crc]
    probe_small_tail [OF f(1) file_len_def [symmetric] f(2) le, of crc, unfolded tl]
  show ?thesis
  proof (cases "length tail < 26")
    case True
    then show ?thesis
      using f(3) by (cases "tail = []") (auto simp: recover_torn_tail_def calm_env_def sc Let_def file_len_def n_def)
  next
    case False
    then have ne: "tail \<noteq> []" by auto
    then show ?thesis
      using False probe le tl f(3)
      by (cases "probe_torn_tail crc f n (file_len f)")
        (auto simp: recover_torn_tail_def calm_env_def sc Let_def n_def split: torn_tail_probe.splits)
  qed
qed

section \<open>Properties\<close>

text \<open>C1.  Recovery is safe.  Whatever the operating system answers, \<^verbatim>\<open>recover_torn_tail\<close>
  either fails and leaves the log as it was, or leaves a prefix of it that is a sequence of
  complete, checksummed records; nothing it discards contains a complete record at any byte
  position, and the offset it returns is the length of what is left.\<close>

theorem recovery_keeps_records:
  assumes rec: "recover_torn_tail crc env f = (res, f')"
    and len: "len_scanned env = file_len f" "file_len f \<le> U64_MAX"
  shows "f' = f \<and> \<not> is_ok res \<or>
     (\<exists>rs. all_ok rs \<and> \<not> faulty f \<and> fbytes f' = frames crc rs \<and> prefix (fbytes f') (fbytes f)
        \<and> (\<forall>p \<ge> file_len f'. \<not> record_at crc (fbytes f) p)
        \<and> (\<forall>v. res = Inr v \<longrightarrow> v = file_len f'))"
proof (cases "f' = f \<and> \<not> is_ok res")
  case False
  then obtain v saw where sc: "scan_valid_end crc f 0 0 = Inr (v, saw)"
    using rec by (cases "scan_valid_end crc f 0 0") (auto simp: recover_torn_tail_def split: if_splits)
  then obtain rs tail where nf: "\<not> faulty f" and rs: "all_ok rs" "fbytes f = frames crc rs @ tail"
      "v = length (frames crc rs)" "saw = (tail \<noteq> [])"
    using scan_valid_end_Inr [OF sc] by auto
  have le: "v \<le> file_len f" and tail: "length tail = file_len f - v" and tk: "take v (fbytes f) = frames crc rs"
    using rs by (simp_all add: file_len_def)
  have "\<not> record_at crc (fbytes f) p" if short: "length tail < 26" and "v \<le> p" for p
    using record_at_length [of crc "fbytes f" p] that tail by (auto simp: file_len_def)
  moreover have "\<forall>p\<ge>v. \<not> record_at crc (fbytes f) p"
    if "probe_torn_tail crc f v (file_len f) = Inr NoLaterRecord"
    using probe_torn_tail_spec [OF nf, of "file_len f" v crc] that le len(2) by (simp add: file_len_def)
  moreover have "probe_torn_tail crc f v (file_len f) \<noteq> Inl e" for e
    using probe_torn_tail_spec [OF nf, of "file_len f" v crc] le len(2) by (auto simp: file_len_def)
  ultimately have "\<forall>p\<ge>v. \<not> record_at crc (fbytes f) p"
    "f' = f\<lparr>fbytes := take v (fbytes f)\<rparr> \<or> (f' = f \<and> v = file_len f)" "\<forall>w. res = Inr w \<longrightarrow> w = v"
    using rec False sc len(1) le tail rs(4)
    by (auto simp: recover_torn_tail_def Let_def bind_res_Inr bind_res_Inl
        split: if_splits sum.splits torn_tail_probe.splits) (meson torn_tail_probe.exhaust)+
  moreover from this(2) tk le have "fbytes f' = frames crc rs" by (auto simp: file_len_def rs(2))
  moreover from this have "file_len f' = v" using rs(3) by (simp add: file_len_def)
  ultimately show ?thesis
    using rs nf by (intro disjI2 exI [of _ rs]) (auto simp: prefix_def)
qed simp

lemma recovery_sample:
  "recover_torn_tail sum_crc (calm_env (good_file (frame_bytes sum_crc sample_record @ [1, 2, 3])))
     (good_file (frame_bytes sum_crc sample_record @ [1, 2, 3])) =
   (Inr 29, good_file (frame_bytes sum_crc sample_record))"
  using recover_torn_tail_calm [of "good_file (frame_bytes sum_crc sample_record @ [1, 2, 3])" sum_crc
      "[sample_record]" "[1, 2, 3]"]
  by (simp add: U64_MAX_def torn_def)

theorem recovery_keeps_records_witness:
  "\<exists>rs. all_ok rs \<and> frame_bytes sum_crc sample_record = frames sum_crc rs \<and>
     (\<forall>p\<ge>29. \<not> record_at sum_crc (frame_bytes sum_crc sample_record @ [1, 2, 3]) p)"
  using recovery_keeps_records [OF recovery_sample]
  by (simp add: calm_env_def U64_MAX_def)

text \<open>C4.  Recovery is exact after a crash.  If the log holds complete records followed by the
  first bytes of one more record that an append was cut short in, an undisturbed recovery
  truncates the log to exactly the complete records, or it refuses and leaves the log alone;
  it refuses only when the remnant has at least a whole header, and then only because the
  remnant contains a complete record image or is longer than 5792 bytes.\<close>

theorem recovery_after_crash:
  assumes "all_ok rs" "record_ok r" "strict_prefix remnant (frame_bytes crc r)"
    and "length (frames crc rs @ remnant) \<le> U64_MAX"
  defines "f \<equiv> good_file (frames crc rs @ remnant)" and "n \<equiv> length (frames crc rs)"
  shows "recover_torn_tail crc (calm_env f) f = (Inr n, good_file (frames crc rs)) \<or>
     26 \<le> length remnant \<and> ((\<exists>p\<ge>n. record_at crc (fbytes f) p) \<or> 5792 < length remnant) \<and>
     (\<exists>why. recover_torn_tail crc (calm_env f) f = (Inl (AmbiguousTail n (file_len f) why), f))"
proof -
  have "remnant = [] \<or> torn remnant"
    using torn_strict_prefix [OF assms(2,3)] by blast
  from recover_torn_tail_calm [of f crc rs remnant, OF _ _ _ assms(1) this]
  show ?thesis
    using assms(4) by (simp add: f_def n_def)
qed

theorem recovery_after_crash_witness:
  "recover_torn_tail sum_crc (calm_env (good_file (frame_bytes sum_crc sample_record @ take 3 (frame_bytes sum_crc sample_record))))
     (good_file (frame_bytes sum_crc sample_record @ take 3 (frame_bytes sum_crc sample_record))) =
   (Inr 29, good_file (frame_bytes sum_crc sample_record))"
proof -
  have "strict_prefix (take 3 (frame_bytes sum_crc sample_record)) (frame_bytes sum_crc sample_record)"
    using sample_frame_length [of sum_crc]
    by (auto simp: strict_prefix_def take_is_prefix dest!: arg_cong [of _ _ length])
  from recovery_after_crash [of "[sample_record]", OF _ _ this]
  show ?thesis by (simp add: U64_MAX_def)
qed

end
