(* ===== verification/Log_Pread.thy ===== *)
theory Log_Pread
  imports Log_Read
begin

text \<open>
  Positional reads of the log (\<^verbatim>\<open>pread_record\<close>, \<^verbatim>\<open>pread_value_for_key\<close> and their
  helpers, \<^verbatim>\<open>src/sections/log_part_03.rs\<close>).  Both readers are characterised by the
  frame at the offset, so the keyed read is the plain read followed by a key
  comparison, although it never verifies a record of another key.
\<close>

section \<open>Definitions\<close>

definition read_exact_at_or_eof :: "os_file \<Rightarrow> nat \<Rightarrow> nat \<Rightarrow> string \<Rightarrow> log_error + bytes option" where
  "read_exact_at_or_eof f n offset label =
     (case read_full f offset n of
        Full bs \<Rightarrow> Inr (Some bs)
      | Eof got \<Rightarrow> if got = [] then Inr None else Inl (ShortRead label n (length got))
      | IoFail \<Rightarrow> Inl IoError)"

definition read_exact_at_required :: "os_file \<Rightarrow> nat \<Rightarrow> nat \<Rightarrow> string \<Rightarrow> log_error + bytes" where
  "read_exact_at_required f n offset label =
     bind_res (read_exact_at_or_eof f n offset label)
       (\<lambda>m. case m of Some bs \<Rightarrow> Inr bs | None \<Rightarrow> Inl (ShortRead label n 0))"

text \<open>The check that a large body lies inside the file before it is read.\<close>

definition check_large_body :: "os_file \<Rightarrow> nat \<Rightarrow> nat \<Rightarrow> log_error + unit" where
  "check_large_body f offset body_len =
     (if body_len > BODY_LEN_FILE_SIZE_CHECK_THRESHOLD then
        bind_res (ok_or (checked_add64 offset HEADER_SIZE) (LengthOverflow ''record body offset overflow''))
          (\<lambda>body_start.
        bind_res (ok_or (checked_add64 body_start body_len) (LengthOverflow ''record body end offset overflow''))
          (\<lambda>body_end.
        if body_end > file_len f then Inl (BodyPastEof body_end (file_len f)) else Inr ()))
      else Inr ())"

text \<open>A part of a record, read only when it has bytes: \<^verbatim>\<open>if len > 0 { ... }\<close> around a
  checked offset and \<^verbatim>\<open>read_exact_at_required\<close>.\<close>

definition read_part :: "os_file \<Rightarrow> nat \<Rightarrow> nat option \<Rightarrow> string \<Rightarrow> string \<Rightarrow> log_error + bytes" where
  "read_part f n at overflow label =
     (if n > 0 then bind_res (ok_or at (LengthOverflow overflow)) (\<lambda>off. read_exact_at_required f n off label)
      else Inr [])"

definition pread_record :: "crc_fn \<Rightarrow> os_file \<Rightarrow> nat \<Rightarrow> log_error + log_record option" where
  "pread_record crc f offset =
     bind_res (read_exact_at_or_eof f HEADER_SIZE offset ''header'') (\<lambda>m. case m of None \<Rightarrow> Inr None
     | Some header \<Rightarrow>
       let h = parse_header header; is_tombstone = (h_value_size_raw h = TOMBSTONE) in
       bind_res (decoded_value_size (h_value_size_raw h) is_tombstone) (\<lambda>value_size.
       bind_res (checked_record_body_len (h_key_size h) value_size) (\<lambda>body_len.
       bind_res (check_large_body f offset body_len) (\<lambda>_.
       bind_res (read_part f body_len (checked_add64 offset HEADER_SIZE)
                   ''record body offset overflow'' ''body'') (\<lambda>body.
       let key = take (h_key_size h) body; value = drop (h_key_size h) body;
           computed = crc (drop 4 header @ key @ (if is_tombstone then [] else value)) in
       if computed \<noteq> h_crc h then Inl (CrcMismatch (h_crc h) computed)
       else Inr (Some \<lparr>timestamp_ms = h_timestamp_ms h, expire_at_ms = h_expire_at_ms h, rkey = key,
                       rvalue = (if is_tombstone then None else Some value)\<rparr>))))))"

definition check_large_value :: "os_file \<Rightarrow> nat \<Rightarrow> nat \<Rightarrow> bool \<Rightarrow> nat \<Rightarrow> log_error + unit" where
  "check_large_value f offset key_size is_tombstone value_size =
     (if \<not> is_tombstone \<and> value_size > BODY_LEN_FILE_SIZE_CHECK_THRESHOLD then
        bind_res (ok_or (Option.bind (checked_add64 offset HEADER_SIZE) (\<lambda>off. checked_add64 off key_size))
                   (LengthOverflow ''keyed pread value offset overflow''))
          (\<lambda>value_start.
        bind_res (ok_or (checked_add64 value_start value_size) (LengthOverflow ''keyed pread value end overflow''))
          (\<lambda>value_end.
        if value_end > file_len f then Inl (BodyPastEof value_end (file_len f)) else Inr ()))
      else Inr ())"

definition pread_value_for_key ::
  "crc_fn \<Rightarrow> os_file \<Rightarrow> nat \<Rightarrow> bytes \<Rightarrow> log_error + bytes option option" where
  "pread_value_for_key crc f offset expected_key =
     bind_res (read_exact_at_or_eof f HEADER_SIZE offset ''header'') (\<lambda>m. case m of None \<Rightarrow> Inr None
     | Some header \<Rightarrow>
       let h = parse_header header; key_size = h_key_size h in
       bind_res (read_part f key_size (checked_add64 offset HEADER_SIZE)
                   ''keyed pread key offset overflow'' ''key'') (\<lambda>key.
       if key \<noteq> expected_key then Inr None
       else
       let is_tombstone = (h_value_size_raw h = TOMBSTONE) in
       bind_res (decoded_value_size (h_value_size_raw h) is_tombstone) (\<lambda>value_size.
       bind_res (check_large_value f offset key_size is_tombstone value_size) (\<lambda>_.
       bind_res (if is_tombstone then Inr []
                 else read_part f value_size
                        (Option.bind (checked_add64 offset HEADER_SIZE) (\<lambda>off. checked_add64 off key_size))
                        ''keyed pread value offset overflow'' ''value'')
         (\<lambda>value.
       let computed = crc (drop 4 header @ key @ (if is_tombstone then [] else value)) in
       if computed \<noteq> h_crc h then Inl (CrcMismatch (h_crc h) computed)
       else Inr (Some (if is_tombstone then None else Some value)))))))"

section \<open>Positional reads see the frame at the offset\<close>

lemma read_exact_at_or_eof_Some:
  "read_exact_at_or_eof f n offset label = Inr (Some bs) \<longleftrightarrow>
     length bs = n \<and> prefix bs (drop offset (readable f))"
  using read_full_Full [of f offset n bs]
  by (auto simp: read_exact_at_or_eof_def split: read_outcome.splits)

lemma read_exact_at_required_Inr:
  "read_exact_at_required f n offset label = Inr bs \<longleftrightarrow>
     length bs = n \<and> prefix bs (drop offset (readable f))"
proof -
  have "read_exact_at_required f n offset label = Inr bs \<longleftrightarrow>
      read_exact_at_or_eof f n offset label = Inr (Some bs)"
    by (auto simp: read_exact_at_required_def bind_res_Inr split: option.splits)
  then show ?thesis by (simp add: read_exact_at_or_eof_Some)
qed

lemma prefix_drop_bound:
  "prefix bs (drop p (readable f)) \<Longrightarrow> 0 < length bs \<Longrightarrow> p + length bs \<le> file_len f"
proof -
  assume pre: "prefix bs (drop p (readable f))" and "0 < length bs"
  then have "p < length (readable f)" by (cases "p < length (readable f)") auto
  then show ?thesis
    using prefix_length_le [OF pre] length_readable_le [of f] by simp
qed

lemma read_part_Inr:
  "read_part f n (Some at) overflow label = Inr bs \<longleftrightarrow> length bs = n \<and> prefix bs (drop at (readable f))"
  by (auto simp: read_part_def read_exact_at_required_Inr)

lemma part_offsets:
  assumes "file_len f \<le> U64_MAX" "offset + 26 + k \<le> file_len f"
  shows "checked_add64 offset 26 = Some (offset + 26)"
    and "Option.bind (checked_add64 offset 26) (\<lambda>off. checked_add64 off k) = Some (offset + 26 + k)"
  using assms by (auto simp: checked_add64_def)

lemma pread_record_Some:
  assumes "file_len f \<le> U64_MAX"
  shows "pread_record crc f offset = Inr (Some r) \<longleftrightarrow>
     record_ok r \<and> prefix (frame_bytes crc r) (drop offset (readable f))"
proof
  assume rd: "pread_record crc f offset = Inr (Some r)"
  then obtain h where "read_exact_at_or_eof f HEADER_SIZE offset ''header'' = Inr (Some h)"
    by (auto simp: pread_record_def bind_res_Inr split: option.splits)
  then have hlen: "length h = 26" and hpre: "prefix h (drop offset (readable f))"
    by (auto simp: read_exact_at_or_eof_Some)
  then have off: "offset + 26 \<le> file_len f"
    using prefix_drop_bound [of h] by auto
  then have ca: "checked_add64 offset 26 = Some (offset + 26)"
    using assms by (simp add: checked_add64_def)
  let ?h = "parse_header h"
  let ?tomb = "h_value_size_raw ?h = TOMBSTONE"
  from rd \<open>read_exact_at_or_eof f HEADER_SIZE offset ''header'' = Inr (Some h)\<close>
  obtain vs body where
    vs: "decoded_value_size (h_value_size_raw ?h) ?tomb = Inr vs"
    and body: "length body = h_key_size ?h + vs" "prefix body (drop (offset + 26) (readable f))"
    and c: "crc (drop 4 h @ take (h_key_size ?h) body @ (if ?tomb then [] else drop (h_key_size ?h) body)) = h_crc ?h"
    and r: "r = \<lparr>timestamp_ms = h_timestamp_ms ?h, expire_at_ms = h_expire_at_ms ?h,
       rkey = take (h_key_size ?h) body, rvalue = (if ?tomb then None else Some (drop (h_key_size ?h) body))\<rparr>"
    unfolding pread_record_def checked_record_body_len_def
    by (auto simp: bind_res_Inr Let_def ok_or_Inr checked_add64_Some [of "h_key_size _"] ca read_part_Inr
        split: if_splits)
  have "record_ok r \<and> frame_bytes crc r = h @ take (h_key_size ?h) body @ drop (h_key_size ?h) body"
    using vs body(1) c r by (intro frame_of_parts [OF hlen]) auto
  then show "record_ok r \<and> prefix (frame_bytes crc r) (drop offset (readable f))"
    using hpre body(2) hlen by (simp add: prefix_chain)
next
  assume *: "record_ok r \<and> prefix (frame_bytes crc r) (drop offset (readable f))"
  then have pre: "prefix (frame_header crc r) (drop offset (readable f))"
    "prefix (rkey r @ value_bytes r) (drop (offset + 26) (readable f))"
    using prefix_chain [of "frame_header crc r"] by (auto simp: frame_header_split)
  have bound: "offset + 26 + length (rkey r) + length (value_bytes r) \<le> file_len f"
    using prefix_drop_bound [of "frame_bytes crc r" offset f] * by (simp add: frame_length)
  then have off: "offset + 26 \<le> file_len f" by simp
  have hd: "read_exact_at_or_eof f 26 offset ''header'' = Inr (Some (frame_header crc r))"
    using pre by (simp add: read_exact_at_or_eof_Some)
  have c: "drop 4 (frame_header crc r) @ rkey r @ value_bytes r = frame_body r"
    by (simp add: frame_header_def frame_body_def)
  have chk: "checked_add64 (length (rkey r)) (length (value_bytes r)) = Some (length (rkey r) + length (value_bytes r))"
    "check_large_body f offset (length (rkey r) + length (value_bytes r)) = Inr ()"
    using bound assms by (auto simp: checked_add64_def check_large_body_def)
  have body: "read_part f (length (rkey r) + length (value_bytes r)) (checked_add64 offset 26) e ''body''
      = Inr (rkey r @ value_bytes r)" for e
    using pre(2) off by (simp add: part_offsets(1) [of f offset 0, OF assms] read_part_Inr)
  show "pread_record crc f offset = Inr (Some r)"
    unfolding pread_record_def checked_record_body_len_def
    using hd chk body c decoded_frame_size [OF conjunct1 [OF *]] parse_frame_header [OF conjunct1 [OF *], of crc]
    by (cases "rvalue r") (simp_all add: Let_def value_bytes_def)
qed

lemma pread_value_for_key_Some:
  assumes "file_len f \<le> U64_MAX"
  shows "pread_value_for_key crc f offset key = Inr (Some vo) \<longleftrightarrow>
     (\<exists>r. record_ok r \<and> prefix (frame_bytes crc r) (drop offset (readable f)) \<and> rkey r = key \<and> rvalue r = vo)"
proof
  assume rd: "pread_value_for_key crc f offset key = Inr (Some vo)"
  then obtain h where hd: "read_exact_at_or_eof f HEADER_SIZE offset ''header'' = Inr (Some h)"
    by (auto simp: pread_value_for_key_def bind_res_Inr split: option.splits)
  then have hlen: "length h = 26" and hpre: "prefix h (drop offset (readable f))"
    by (auto simp: read_exact_at_or_eof_Some)
  then have off: "offset + 26 \<le> file_len f"
    using prefix_drop_bound [of h offset f] by simp
  then have ca: "checked_add64 offset 26 = Some (offset + 26)"
    using assms by (simp add: checked_add64_def)
  let ?h = "parse_header h"
  let ?tomb = "h_value_size_raw ?h = TOMBSTONE"
  from rd hd obtain vs vl where
    key: "length key = h_key_size ?h" "prefix key (drop (offset + 26) (readable f))"
    and vs: "decoded_value_size (h_value_size_raw ?h) ?tomb = Inr vs"
    and vl: "if ?tomb then vl = [] else
       read_part f vs (Option.bind (checked_add64 offset 26) (\<lambda>off. checked_add64 off (h_key_size ?h)))
         ''keyed pread value offset overflow'' ''value'' = Inr vl"
    and c: "crc (drop 4 h @ key @ (if ?tomb then [] else vl)) = h_crc ?h"
    and vo: "vo = (if ?tomb then None else Some vl)"
    unfolding pread_value_for_key_def
    by (auto simp: bind_res_Inr Let_def ca read_part_Inr split: if_splits)
  have "offset + 26 + h_key_size ?h \<le> file_len f"
    using key off prefix_drop_bound [of key "offset + 26" f] by (cases "h_key_size ?h = 0") simp_all
  then have vpre: "if ?tomb then vl = [] else length vl = vs \<and> prefix vl (drop (offset + 26 + h_key_size ?h) (readable f))"
    using vl part_offsets(2) [OF assms] by (auto simp: read_part_Inr)
  define r where "r = \<lparr>timestamp_ms = h_timestamp_ms ?h, expire_at_ms = h_expire_at_ms ?h,
       rkey = key, rvalue = (if ?tomb then None else Some vl)\<rparr>"
  have "record_ok r \<and> frame_bytes crc r = h @ key @ vl"
  proof (rule frame_of_parts [where crc = crc, OF hlen key(1) refl _ c r_def])
    show "decoded_value_size (h_value_size_raw ?h) ?tomb = Inr (length vl)"
      using vs vpre by (cases ?tomb) auto
  qed
  moreover from this have "prefix (frame_bytes crc r) (drop offset (readable f))"
    using hpre key hlen vpre by (simp add: prefix_chain split: if_splits)
  ultimately show "\<exists>r. record_ok r \<and> prefix (frame_bytes crc r) (drop offset (readable f)) \<and> rkey r = key \<and> rvalue r = vo"
    using vo by (auto simp: r_def)
next
  assume "\<exists>r. record_ok r \<and> prefix (frame_bytes crc r) (drop offset (readable f)) \<and> rkey r = key \<and> rvalue r = vo"
  then obtain r where ok: "record_ok r" and pre: "prefix (frame_bytes crc r) (drop offset (readable f))"
    and r: "rkey r = key" "rvalue r = vo" by blast
  have bound: "offset + 26 + length key + length (value_bytes r) \<le> file_len f"
    using prefix_drop_bound [of "frame_bytes crc r" offset f] pre r by (simp add: frame_length)
  then have off: "offset + 26 \<le> file_len f" "offset + 26 + length key \<le> file_len f" by simp_all
  have parts: "read_exact_at_or_eof f 26 offset ''header'' = Inr (Some (frame_header crc r))"
    "prefix key (drop (offset + 26) (readable f))"
    "prefix (value_bytes r) (drop (offset + 26 + length key) (readable f))"
    using pre r by (auto simp: read_exact_at_or_eof_Some frame_header_split prefix_chain)
  have c: "drop 4 (frame_header crc r) @ key @ value_bytes r = frame_body r"
    by (simp add: frame_header_def frame_body_def r)
  have key: "read_part f (length key) (checked_add64 offset 26) e ''key'' = Inr key" for e
    using parts(2) off by (simp add: part_offsets(1) [of f offset 0, OF assms] read_part_Inr)
  have val: "read_part f (length (value_bytes r))
      (Option.bind (checked_add64 offset 26) (\<lambda>off. checked_add64 off (length key))) e ''value''
      = Inr (value_bytes r)" for e
    using parts(3) off(2) by (simp add: part_offsets(2) [OF assms] read_part_Inr)
  have chk: "check_large_value f offset (length key) (vo = None) (length (value_bytes r)) = Inr ()"
    using bound assms by (auto simp: checked_add64_def check_large_value_def)
  show "pread_value_for_key crc f offset key = Inr (Some vo)"
    unfolding pread_value_for_key_def
    using parts(1) key val chk c decoded_frame_size [OF ok] parse_frame_header [OF ok, of crc] r
    by (cases vo) (simp_all add: Let_def value_bytes_def)
qed

section \<open>Properties\<close>

text \<open>C9.  The positional read agrees with the streaming reader: \<^verbatim>\<open>pread_record_from_file\<close> returns
  a record at an offset exactly when \<^verbatim>\<open>read_next_record\<close> does, although it reads header and body
  in one piece and refuses large bodies by the file size first.\<close>

theorem pread_agrees_with_stream:
  assumes "file_len f \<le> U64_MAX"
  shows "pread_record crc f offset = Inr (Some r) \<longleftrightarrow> (\<exists>q. read_next_record crc f offset = Inr (Some (r, q)))"
  using pread_record_Some [OF assms] by (auto simp: read_next_record_Some)

theorem pread_agrees_with_stream_witness:
  "pread_record sum_crc (good_file (frame_bytes sum_crc sample_record @ [1])) 0 = Inr (Some sample_record)"
  by (subst pread_agrees_with_stream) (auto simp: U64_MAX_def read_next_record_Some)

text \<open>C10.  A keyed read never returns another key's value: \<^verbatim>\<open>pread_value_for_key_from_file\<close>
  yields a value (or a tombstone) exactly when a complete, checksummed record with that very
  key and that value (or a deletion) starts at the offset.\<close>

theorem keyed_pread_exact:
  assumes "file_len f \<le> U64_MAX"
  shows "pread_value_for_key crc f offset key = Inr (Some vo) \<longleftrightarrow>
     (\<exists>r q. read_next_record crc f offset = Inr (Some (r, q)) \<and> rkey r = key \<and> rvalue r = vo)"
  using pread_value_for_key_Some [OF assms] by (auto simp: read_next_record_Some)

theorem keyed_pread_exact_witness:
  "pread_value_for_key sum_crc (good_file (frame_bytes sum_crc sample_record)) 0 [107] = Inr (Some (Some [118, 119]))"
  by (subst keyed_pread_exact)
    (auto simp: U64_MAX_def read_next_record_Some sample_record_ok intro!: exI [of _ sample_record],
     simp_all add: sample_record_def)

end
