(* ===== verification/Log_Writer.thy ===== *)
theory Log_Writer
  imports Log_Scan Log_Pread Backend
begin

text \<open>
  The writing side of the log: \<^verbatim>\<open>LogWriter\<close> (\<^verbatim>\<open>src/sections/log_part_01.rs\<close>) over any
  \<^verbatim>\<open>IoBackend\<close>.  A writer is a record of its
  backend, its published offset and its file id; every operation is a step on the writer and
  the operating system.

  The lemmas of the locale \<open>io_backend\<close> show for every backend that keeps its promise that
  the log grows by exactly the frames of the records written and that a failed operation
  leaves no trace; the properties instantiate them with the synchronous backend.
\<close>

section \<open>Definitions\<close>

record 'b log_writer =
  lw_backend :: 'b
  lw_offset :: nat
  lw_file_id :: u64

type_synonym ('b, 'a) lw_step = "('b log_writer \<times> os, log_error, 'a) step"

text \<open>A backend call; its error becomes the text of a \<^verbatim>\<open>LogError\<close>.\<close>

definition lw_call :: "('b \<times> os, io_error, 'a) step \<Rightarrow> ('b, 'a) lw_step" where
  "lw_call m = (\<lambda>(lw, d). case m (lw_backend lw, d) of
     (Inr x, (b, d')) \<Rightarrow> (Inr x, (lw\<lparr>lw_backend := b\<rparr>, d'))
   | (Inl e, (b, d')) \<Rightarrow> (Inl (BackendFailed e), (lw\<lparr>lw_backend := b\<rparr>, d')))"

definition publish_offset :: "'b backend_ops \<Rightarrow> ('b, unit) lw_step" where
  "publish_offset ops = (\<lambda>(lw, d). (Inr (), (lw\<lparr>lw_offset := be_offset ops (lw_backend lw)\<rparr>, d)))"

definition lw_open :: "'b backend_ops \<Rightarrow> 'b \<Rightarrow> u64 \<Rightarrow> 'b log_writer" where
  "lw_open ops b fid = \<lparr>lw_backend = b, lw_offset = be_offset ops b, lw_file_id = fid\<rparr>"

definition lw_write :: "'b backend_ops \<Rightarrow> crc_fn \<Rightarrow> u64 \<Rightarrow> bytes \<Rightarrow> bytes \<Rightarrow> u64 \<Rightarrow> ('b, nat) lw_step" where
  "lw_write ops crc now key value expire =
     st_bind (st_lift (validate_kv_sizes key value)) (\<lambda>_.
     st_bind (lw_call (be_append ops (encode_record crc now key value expire))) (\<lambda>start.
     st_bind (publish_offset ops) (\<lambda>_. st_ret start)))"

definition lw_write_sync :: "'b backend_ops \<Rightarrow> crc_fn \<Rightarrow> u64 \<Rightarrow> bytes \<Rightarrow> bytes \<Rightarrow> u64 \<Rightarrow> ('b, nat) lw_step" where
  "lw_write_sync ops crc now key value expire =
     st_bind (st_lift (validate_kv_sizes key value)) (\<lambda>_.
     st_bind (lw_call (be_append_and_sync ops (encode_record crc now key value expire))) (\<lambda>start.
     st_bind (publish_offset ops) (\<lambda>_. st_ret start)))"

definition lw_write_tombstone :: "'b backend_ops \<Rightarrow> crc_fn \<Rightarrow> u64 \<Rightarrow> bytes \<Rightarrow> ('b, nat) lw_step" where
  "lw_write_tombstone ops crc now key =
     st_bind (st_lift (validate_kv_sizes key [])) (\<lambda>_.
     st_bind (lw_call (be_append ops (encode_tombstone crc now key))) (\<lambda>start.
     st_bind (publish_offset ops) (\<lambda>_. st_ret start)))"

definition lw_write_tombstone_sync :: "'b backend_ops \<Rightarrow> crc_fn \<Rightarrow> u64 \<Rightarrow> bytes \<Rightarrow> ('b, nat) lw_step" where
  "lw_write_tombstone_sync ops crc now key =
     st_bind (st_lift (validate_kv_sizes key [])) (\<lambda>_.
     st_bind (lw_call (be_append_and_sync ops (encode_tombstone crc now key))) (\<lambda>start.
     st_bind (publish_offset ops) (\<lambda>_. st_ret start)))"

definition lw_write_raw :: "'b backend_ops \<Rightarrow> bytes \<Rightarrow> ('b, nat) lw_step" where
  "lw_write_raw ops data =
     st_bind (lw_call (be_append ops data)) (\<lambda>start.
     st_bind (publish_offset ops) (\<lambda>_. st_ret start))"

definition lw_sync :: "'b backend_ops \<Rightarrow> ('b, unit) lw_step" where
  "lw_sync ops = lw_call (be_sync ops)"

definition lw_rollback_to :: "'b backend_ops \<Rightarrow> nat \<Rightarrow> ('b, unit) lw_step" where
  "lw_rollback_to ops off =
     st_bind (lw_call (be_rollback_to ops off)) (\<lambda>_ (lw, d). (Inr (), (lw\<lparr>lw_offset := off\<rparr>, d)))"

fun validate_entries :: "(bytes \<times> bytes \<times> u64) list \<Rightarrow> log_error + unit" where
  "validate_entries [] = Inr ()"
| "validate_entries ((key, value, _) # es) = bind_res (validate_kv_sizes key value) (\<lambda>_. validate_entries es)"

fun encode_each :: "crc_fn \<Rightarrow> (nat \<Rightarrow> u64) \<Rightarrow> (bytes \<times> bytes \<times> u64) list \<Rightarrow> bytes list" where
  "encode_each crc clock [] = []"
| "encode_each crc clock ((key, value, expire) # es) =
     encode_record crc (clock 0) key value expire # encode_each crc (\<lambda>i. clock (Suc i)) es"

definition lw_write_batch ::
  "'b backend_ops \<Rightarrow> crc_fn \<Rightarrow> (nat \<Rightarrow> u64) \<Rightarrow> (bytes \<times> bytes \<times> u64) list \<Rightarrow> ('b, (nat \<times> nat) list) lw_step" where
  "lw_write_batch ops crc clock entries =
     st_bind (st_lift (validate_entries entries)) (\<lambda>_.
     st_bind (lw_call (be_append_batch_and_sync ops (encode_each crc clock entries))) (\<lambda>offsets.
     st_bind (publish_offset ops) (\<lambda>_.
     st_ret (map (\<lambda>(off, (_, value, _)). (off, length value)) (zip offsets entries)))))"

text \<open>The appends of the nosync paths publish the backend's offset also when they fail.\<close>

definition append_publishing :: "'b backend_ops \<Rightarrow> bytes \<Rightarrow> ('b, nat) lw_step" where
  "append_publishing ops data s =
     (case lw_call (be_append ops data) s of
        (Inr start, s') \<Rightarrow> st_bind (publish_offset ops) (\<lambda>_. st_ret start) s'
      | (Inl e, s') \<Rightarrow> st_bind (publish_offset ops) (\<lambda>_. st_lift (Inl e)) s')"

fun entries_total_len :: "nat \<Rightarrow> (bytes \<times> bytes \<times> u64) list \<Rightarrow> log_error + nat" where
  "entries_total_len acc [] = Inr acc"
| "entries_total_len acc ((key, value, _) # es) =
     bind_res (ok_or (checked_add64 acc (record_len (length key) (length value)))
                (LengthOverflow ''batch record length overflow''))
       (\<lambda>acc'. entries_total_len acc' es)"

fun encode_entries_into :: "crc_fn \<Rightarrow> (nat \<Rightarrow> u64) \<Rightarrow> (bytes \<times> bytes \<times> u64) list \<Rightarrow> bytes \<Rightarrow> bytes" where
  "encode_entries_into crc clock [] buf = buf"
| "encode_entries_into crc clock ((key, value, expire) # es) buf =
     encode_entries_into crc (\<lambda>i. clock (Suc i)) es (encode_record_into crc (clock 0) buf key value expire)"

fun entry_offsets :: "nat \<Rightarrow> (bytes \<times> bytes \<times> u64) list \<Rightarrow> (nat \<times> nat) list" where
  "entry_offsets running [] = []"
| "entry_offsets running ((key, value, _) # es) =
     (running, length value) # entry_offsets (running + record_len (length key) (length value)) es"

definition lw_write_batch_nosync ::
  "'b backend_ops \<Rightarrow> crc_fn \<Rightarrow> (nat \<Rightarrow> u64) \<Rightarrow> (bytes \<times> bytes \<times> u64) list \<Rightarrow> ('b, (nat \<times> nat) list) lw_step" where
  "lw_write_batch_nosync ops crc clock entries =
     (if entries = [] then st_ret []
      else st_bind (st_lift (validate_entries entries)) (\<lambda>_.
           st_bind (st_lift (entries_total_len 0 entries)) (\<lambda>_.
           st_bind (append_publishing ops (encode_entries_into crc clock entries [])) (\<lambda>append_start.
           st_ret (entry_offsets append_start entries)))))"

definition lw_write_ops_batch_nosync ::
  "'b backend_ops \<Rightarrow> crc_fn \<Rightarrow> (nat \<Rightarrow> u64) \<Rightarrow> batch_write list \<Rightarrow> ('b, batch_write_result list) lw_step" where
  "lw_write_ops_batch_nosync ops crc clock entries =
     (if entries = [] then st_ret []
      else st_bind (st_lift (validate_batch_writes entries)) (\<lambda>_.
           st_bind (st_lift (batch_total_len 0 entries)) (\<lambda>_.
           st_bind (append_publishing ops (encode_all crc clock entries [])) (\<lambda>append_start.
           st_ret (batch_write_results entries append_start)))))"

definition lw_write_ops_batch ::
  "'b backend_ops \<Rightarrow> crc_fn \<Rightarrow> (nat \<Rightarrow> u64) \<Rightarrow> batch_write list \<Rightarrow> ('b, batch_write_result list) lw_step" where
  "lw_write_ops_batch ops crc clock entries =
     (if entries = [] then st_ret []
      else st_bind (st_lift (validate_batch_writes entries)) (\<lambda>_.
           st_bind (st_lift (encode_batch_writes crc clock entries)) (\<lambda>combined.
           st_bind (lw_call (be_append_and_sync ops combined)) (\<lambda>start.
           st_bind (publish_offset ops) (\<lambda>_. st_ret (batch_write_results entries start))))))"

definition lw_write_batch_preencoded :: "'b backend_ops \<Rightarrow> bytes list \<Rightarrow> ('b, nat list) lw_step" where
  "lw_write_batch_preencoded ops encoded =
     st_bind (lw_call (be_append_batch_and_sync ops encoded)) (\<lambda>offsets.
     st_bind (publish_offset ops) (\<lambda>_. st_ret offsets))"

section \<open>Every operation appends frames or nothing\<close>

text \<open>Errors after which the log may hold a remnant of the failed operation.\<close>

fun remnant_possible :: "log_error \<Rightarrow> bool" where
  "remnant_possible (BackendFailed e) = rollback_failed e"
| "remnant_possible (CopyRollbackFailed _ _) = True"
| "remnant_possible _ = False"

text \<open>A step that, on a well-formed backend, appends exactly \<open>added\<close> (and makes it durable if
  \<open>durable\<close>) with a result that satisfies \<open>post\<close> at the old end of the file, or fails and
  leaves the file alone.\<close>

definition writes ::
  "('b \<Rightarrow> bool) \<Rightarrow> ('b, 'a) lw_step \<Rightarrow> bytes \<Rightarrow> bool \<Rightarrow> ('a \<Rightarrow> nat \<Rightarrow> bool) \<Rightarrow> bool" where
  "writes wfb m added durable post \<longleftrightarrow>
     (\<forall>lw d r lw' d'. wfb (lw_backend lw) \<longrightarrow> m (lw, d) = (r, (lw', d')) \<longrightarrow>
        wfb (lw_backend lw') \<and>
        (case r of
           Inr x \<Rightarrow> d_bytes d' = d_bytes d @ added \<and> post x (length (d_bytes d)) \<and>
                    (durable \<longrightarrow> d_synced d' = d_bytes d')
         | Inl e \<Rightarrow> prefix (d_bytes d) (d_bytes d') \<and> (\<not> remnant_possible e \<longrightarrow> d_bytes d' = d_bytes d)))"

lemma writesI:
  assumes "\<And>lw d x lw' d'. wfb (lw_backend lw) \<Longrightarrow> m (lw, d) = (Inr x, (lw', d')) \<Longrightarrow>
       wfb (lw_backend lw') \<and> d_bytes d' = d_bytes d @ added \<and> post x (length (d_bytes d)) \<and>
       (durable \<longrightarrow> d_synced d' = d_bytes d')"
    and "\<And>lw d e lw' d'. wfb (lw_backend lw) \<Longrightarrow> m (lw, d) = (Inl e, (lw', d')) \<Longrightarrow>
       wfb (lw_backend lw') \<and> prefix (d_bytes d) (d_bytes d') \<and> (\<not> remnant_possible e \<longrightarrow> d_bytes d' = d_bytes d)"
  shows "writes wfb m added durable post"
  unfolding writes_def
proof (intro allI impI)
  fix lw d r lw' d' assume *: "wfb (lw_backend lw)" "m (lw, d) = (r, (lw', d'))"
  show "wfb (lw_backend lw') \<and>
        (case r of
           Inr x \<Rightarrow> d_bytes d' = d_bytes d @ added \<and> post x (length (d_bytes d)) \<and>
                    (durable \<longrightarrow> d_synced d' = d_bytes d')
         | Inl e \<Rightarrow> prefix (d_bytes d) (d_bytes d') \<and> (\<not> remnant_possible e \<longrightarrow> d_bytes d' = d_bytes d))"
  proof (cases r)
    case (Inl e)
    from assms(2) [OF *(1) *(2) [unfolded Inl]] show ?thesis unfolding Inl sum.case .
  next
    case (Inr x)
    from assms(1) [OF *(1) *(2) [unfolded Inr]] show ?thesis unfolding Inr sum.case .
  qed
qed

lemma writes_Inr:
  assumes "writes wfb m added durable post" "wfb (lw_backend lw)" "m (lw, d) = (Inr x, (lw', d'))"
  shows "wfb (lw_backend lw')" "d_bytes d' = d_bytes d @ added" "post x (length (d_bytes d))"
    "durable \<Longrightarrow> d_synced d' = d_bytes d'"
proof -
  have "wfb (lw_backend lw') \<and> (case Inr x of
           Inr x \<Rightarrow> d_bytes d' = d_bytes d @ added \<and> post x (length (d_bytes d)) \<and>
                    (durable \<longrightarrow> d_synced d' = d_bytes d')
         | Inl e \<Rightarrow> prefix (d_bytes d) (d_bytes d') \<and> (\<not> remnant_possible e \<longrightarrow> d_bytes d' = d_bytes d))"
    using assms unfolding writes_def by blast
  then show "wfb (lw_backend lw')" "d_bytes d' = d_bytes d @ added" "post x (length (d_bytes d))"
    "durable \<Longrightarrow> d_synced d' = d_bytes d'" by simp_all
qed

lemma writes_Inl:
  assumes "writes wfb m added durable post" "wfb (lw_backend lw)" "m (lw, d) = (Inl e, (lw', d'))"
  shows "wfb (lw_backend lw')" "prefix (d_bytes d) (d_bytes d')" "\<not> remnant_possible e \<Longrightarrow> d_bytes d' = d_bytes d"
proof -
  have "wfb (lw_backend lw') \<and> (case Inl e of
           Inr x \<Rightarrow> d_bytes d' = d_bytes d @ added \<and> post x (length (d_bytes d)) \<and>
                    (durable \<longrightarrow> d_synced d' = d_bytes d')
         | Inl e \<Rightarrow> prefix (d_bytes d) (d_bytes d') \<and> (\<not> remnant_possible e \<longrightarrow> d_bytes d' = d_bytes d))"
    using assms unfolding writes_def by blast
  then show "wfb (lw_backend lw')" "prefix (d_bytes d) (d_bytes d')"
    "\<not> remnant_possible e \<Longrightarrow> d_bytes d' = d_bytes d" by simp_all
qed

text \<open>A check before the write keeps the law; the result of the write may be post-processed.\<close>

lemma writes_check:
  assumes "\<And>e. chk = Inl e \<Longrightarrow> \<not> remnant_possible e"
    and "\<And>x. chk = Inr x \<Longrightarrow> writes wfb (k x) added durable post"
  shows "writes wfb (st_bind (st_lift chk) k) added durable post"
proof (cases chk)
  case (Inl e)
  then show ?thesis using assms(1) by (auto simp: writes_def st_bind_def)
next
  case (Inr x)
  then have "st_bind (st_lift chk) k = k x" by (auto simp: st_bind_def fun_eq_iff)
  then show ?thesis using assms(2) Inr by simp
qed

lemma writes_wrap:
  assumes w: "writes wfb m added durable post"
    and ok: "\<And>lw d x lw1 d1. m (lw, d) = (Inr x, (lw1, d1)) \<Longrightarrow>
       \<exists>lw2. m' (lw, d) = (Inr (g x), (lw2, d1)) \<and> lw_backend lw2 = lw_backend lw1"
    and err: "\<And>lw d e lw1 d1. m (lw, d) = (Inl e, (lw1, d1)) \<Longrightarrow>
       \<exists>lw2. m' (lw, d) = (Inl e, (lw2, d1)) \<and> lw_backend lw2 = lw_backend lw1"
    and post: "\<And>x n. post x n \<Longrightarrow> post' (g x) n"
  shows "writes wfb m' added durable post'"
  unfolding writes_def
proof (intro allI impI)
  fix lw d r lw' d' assume b: "wfb (lw_backend lw)" and m': "m' (lw, d) = (r, (lw', d'))"
  obtain r1 lw1 d1 where m: "m (lw, d) = (r1, (lw1, d1))" by (cases "m (lw, d)") auto
  show "wfb (lw_backend lw') \<and>
        (case r of
           Inr x \<Rightarrow> d_bytes d' = d_bytes d @ added \<and> post' x (length (d_bytes d)) \<and>
                    (durable \<longrightarrow> d_synced d' = d_bytes d')
         | Inl e \<Rightarrow> prefix (d_bytes d) (d_bytes d') \<and> (\<not> remnant_possible e \<longrightarrow> d_bytes d' = d_bytes d))"
  proof (cases r1)
    case (Inl e)
    from err [OF m [unfolded Inl]] m' have "r = Inl e" "lw_backend lw' = lw_backend lw1" "d' = d1" by auto
    then show ?thesis using writes_Inl [OF w b m [unfolded Inl]] by simp
  next
    case (Inr x)
    from ok [OF m [unfolded Inr]] m' have "r = Inr (g x)" "lw_backend lw' = lw_backend lw1" "d' = d1" by auto
    then show ?thesis using writes_Inr [OF w b m [unfolded Inr]] post by simp
  qed
qed

lemma writes_post:
  assumes "writes wfb m added durable post" "\<And>x n. post x n \<Longrightarrow> post' (g x) n"
  shows "writes wfb (st_bind m (\<lambda>x. st_ret (g x))) added durable post'"
  by (rule writes_wrap [where g = g and post' = post', OF assms(1)]) (simp_all add: assms(2))

lemma writes_publish:
  assumes "writes wfb m added durable post" "\<And>x n. post x n \<Longrightarrow> post' (g x) n"
  shows "writes wfb (st_bind m (\<lambda>x. st_bind (publish_offset ops) (\<lambda>_. st_ret (g x)))) added durable post'"
  by (rule writes_wrap [where g = g and post' = post', OF assms(1)])
    (simp_all add: assms(2) publish_offset_def st_bind_def)

context io_backend
begin

lemma writes_append: "writes wfb (lw_call (be_append ops data)) data False (\<lambda>x n. x = n)"
proof (rule writesI)
  fix lw :: "'b log_writer" and d x lw' d'
  assume "wfb (lw_backend lw)" "lw_call (be_append ops data) (lw, d) = (Inr x, (lw', d'))"
  then show "wfb (lw_backend lw') \<and> d_bytes d' = d_bytes d @ data \<and> x = length (d_bytes d) \<and>
      (False \<longrightarrow> d_synced d' = d_bytes d')"
    using append_Ok by (auto simp: lw_call_def split: prod.splits sum.splits)
next
  fix lw :: "'b log_writer" and d e lw' d'
  assume "wfb (lw_backend lw)" "lw_call (be_append ops data) (lw, d) = (Inl e, (lw', d'))"
  then show "wfb (lw_backend lw') \<and> prefix (d_bytes d) (d_bytes d') \<and>
      (\<not> remnant_possible e \<longrightarrow> d_bytes d' = d_bytes d)"
    using append_Err by (auto simp: lw_call_def split: prod.splits sum.splits)
qed

lemma writes_append_and_sync:
  "writes wfb (lw_call (be_append_and_sync ops data)) data True (\<lambda>x n. x = n)"
proof (rule writesI)
  fix lw :: "'b log_writer" and d x lw' d'
  assume "wfb (lw_backend lw)" "lw_call (be_append_and_sync ops data) (lw, d) = (Inr x, (lw', d'))"
  then show "wfb (lw_backend lw') \<and> d_bytes d' = d_bytes d @ data \<and> x = length (d_bytes d) \<and>
      (True \<longrightarrow> d_synced d' = d_bytes d')"
    using append_and_sync_Ok by (auto simp: lw_call_def split: prod.splits sum.splits)
next
  fix lw :: "'b log_writer" and d e lw' d'
  assume "wfb (lw_backend lw)" "lw_call (be_append_and_sync ops data) (lw, d) = (Inl e, (lw', d'))"
  then show "wfb (lw_backend lw') \<and> prefix (d_bytes d) (d_bytes d') \<and>
      (\<not> remnant_possible e \<longrightarrow> d_bytes d' = d_bytes d)"
    using append_and_sync_Err by (auto simp: lw_call_def split: prod.splits sum.splits)
qed

lemma writes_batch:
  "writes wfb (lw_call (be_append_batch_and_sync ops bufs)) (concat bufs) (bufs \<noteq> []) (\<lambda>x n. x = starts n bufs)"
proof (rule writesI)
  fix lw :: "'b log_writer" and d x lw' d'
  assume "wfb (lw_backend lw)" "lw_call (be_append_batch_and_sync ops bufs) (lw, d) = (Inr x, (lw', d'))"
  then show "wfb (lw_backend lw') \<and> d_bytes d' = d_bytes d @ concat bufs \<and> x = starts (length (d_bytes d)) bufs \<and>
      (bufs \<noteq> [] \<longrightarrow> d_synced d' = d_bytes d')"
    using batch_Ok by (auto simp: lw_call_def split: prod.splits sum.splits)
next
  fix lw :: "'b log_writer" and d e lw' d'
  assume "wfb (lw_backend lw)" "lw_call (be_append_batch_and_sync ops bufs) (lw, d) = (Inl e, (lw', d'))"
  then show "wfb (lw_backend lw') \<and> prefix (d_bytes d) (d_bytes d') \<and>
      (\<not> remnant_possible e \<longrightarrow> d_bytes d' = d_bytes d)"
    using batch_Err by (auto simp: lw_call_def split: prod.splits sum.splits)
qed

lemma writes_append_publishing: "writes wfb (append_publishing ops data) data False (\<lambda>x n. x = n)"
  by (rule writes_wrap [where g = id, OF writes_append])
    (simp_all add: append_publishing_def st_bind_def publish_offset_def)

end

lemma writes_weaken:
  assumes "writes wfb m added durable post" "\<And>x n. post x n \<Longrightarrow> post' x n"
  shows "writes wfb m added False post'"
proof (rule writesI)
  fix lw d x lw' d' assume b: "wfb (lw_backend lw)" and m: "m (lw, d) = (Inr x, (lw', d'))"
  note w = writes_Inr [OF assms(1) b m]
  show "wfb (lw_backend lw') \<and> d_bytes d' = d_bytes d @ added \<and> post' x (length (d_bytes d)) \<and>
      (False \<longrightarrow> d_synced d' = d_bytes d')"
    using w(1,2) assms(2) [OF w(3)] by blast
next
  fix lw d e lw' d' assume b: "wfb (lw_backend lw)" and m: "m (lw, d) = (Inl e, (lw', d'))"
  show "wfb (lw_backend lw') \<and> prefix (d_bytes d) (d_bytes d') \<and> (\<not> remnant_possible e \<longrightarrow> d_bytes d' = d_bytes d)"
    using writes_Inl [OF assms(1) b m] by blast
qed

text \<open>Batches of triples are batches of puts.\<close>

definition puts :: "(bytes \<times> bytes \<times> u64) list \<Rightarrow> batch_write list" where
  "puts entries = map (\<lambda>(key, value, expire). Put key value expire) entries"

lemma validate_entries_puts: "validate_entries entries = validate_batch_writes (puts entries)"
  by (induction entries) (auto simp: puts_def)

lemma entries_total_len_puts: "entries_total_len acc entries = batch_total_len acc (puts entries)"
  by (induction entries arbitrary: acc) (auto simp: puts_def)

lemma encode_entries_into_puts: "encode_entries_into crc clock entries buf = encode_all crc clock (puts entries) buf"
  by (induction crc clock entries buf rule: encode_entries_into.induct) (simp_all add: puts_def)

lemma encode_each_puts:
  "encode_each crc clock entries = map (frame_bytes crc) (entry_records clock (puts entries))"
  by (induction crc clock entries rule: encode_each.induct)
    (simp_all add: puts_def encode_record_def encode_record_into_eq)

lemma validation_no_remnant:
  "validate_kv_sizes k v = Inl e \<Longrightarrow> \<not> remnant_possible e"
  "validate_batch_writes es = Inl e \<Longrightarrow> \<not> remnant_possible e"
  "batch_total_len acc es = Inl e \<Longrightarrow> \<not> remnant_possible e"
  "encode_batch_writes crc clock es = Inl e \<Longrightarrow> \<not> remnant_possible e"
proof -
  show kv: "validate_kv_sizes k v = Inl e \<Longrightarrow> \<not> remnant_possible e" for k v
    by (auto simp: validate_kv_sizes_def split: if_splits)
  show "validate_batch_writes es = Inl e \<Longrightarrow> \<not> remnant_possible e"
  proof (induction es)
    case (Cons a es)
    then show ?case using kv by (cases a) (auto simp: bind_res_Inl)
  qed simp
  show tl: "batch_total_len acc es = Inl e \<Longrightarrow> \<not> remnant_possible e" for acc
    by (induction acc es rule: batch_total_len.induct) (auto simp: bind_res_Inl ok_or_Inl)
  show "encode_batch_writes crc clock es = Inl e \<Longrightarrow> \<not> remnant_possible e"
    using tl [of 0] by (auto simp: encode_batch_writes_def bind_res_Inl)
qed

lemma entry_records_ok:
  "validate_batch_writes es = Inr u \<Longrightarrow> all_ok (entry_records clock es)"
  using validate_batch_writes_ok [of es u] by (auto simp: list_all_length entry_records_nth)

text \<open>The write operations of a \<^verbatim>\<open>LogWriter\<close> and the records each of them stands for.\<close>

datatype write_op =
    OpWrite u64 bytes bytes u64
  | OpWriteSync u64 bytes bytes u64
  | OpTombstone u64 bytes
  | OpTombstoneSync u64 bytes
  | OpBatch "nat \<Rightarrow> u64" "(bytes \<times> bytes \<times> u64) list"
  | OpBatchNosync "nat \<Rightarrow> u64" "(bytes \<times> bytes \<times> u64) list"
  | OpOps "nat \<Rightarrow> u64" "batch_write list"
  | OpOpsNosync "nat \<Rightarrow> u64" "batch_write list"
  | OpSync

fun op_records :: "write_op \<Rightarrow> log_record list" where
  "op_records (OpWrite now k v e) = [entry_record now (Put k v e)]"
| "op_records (OpWriteSync now k v e) = [entry_record now (Put k v e)]"
| "op_records (OpTombstone now k) = [entry_record now (Delete k)]"
| "op_records (OpTombstoneSync now k) = [entry_record now (Delete k)]"
| "op_records (OpBatch clock es) = entry_records clock (puts es)"
| "op_records (OpBatchNosync clock es) = entry_records clock (puts es)"
| "op_records (OpOps clock es) = entry_records clock es"
| "op_records (OpOpsNosync clock es) = entry_records clock es"
| "op_records OpSync = []"

definition discard :: "('b, 'a) lw_step \<Rightarrow> ('b, unit) lw_step" where
  "discard m = st_bind m (\<lambda>_. st_ret ())"

lemma writes_discard:
  assumes "writes wfb m added durable post" "\<And>x n. post x n \<Longrightarrow> all_ok rs" "added = frames crc rs"
  shows "writes wfb (discard m) (frames crc rs) False (\<lambda>x n. all_ok rs)"
  unfolding discard_def assms(3) [symmetric]
  by (rule writes_post [OF writes_weaken [OF assms(1)], where post = "\<lambda>_ _. all_ok rs"]) (use assms(2) in blast)+

fun run_op :: "'b backend_ops \<Rightarrow> crc_fn \<Rightarrow> write_op \<Rightarrow> ('b, unit) lw_step" where
  "run_op ops crc (OpWrite now k v e) = discard (lw_write ops crc now k v e)"
| "run_op ops crc (OpWriteSync now k v e) = discard (lw_write_sync ops crc now k v e)"
| "run_op ops crc (OpTombstone now k) = discard (lw_write_tombstone ops crc now k)"
| "run_op ops crc (OpTombstoneSync now k) = discard (lw_write_tombstone_sync ops crc now k)"
| "run_op ops crc (OpBatch clock es) = discard (lw_write_batch ops crc clock es)"
| "run_op ops crc (OpBatchNosync clock es) = discard (lw_write_batch_nosync ops crc clock es)"
| "run_op ops crc (OpOps clock es) = discard (lw_write_ops_batch ops crc clock es)"
| "run_op ops crc (OpOpsNosync clock es) = discard (lw_write_ops_batch_nosync ops crc clock es)"
| "run_op ops crc OpSync = lw_sync ops"

context io_backend
begin

lemma writes_validated:
  assumes "writes wfb m (frame_bytes crc (entry_record now e)) durable (\<lambda>x n. x = n)"
    and "validate_batch_write e = chk"
  shows "writes wfb (st_bind (st_lift chk) (\<lambda>_. st_bind m (\<lambda>start. st_bind (publish_offset ops) (\<lambda>_. st_ret start))))
     (frame_bytes crc (entry_record now e)) durable (\<lambda>x n. x = n \<and> record_ok (entry_record now e))"
proof (rule writes_check)
  fix err assume "chk = Inl err"
  with assms(2) show "\<not> remnant_possible err" using validation_no_remnant(1) by (cases e) auto
next
  fix u assume "chk = Inr u"
  then have "record_ok (entry_record now e)"
    using assms(2) validate_batch_write_ok by blast
  then show "writes wfb (st_bind m (\<lambda>start. st_bind (publish_offset ops) (\<lambda>_. st_ret start)))
      (frame_bytes crc (entry_record now e)) durable (\<lambda>x n. x = n \<and> record_ok (entry_record now e))"
    by (intro writes_publish [OF assms(1)]) simp
qed

lemma writes_single:
  "writes wfb (lw_write ops crc now k v e) (frame_bytes crc (entry_record now (Put k v e))) False
      (\<lambda>x n. x = n \<and> record_ok (entry_record now (Put k v e)))"
  "writes wfb (lw_write_sync ops crc now k v e) (frame_bytes crc (entry_record now (Put k v e))) True
      (\<lambda>x n. x = n \<and> record_ok (entry_record now (Put k v e)))"
  "writes wfb (lw_write_tombstone ops crc now k) (frame_bytes crc (entry_record now (Delete k))) False
      (\<lambda>x n. x = n \<and> record_ok (entry_record now (Delete k)))"
  "writes wfb (lw_write_tombstone_sync ops crc now k) (frame_bytes crc (entry_record now (Delete k))) True
      (\<lambda>x n. x = n \<and> record_ok (entry_record now (Delete k)))"
  unfolding lw_write_def lw_write_sync_def lw_write_tombstone_def lw_write_tombstone_sync_def
    encode_record_def encode_record_into_eq encode_tombstone_def encode_tombstone_into_eq append_Nil
  by (rule writes_validated; simp add: writes_append writes_append_and_sync)+

lemma writes_ops:
  "writes wfb (lw_write_ops_batch ops crc clock es) (frames crc (entry_records clock es)) (es \<noteq> [])
      (\<lambda>x n. x = batch_write_results es n \<and> all_ok (entry_records clock es))" (is ?sync)
  "writes wfb (lw_write_ops_batch_nosync ops crc clock es) (frames crc (entry_records clock es)) False
      (\<lambda>x n. x = batch_write_results es n \<and> all_ok (entry_records clock es))" (is ?nosync)
proof -
  have nil: "writes wfb (st_ret ([] :: batch_write_result list)) [] False (\<lambda>x n. x = [])"
    by (auto simp: writes_def)
  show ?sync
  proof (cases "es = []")
    case True
    then show ?thesis using nil by (simp add: lw_write_ops_batch_def)
  next
    case False
    show ?thesis
      unfolding lw_write_ops_batch_def if_not_P [OF False]
    proof (rule writes_check, rule validation_no_remnant(2), assumption, rule writes_check,
        rule validation_no_remnant(4), assumption)
      fix u combined assume "validate_batch_writes es = Inr u" "encode_batch_writes crc clock es = Inr combined"
      then have "combined = frames crc (entry_records clock es)" "all_ok (entry_records clock es)"
        by (auto simp: encode_batch_writes_def bind_res_Inr encode_all_eq entry_records_ok)
      then show "writes wfb (st_bind (lw_call (be_append_and_sync ops combined))
          (\<lambda>start. st_bind (publish_offset ops) (\<lambda>_. st_ret (batch_write_results es start))))
          (frames crc (entry_records clock es)) (es \<noteq> [])
          (\<lambda>x n. x = batch_write_results es n \<and> all_ok (entry_records clock es))"
        using False writes_publish [where g = "batch_write_results es", OF writes_append_and_sync] by auto
    qed
  qed
  show ?nosync
  proof (cases "es = []")
    case True
    then show ?thesis using nil by (simp add: lw_write_ops_batch_nosync_def)
  next
    case False
    show ?thesis
      unfolding lw_write_ops_batch_nosync_def if_not_P [OF False] encode_all_eq append_Nil
    proof (rule writes_check, rule validation_no_remnant(2), assumption, rule writes_check,
        rule validation_no_remnant(3), assumption)
      fix u total assume "validate_batch_writes es = Inr u"
      then show "writes wfb (st_bind (append_publishing ops (frames crc (entry_records clock es)))
          (\<lambda>start. st_ret (batch_write_results es start)))
          (frames crc (entry_records clock es)) False
          (\<lambda>x n. x = batch_write_results es n \<and> all_ok (entry_records clock es))"
        by (intro writes_post [OF writes_append_publishing]) (simp add: entry_records_ok)
    qed
  qed
qed

lemma writes_batches:
  "writes wfb (lw_write_batch ops crc clock es) (frames crc (entry_records clock (puts es))) (es \<noteq> [])
      (\<lambda>x n. all_ok (entry_records clock (puts es)))" (is ?sync)
  "writes wfb (lw_write_batch_nosync ops crc clock es) (frames crc (entry_records clock (puts es))) False
      (\<lambda>x n. x = entry_offsets n es \<and> all_ok (entry_records clock (puts es)))" (is ?nosync)
proof -
  let ?rs = "entry_records clock (puts es)"
  have ne: "encode_each crc clock es \<noteq> [] \<longleftrightarrow> es \<noteq> []" by (cases es) auto
  show ?sync
    unfolding lw_write_batch_def
  proof (rule writes_check)
    fix e assume "validate_entries es = Inl e"
    then show "\<not> remnant_possible e" using validation_no_remnant(2) by (simp add: validate_entries_puts)
  next
    fix u assume "validate_entries es = Inr u"
    then have ok: "all_ok ?rs" using entry_records_ok by (simp add: validate_entries_puts)
    have w: "writes wfb (lw_call (be_append_batch_and_sync ops (encode_each crc clock es))) (frames crc ?rs) (es \<noteq> [])
        (\<lambda>x n. x = starts n (encode_each crc clock es))"
      using writes_batch [of "encode_each crc clock es"] by (simp add: ne) (simp add: encode_each_puts)
    show "writes wfb (st_bind (lw_call (be_append_batch_and_sync ops (encode_each crc clock es)))
        (\<lambda>offsets. st_bind (publish_offset ops) (\<lambda>_. st_ret (map (\<lambda>(off, _, v, _). (off, length v)) (zip offsets es)))))
        (frames crc ?rs) (es \<noteq> []) (\<lambda>x n. all_ok ?rs)"
      by (rule writes_publish [OF w]) (rule ok)
  qed
  show ?nosync
  proof (cases "es = []")
    case True
    then show ?thesis by (auto simp: lw_write_batch_nosync_def writes_def puts_def)
  next
    case False
    show ?thesis
      unfolding lw_write_batch_nosync_def if_not_P [OF False] encode_entries_into_puts encode_all_eq append_Nil
        validate_entries_puts entries_total_len_puts
    proof (rule writes_check, rule validation_no_remnant(2), assumption, rule writes_check,
        rule validation_no_remnant(3), assumption)
      fix u total assume "validate_batch_writes (puts es) = Inr u"
      then have "all_ok ?rs" by (rule entry_records_ok)
      then show "writes wfb (st_bind (append_publishing ops (frames crc ?rs)) (\<lambda>start. st_ret (entry_offsets start es)))
          (frames crc ?rs) False (\<lambda>x n. x = entry_offsets n es \<and> all_ok ?rs)"
        by (intro writes_post [OF writes_append_publishing]) simp
    qed
  qed
qed

lemma writes_sync: "writes wfb (lw_sync ops) [] True (\<lambda>x n. True)"
proof (rule writesI)
  fix lw :: "'b log_writer" and d x lw' d'
  assume "wfb (lw_backend lw)" "lw_sync ops (lw, d) = (Inr x, (lw', d'))"
  then show "wfb (lw_backend lw') \<and> d_bytes d' = d_bytes d @ [] \<and> True \<and> (True \<longrightarrow> d_synced d' = d_bytes d')"
    using sync_Ok by (auto simp: lw_sync_def lw_call_def split: prod.splits sum.splits)
next
  fix lw :: "'b log_writer" and d e lw' d'
  assume "wfb (lw_backend lw)" "lw_sync ops (lw, d) = (Inl e, (lw', d'))"
  then show "wfb (lw_backend lw') \<and> prefix (d_bytes d) (d_bytes d') \<and>
      (\<not> remnant_possible e \<longrightarrow> d_bytes d' = d_bytes d)"
    using sync_Err by (auto simp: lw_sync_def lw_call_def split: prod.splits sum.splits)
qed

lemma writes_run_op:
  "writes wfb (run_op ops crc op) (frames crc (op_records op)) False (\<lambda>x n. all_ok (op_records op))"
proof (cases op)
  case (OpWrite now k v e)
  show ?thesis unfolding OpWrite run_op.simps by (rule writes_discard [OF writes_single(1)]) simp_all
next
  case (OpWriteSync now k v e)
  show ?thesis unfolding OpWriteSync run_op.simps by (rule writes_discard [OF writes_single(2)]) simp_all
next
  case (OpTombstone now k)
  show ?thesis unfolding OpTombstone run_op.simps by (rule writes_discard [OF writes_single(3)]) simp_all
next
  case (OpTombstoneSync now k)
  show ?thesis unfolding OpTombstoneSync run_op.simps by (rule writes_discard [OF writes_single(4)]) simp_all
next
  case (OpBatch clock es)
  show ?thesis unfolding OpBatch run_op.simps by (rule writes_discard [OF writes_batches(1)]) simp_all
next
  case (OpBatchNosync clock es)
  show ?thesis unfolding OpBatchNosync run_op.simps by (rule writes_discard [OF writes_batches(2)]) simp_all
next
  case (OpOps clock es)
  show ?thesis unfolding OpOps run_op.simps by (rule writes_discard [OF writes_ops(1)]) simp_all
next
  case (OpOpsNosync clock es)
  show ?thesis unfolding OpOpsNosync run_op.simps by (rule writes_discard [OF writes_ops(2)]) simp_all
next
  case OpSync
  show ?thesis using writes_weaken [OF writes_sync, of "\<lambda>x n. True"] by (simp add: OpSync)
qed

end

section \<open>Sequences of operations\<close>

text \<open>A run of operations: the records of those that succeeded, and whether a failed one
  reported that its rollback failed too.\<close>

fun run_ops ::
  "'b backend_ops \<Rightarrow> crc_fn \<Rightarrow> write_op list \<Rightarrow> 'b log_writer \<times> os \<Rightarrow> log_record list \<times> bool \<times> 'b log_writer \<times> os" where
  "run_ops ops crc [] s = ([], False, s)"
| "run_ops ops crc (op # rest) s =
     (case run_op ops crc op s of
        (Inr _, s') \<Rightarrow> (case run_ops ops crc rest s' of (rs, bad, s'') \<Rightarrow> (op_records op @ rs, bad, s''))
      | (Inl e, s') \<Rightarrow> (case run_ops ops crc rest s' of (rs, bad, s'') \<Rightarrow> (rs, remnant_possible e \<or> bad, s'')))"

context io_backend
begin

lemma run_ops_frames:
  assumes "wfb (lw_backend lw)" "run_ops ops crc wops (lw, d) = (rs, False, (lw', d'))"
  shows "wfb (lw_backend lw') \<and> all_ok rs \<and> d_bytes d' = d_bytes d @ frames crc rs"
  using assms
proof (induction wops arbitrary: lw d rs)
  case (Cons op wops)
  obtain r lw1 d1 where op: "run_op ops crc op (lw, d) = (r, (lw1, d1))"
    by (cases "run_op ops crc op (lw, d)") auto
  obtain rs1 bad where rest: "run_ops ops crc wops (lw1, d1) = (rs1, bad, (lw', d'))"
    using Cons.prems(2) op by (auto split: sum.splits prod.splits)
  show ?case
  proof (cases r)
    case (Inl e)
    with Cons.prems(2) op rest have "\<not> remnant_possible e" "\<not> bad" "rs = rs1" by auto
    moreover note writes_Inl [OF writes_run_op Cons.prems(1) op [unfolded Inl]]
    ultimately show ?thesis using Cons.IH [of lw1 d1 rs1] rest by simp
  next
    case (Inr u)
    with Cons.prems(2) op rest have "\<not> bad" "rs = op_records op @ rs1" by auto
    moreover note writes_Inr [OF writes_run_op Cons.prems(1) op [unfolded Inr]]
    ultimately show ?thesis using Cons.IH [of lw1 d1 rs1] rest by simp
  qed
qed simp

end

section \<open>Where a batch puts its records\<close>

fun result_offset :: "batch_write_result \<Rightarrow> nat" where
  "result_offset (PutResult off _) = off"
| "result_offset (DeleteResult off _) = off"

lemma batch_results_length [simp]: "length (batch_write_results es n) = length es"
  by (induction es n rule: batch_write_results.induct) simp_all

lemma batch_results_offset:
  "i < length es \<Longrightarrow>
     result_offset (batch_write_results es n ! i) = n + length (frames crc (take i (entry_records clock es)))"
proof (induction es arbitrary: i n clock)
  case (Cons e es)
  have len: "length (frame_bytes crc (entry_record (clock 0) e)) = batch_write_len e"
    by (rule entry_frame_length)
  show ?case
  proof (cases i)
    case 0
    then show ?thesis by (cases e) auto
  next
    case (Suc k)
    then show ?thesis
      using Cons.IH [of k "n + batch_write_len e" "\<lambda>i. clock (Suc i)"] Cons.prems len by (cases e) auto
  qed
qed simp

lemma pread_in_frames:
  assumes "all_ok rs" "i < length rs" "length (bs @ frames crc rs) \<le> U64_MAX"
  shows "pread_record crc (good_file (bs @ frames crc rs)) (length bs + length (frames crc (take i rs))) = Inr (Some (rs ! i))"
proof -
  have "rs = take i rs @ rs ! i # drop (Suc i) rs" using assms(2) by (rule id_take_nth_drop)
  then have split: "frames crc rs = frames crc (take i rs) @ frame_bytes crc (rs ! i) @ frames crc (drop (Suc i) rs)"
    by (metis concat.simps(2) concat_append list.simps(9) map_append)
  have "drop (length bs + length (frames crc (take i rs))) (bs @ frames crc rs) =
      frame_bytes crc (rs ! i) @ frames crc (drop (Suc i) rs)"
    by (subst split) simp
  moreover have "record_ok (rs ! i)" using assms(1,2) by (simp add: list_all_length)
  ultimately show ?thesis using assms(3) by (subst pread_record_Some) auto
qed

section \<open>A device that never fails\<close>

definition calm_os :: "bytes \<Rightarrow> os" where
  "calm_os bs = \<lparr>d_bytes = bs, d_synced = bs, d_poisoned = False, d_script = []\<rparr>"

lemma write_loop_calm: "d_script d = [] \<Longrightarrow> write_loop data d = (Inr (), [], d\<lparr>d_bytes := d_bytes d @ data\<rparr>)"
  by (simp add: write_loop.simps [of data] write_loop.simps [of "[]"] os_write_def)

lemma os_calm:
  assumes "d_script d = []"
  shows "os_len d = (Inr (length (d_bytes d)), d)" "os_sync d = (Inr (), d\<lparr>d_synced := d_bytes d\<rparr>)"
  using assms by (simp_all add: os_len_def os_sync.simps)

lemma sb_batch_calm:
  assumes "wf_backend b" "d_script d = []" "\<not> d_poisoned d" "length (d_bytes d) + length data \<le> U64_MAX"
  shows "\<exists>b'. sb_append_batch_and_sync [data] (b, d) =
    (Inr [length (d_bytes d)], (b', d\<lparr>d_bytes := d_bytes d @ data, d_synced := d_bytes d @ data\<rparr>))"
proof -
  have buf: "bw_buf (sb_writer b) = []" and cap: "bw_capacity (sb_writer b) > 0"
    using assms(1) by (auto simp: wf_backend_def wf_sync_def)
  have chk: "checked_append_end (length (d_bytes d)) (length data) = Inr (length (d_bytes d) + length data)"
    using assms(4) by (simp add: checked_append_end_def checked_add64_def)
  note defs = sb_append_batch_and_sync_def st_bind_def lock_append_def sb_os_def os_calm finish_append_def
    sb_step_def flush_buf_def write_loop_calm bw_write_all_def bw_fill_def bw_direct_def Let_def
  show ?thesis
  proof (cases "length data < bw_capacity (sb_writer b)")
    case True
    then show ?thesis using assms buf chk by (simp add: defs)
  next
    case False
    then show ?thesis using assms buf chk cap by (simp add: defs)
  qed
qed

lemma batch_total_len_eq:
  "acc + length (frames crc (entry_records clock es)) \<le> U64_MAX \<Longrightarrow>
     batch_total_len acc es = Inr (acc + length (frames crc (entry_records clock es)))"
proof (induction es arbitrary: acc clock)
  case (Cons e es)
  let ?n = "length (frame_bytes crc (entry_record (clock 0) e))"
  have "checked_add64 acc (batch_write_len e) = Some (acc + ?n)"
    using Cons.prems by (simp add: checked_add64_def entry_frame_length)
  then show ?case using Cons.IH [of "acc + ?n" "\<lambda>i. clock (Suc i)"] Cons.prems by simp
qed simp

lemma ops_batch_calm:
  assumes "wf_backend (lw_backend lw)" "d_script d = []" "\<not> d_poisoned d" "es \<noteq> []"
    and "validate_batch_writes es = Inr ()"
    and "length (d_bytes d) + length (frames crc (entry_records clock es)) \<le> U64_MAX"
  defines "bs \<equiv> frames crc (entry_records clock es)"
  shows "\<exists>lw'. lw_write_ops_batch sync_ops crc clock es (lw, d) =
    (Inr (batch_write_results es (length (d_bytes d))),
     (lw', d\<lparr>d_bytes := d_bytes d @ bs, d_synced := d_bytes d @ bs\<rparr>))"
proof -
  obtain b' where b': "sb_append_batch_and_sync [bs] (lw_backend lw, d) =
      (Inr [length (d_bytes d)], (b', d\<lparr>d_bytes := d_bytes d @ bs, d_synced := d_bytes d @ bs\<rparr>))"
    using sb_batch_calm [OF assms(1-3), of bs] assms(6) bs_def by blast
  have enc: "encode_batch_writes crc clock es = Inr bs"
    using batch_total_len_eq [of 0 crc clock es] assms(6)
    by (simp add: encode_batch_writes_def encode_all_eq bs_def)
  show ?thesis
    using assms(4,5) b'
    by (simp add: lw_write_ops_batch_def enc lw_call_def be_append_and_sync_def sync_ops_def publish_offset_def st_bind_def)
qed

section \<open>Properties\<close>


definition sample_backend :: sync_backend where
  "sample_backend = \<lparr>sb_writer = \<lparr>bw_buf = [], bw_capacity = 8192\<rparr>, sb_offset = 0\<rparr>"

lemma sample_backend_wf [simp]: "wf_backend sample_backend"
  by (simp add: sample_backend_def wf_backend_def wf_sync_def)

text \<open>A first write whose \<^verbatim>\<open>write\<close> call accepts five bytes and then fails is rolled back; the
  second one succeeds.\<close>

definition sample_os :: os where
  "sample_os = \<lparr>d_bytes = [], d_synced = [], d_poisoned = False,
     d_script = [Done 0, Intr, Done 5, Fail ''EIO'', Done 0, Done 0]\<rparr>"

lemma sample_run:
  "\<exists>s. run_ops sync_ops sum_crc [OpWrite 7 [107] [1] 0, OpWrite 7 [107] [118, 119] 0]
     (lw_open sync_ops sample_backend 1, sample_os) = ([sample_record], False, s)"
proof -
  have b: "bw_buf (sb_writer sample_backend) = []" "bw_capacity (sb_writer sample_backend) = 8192"
    by (simp_all add: sample_backend_def)
  note io = st_bind_def lock_append_def sb_os_def os_len_def finish_append_def sb_step_def flush_buf_def
    bw_write_all_def bw_fill_def Let_def checked_append_end_def checked_add64_def U64_MAX_def
    rollback_locked_def os_set_len.simps os_sync.simps os_write_def
  have loop: "write_loop data d = (if data = [] then (Inr (), [], d)
      else case os_write data d of
        (Inr n, d') \<Rightarrow> if n = 0 then (Inl WriteZero, data, d') else write_loop (drop n data) d'
      | (Inl Interrupted, d') \<Rightarrow> write_loop data d'
      | (Inl e, d') \<Rightarrow> (Inl e, data, d'))" for data d
    by (rule write_loop.simps)
  show ?thesis
    by (simp add: discard_def lw_write_def validate_kv_sizes_def encode_record_def encode_record_into_eq
        lw_call_def lw_open_def publish_offset_def sync_ops_def sb_append_def io b sample_os_def loop
        sample_record_def frame_length value_bytes_def write_loop_calm frame_bytes_def frame_body_def frame_fields_def)
qed


text \<open>C9.  The offsets a batch returns are the offsets of its records.  When a mixed put/delete
  batch returns success, it is on stable storage, it returns one result per entry, and a
  positional read at each returned offset yields exactly the record of that entry.\<close>

theorem batch_results_readable:
  assumes "wf_backend (lw_backend lw)" "es \<noteq> []"
    and "lw_write_ops_batch sync_ops crc clock es (lw, d) = (Inr res, (lw', d'))"
    and "length (d_bytes d') \<le> U64_MAX"
  shows "d_synced d' = d_bytes d' \<and> length res = length es \<and>
     (\<forall>i < length es. pread_record crc (good_file (d_bytes d')) (result_offset (res ! i))
        = Inr (Some (entry_record (clock i) (es ! i))))"
proof -
  note w = writes_Inr [OF sync.writes_ops(1) assms(1,3)]
  from w(3) have res: "res = batch_write_results es (length (d_bytes d))" and ok: "all_ok (entry_records clock es)"
    by blast+
  have "pread_record crc (good_file (d_bytes d')) (result_offset (res ! i))
        = Inr (Some (entry_record (clock i) (es ! i)))" if "i < length es" for i
    using pread_in_frames [OF ok, of i "d_bytes d" crc] that assms(4)
    by (simp add: res batch_results_offset [of i es _ crc clock] entry_records_nth w(2))
  then show ?thesis using w(4) assms(2) res by simp
qed

text \<open>C18.  Writes succeed when the device does.  On a healthy device (no system call fails, the
  append lock is not poisoned) a mixed batch whose entries pass the size checks and whose
  bytes fit the 64-bit file offset returns success.\<close>

theorem batch_succeeds_when_calm:
  assumes "wf_backend (lw_backend lw)" "d_script d = []" "\<not> d_poisoned d"
    and "validate_batch_writes es = Inr ()"
    and "length (d_bytes d) + length (frames crc (entry_records clock es)) \<le> U64_MAX"
  shows "\<exists>s. lw_write_ops_batch sync_ops crc clock es (lw, d) = (Inr (batch_write_results es (length (d_bytes d))), s)"
proof (cases "es = []")
  case True
  then show ?thesis by (simp add: lw_write_ops_batch_def)
next
  case False
  then show ?thesis using ops_batch_calm [OF assms(1-3) False assms(4,5)] by blast
qed

lemma sample_batch_fits:
  "length (frames sum_crc (entry_records (\<lambda>i. 7) [Put [107] [118, 119] 0, Delete [107]])) = 56"
  by (simp add: frame_length value_bytes_def)

theorem batch_succeeds_when_calm_witness:
  "\<exists>s. lw_write_ops_batch sync_ops sum_crc (\<lambda>i. 7) [Put [107] [118, 119] 0, Delete [107]]
     (lw_open sync_ops sample_backend 1, calm_os []) = (Inr [PutResult 0 2, DeleteResult 29 27], s)"
  using batch_succeeds_when_calm [of "lw_open sync_ops sample_backend 1" "calm_os []"
      "[Put [107] [118, 119] 0, Delete [107]]" sum_crc "\<lambda>i. 7"] sample_batch_fits
  by (simp add: lw_open_def calm_os_def validate_kv_sizes_def U64_MAX_def record_len_def flip: numeral_2_eq_2)

theorem batch_results_readable_witness:
  "\<exists>d :: os. d_synced d = d_bytes d \<and> pread_record sum_crc (good_file (d_bytes d)) 29 = Inr (Some (entry_record 7 (Delete [107])))"
proof -
  let ?es = "[Put [107] [118, 119] 0, Delete [107]]" and ?lw = "lw_open sync_ops sample_backend 1"
  have "wf_backend (lw_backend ?lw)" "d_script (calm_os []) = []" "\<not> d_poisoned (calm_os [])"
    "validate_batch_writes ?es = Inr ()"
    by (simp_all add: lw_open_def calm_os_def validate_kv_sizes_def)
  then obtain lw where run: "lw_write_ops_batch sync_ops sum_crc (\<lambda>i. 7) ?es (?lw, calm_os []) =
      (Inr (batch_write_results ?es 0), (lw, calm_os (frames sum_crc (entry_records (\<lambda>i. 7) ?es))))"
    using ops_batch_calm [of ?lw "calm_os []" ?es sum_crc "\<lambda>i. 7"] sample_batch_fits
    by (auto simp: calm_os_def U64_MAX_def)
  have len: "length (d_bytes (calm_os (frames sum_crc (entry_records (\<lambda>i. 7) ?es)))) \<le> U64_MAX"
    using sample_batch_fits by (simp add: calm_os_def U64_MAX_def)
  have "\<forall>i < length ?es. pread_record sum_crc (good_file (d_bytes (calm_os (frames sum_crc (entry_records (\<lambda>i. 7) ?es)))))
      (result_offset (batch_write_results ?es 0 ! i)) = Inr (Some (entry_record 7 (?es ! i)))"
    using batch_results_readable [OF _ _ run len] by (simp add: lw_open_def)
  then have "pread_record sum_crc (good_file (d_bytes (calm_os (frames sum_crc (entry_records (\<lambda>i. 7) ?es)))))
      (result_offset (batch_write_results ?es 0 ! 1)) = Inr (Some (entry_record 7 (?es ! 1)))"
    by (metis One_nat_def length_Cons lessI list.size(3))
  then show ?thesis
    by (intro exI [of _ "calm_os (frames sum_crc (entry_records (\<lambda>i. 7) ?es))"]) (simp add: calm_os_def record_len_def)
qed

end
