(* ===== verification/Log_Copy.thy ===== *)
theory Log_Copy
  imports Log_Writer
begin

text \<open>
  The raw copy of one record that compaction uses (\<^verbatim>\<open>copy_record_raw\<close>, \<^verbatim>\<open>copy_hashed_range\<close>
  and the public wrappers, \<^verbatim>\<open>src/sections/log_part_03.rs\<close>).  The record is streamed chunk by
  chunk into the destination log while its checksum is computed, and the destination is
  rolled back when the source turns out to be damaged.
\<close>

section \<open>Definitions\<close>

record raw_copy_result =
  rc_offset :: nat
  rc_record_size :: nat
  rc_value_size :: nat
  rc_is_tombstone :: bool

function copy_hashed_range ::
  "'b backend_ops \<Rightarrow> os_file \<Rightarrow> nat \<Rightarrow> nat \<Rightarrow> bytes \<Rightarrow> string \<Rightarrow> ('b, bytes) lw_step" where
  "copy_hashed_range ops f read_offset remaining hasher label =
     (if remaining > 0 then
        let chunk_len = min remaining STREAM_READ_CHUNK_SIZE in
        st_bind (st_lift (bind_res (read_exact_at_or_eof f chunk_len read_offset label)
                   (\<lambda>m. ok_or m (ShortRead label chunk_len 0)))) (\<lambda>chunk.
        st_bind (lw_write_raw ops chunk) (\<lambda>_.
        st_bind (st_lift (ok_or (checked_add64 read_offset chunk_len) (LengthOverflow label))) (\<lambda>read_offset'.
        copy_hashed_range ops f read_offset' (remaining - chunk_len) (hasher @ chunk) label)))
      else st_ret hasher)"
  by pat_completeness auto
termination
  by (relation "measure (\<lambda>(ops, f, read_offset, remaining, hasher, label). remaining)")
    (auto simp: STREAM_READ_CHUNK_SIZE_def)

declare copy_hashed_range.simps [simp del]

text \<open>The body of a copy, once the header has been appended.\<close>

definition copy_record_body ::
  "'b backend_ops \<Rightarrow> crc_fn \<Rightarrow> os_file \<Rightarrow> nat \<Rightarrow> bytes \<Rightarrow> nat \<Rightarrow> bool \<Rightarrow> ('b, unit) lw_step" where
  "copy_record_body ops crc f offset header value_size is_tombstone =
     st_bind (st_lift (ok_or (checked_add64 offset HEADER_SIZE) (LengthOverflow ''raw copy key offset overflow''))) (\<lambda>key_offset.
     st_bind (copy_hashed_range ops f key_offset (h_key_size (parse_header header)) (drop 4 header) ''key'') (\<lambda>hasher.
     st_bind (if is_tombstone then st_ret hasher
              else st_bind (st_lift (ok_or (checked_add64 key_offset (h_key_size (parse_header header)))
                                       (LengthOverflow ''raw copy value offset overflow''))) (\<lambda>value_offset.
                   copy_hashed_range ops f value_offset value_size hasher ''value'')) (\<lambda>hasher.
     let computed = crc hasher; stored = h_crc (parse_header header) in
     st_lift (if computed \<noteq> stored then Inl (CrcMismatch stored computed) else Inr ()))))"

definition copy_record_raw ::
  "'b backend_ops \<Rightarrow> crc_fn \<Rightarrow> os_file \<Rightarrow> nat \<Rightarrow> bool \<Rightarrow> ('b, raw_copy_result option) lw_step" where
  "copy_record_raw ops crc f offset copy_tombstone =
     st_bind (st_lift (read_exact_at_or_eof f HEADER_SIZE offset ''header'')) (\<lambda>m.
     case m of None \<Rightarrow> st_ret None | Some header \<Rightarrow>
       let h = parse_header header; is_tombstone = (h_value_size_raw h = TOMBSTONE) in
       st_bind (st_lift (decoded_value_size (h_value_size_raw h) is_tombstone)) (\<lambda>value_size.
       if is_tombstone \<and> \<not> copy_tombstone then
         st_bind (st_lift (ok_or (checked_add64 offset HEADER_SIZE)
                             (LengthOverflow ''skipped tombstone key offset overflow''))) (\<lambda>key_offset.
         st_bind (st_lift (read_part f (h_key_size h) (Some key_offset) [] ''tombstone key'')) (\<lambda>key.
         let computed = crc (drop 4 header @ key) in
         st_lift (if computed \<noteq> h_crc h then Inl (CrcMismatch (h_crc h) computed) else Inr None)))
       else
         st_bind (st_lift (checked_record_body_len (h_key_size h) value_size)) (\<lambda>body_len.
         st_bind (st_lift (check_large_body f offset body_len)) (\<lambda>_.
         st_bind (lw_write_raw ops header) (\<lambda>new_offset s.
         case copy_record_body ops crc f offset header value_size is_tombstone s of
           (Inr _, s') \<Rightarrow>
             (Inr (Some \<lparr>rc_offset = new_offset, rc_record_size = HEADER_SIZE + body_len,
                         rc_value_size = value_size, rc_is_tombstone = is_tombstone\<rparr>), s')
         | (Inl cause, s') \<Rightarrow>
             (case lw_rollback_to ops new_offset s' of
                (Inr _, s'') \<Rightarrow> (Inl cause, s'')
              | (Inl rollback, s'') \<Rightarrow> (Inl (CopyRollbackFailed cause rollback), s'')))))))"

definition copy_live_record_raw ::
  "'b backend_ops \<Rightarrow> crc_fn \<Rightarrow> os_file \<Rightarrow> nat \<Rightarrow> ('b, raw_copy_result) lw_step" where
  "copy_live_record_raw ops crc f offset =
     st_bind (copy_record_raw ops crc f offset False) (\<lambda>m. st_lift (ok_or m (NotALiveRecord offset)))"

section \<open>A copy is the record or nothing\<close>

context io_backend
begin

lemma writes_raw: "writes wfb (lw_write_raw ops data) data False (\<lambda>x n. x = n)"
  unfolding lw_write_raw_def by (rule writes_publish [OF writes_append])

lemma copy_hashed_range_result:
  assumes "wfb (lw_backend lw)" "copy_hashed_range ops f off n hasher label (lw, d) = (r, (lw', d'))"
  shows "wfb (lw_backend lw') \<and> prefix (d_bytes d) (d_bytes d') \<and>
     (\<forall>h. r = Inr h \<longrightarrow> (\<exists>bs. length bs = n \<and> prefix bs (drop off (readable f)) \<and> h = hasher @ bs
        \<and> d_bytes d' = d_bytes d @ bs))"
  using assms
proof (induction n arbitrary: off hasher lw d rule: less_induct)
  case (less n)
  show ?case
  proof (cases "n = 0")
    case True
    then show ?thesis using less.prems by (auto simp: copy_hashed_range.simps)
  next
    case False
    define k where "k = min n STREAM_READ_CHUNK_SIZE"
    have k: "0 < k" "k \<le> n" using False by (simp_all add: k_def STREAM_READ_CHUNK_SIZE_def)
    define chk where "chk = bind_res (read_exact_at_or_eof f k off label) (\<lambda>m. ok_or m (ShortRead label k 0))"
    have eq: "copy_hashed_range ops f off n hasher label =
        st_bind (st_lift chk) (\<lambda>chunk. st_bind (lw_write_raw ops chunk) (\<lambda>_.
        st_bind (st_lift (ok_or (checked_add64 off k) (LengthOverflow label))) (\<lambda>off'.
        copy_hashed_range ops f off' (n - k) (hasher @ chunk) label)))"
      using False by (subst copy_hashed_range.simps) (simp add: Let_def k_def chk_def)
    show ?thesis
    proof (cases chk)
      case (Inl e)
      then have "st_lift chk (lw, d) = (Inl e, (lw, d))" by simp
      then show ?thesis using less.prems unfolding eq by auto
    next
      case (Inr chunk)
      then have chunk: "length chunk = k" "prefix chunk (drop off (readable f))"
        by (auto simp: chk_def bind_res_Inr ok_or_Inr read_exact_at_or_eof_Some)
      obtain r1 lw1 d1 where w: "lw_write_raw ops chunk (lw, d) = (r1, (lw1, d1))"
        by (cases "lw_write_raw ops chunk (lw, d)") auto
      show ?thesis
      proof (cases r1)
        case (Inl e)
        have "copy_hashed_range ops f off n hasher label (lw, d) = (Inl e, (lw1, d1))"
          unfolding eq using Inr w Inl by (simp add: st_bind_def)
        then show ?thesis
          using less.prems writes_Inl [OF writes_raw less.prems(1) w [unfolded Inl]] by auto
      next
        case (Inr x)
        note ok = writes_Inr [OF writes_raw less.prems(1) w [unfolded Inr]]
        show ?thesis
        proof (cases "checked_add64 off k")
          case None
          then have "r = Inl (LengthOverflow label)" "lw' = lw1" "d' = d1"
            using less.prems(2) \<open>chk = Inr chunk\<close> w Inr unfolding eq by (auto simp: st_bind_def)
          then show ?thesis using ok by simp
        next
          case (Some off')
          then have off': "off' = off + k" by (simp add: checked_add64_Some)
          have "copy_hashed_range ops f off' (n - k) (hasher @ chunk) label (lw1, d1) = (r, (lw', d'))"
            using less.prems(2) \<open>chk = Inr chunk\<close> w Inr Some unfolding eq by (simp add: st_bind_def)
          from less.IH [OF _ ok(1) this] k
          have IH: "wfb (lw_backend lw')" "prefix (d_bytes d1) (d_bytes d')"
            "\<And>h. r = Inr h \<Longrightarrow> \<exists>bs. length bs = n - k \<and> prefix bs (drop off' (readable f)) \<and>
               h = (hasher @ chunk) @ bs \<and> d_bytes d' = d_bytes d1 @ bs" by auto
          have "\<exists>bs. length bs = n \<and> prefix bs (drop off (readable f)) \<and> h = hasher @ bs \<and> d_bytes d' = d_bytes d @ bs"
            if "r = Inr h" for h
          proof -
            from IH(3) [OF that] obtain bs where "length bs = n - k" "prefix bs (drop off' (readable f))"
              "h = (hasher @ chunk) @ bs" "d_bytes d' = d_bytes d1 @ bs" by blast
            then show ?thesis
              using chunk k ok(2) off' by (intro exI [of _ "chunk @ bs"]) (simp add: prefix_chain)
          qed
          moreover have "prefix (d_bytes d) (d_bytes d')"
            using IH(2) ok(2) by (auto simp: prefix_def)
          ultimately show ?thesis using IH(1) by blast
        qed
      qed
    qed
  qed
qed

lemma copy_record_body_result:
  assumes "wfb (lw_backend lw)" "copy_record_body ops crc f off header vs tomb (lw, d) = (r, (lw', d'))"
  shows "wfb (lw_backend lw') \<and> prefix (d_bytes d) (d_bytes d') \<and>
     (\<forall>u. r = Inr u \<longrightarrow> (\<exists>key vl. length key = h_key_size (parse_header header) \<and>
        length vl = (if tomb then 0 else vs) \<and> prefix (key @ vl) (drop (off + 26) (readable f)) \<and>
        crc (drop 4 header @ key @ vl) = h_crc (parse_header header) \<and> d_bytes d' = d_bytes d @ key @ vl))"
proof (cases "checked_add64 off 26")
  case None
  then show ?thesis using assms by (auto simp: copy_record_body_def st_bind_def)
next
  case (Some ko)
  let ?h = "parse_header header"
  have ko: "ko = off + 26" using Some by (simp add: checked_add64_Some)
  obtain r1 lw1 d1 where kc: "copy_hashed_range ops f ko (h_key_size ?h) (drop 4 header) ''key'' (lw, d) = (r1, (lw1, d1))"
    by (cases "copy_hashed_range ops f ko (h_key_size ?h) (drop 4 header) ''key'' (lw, d)") auto
  note k = copy_hashed_range_result [OF assms(1) kc]
  show ?thesis
  proof (cases r1)
    case (Inl e)
    then show ?thesis using assms(2) Some kc k by (auto simp: copy_record_body_def st_bind_def)
  next
    case (Inr h1)
    with k obtain key where key: "length key = h_key_size ?h" "prefix key (drop ko (readable f))"
      "h1 = drop 4 header @ key" "d_bytes d1 = d_bytes d @ key" by blast
    show ?thesis
    proof (cases tomb)
      case True
      then have "(lw', d') = (lw1, d1)" "r = (if crc h1 \<noteq> h_crc ?h then Inl (CrcMismatch (h_crc ?h) (crc h1)) else Inr ())"
        using assms(2) Some kc Inr by (auto simp: copy_record_body_def st_bind_def Let_def)
      then show ?thesis
        using k key True ko by (auto intro!: exI [of _ key] split: if_splits)
    next
      case False
      show ?thesis
      proof (cases "checked_add64 ko (h_key_size ?h)")
        case None
        then show ?thesis
          using assms(2) Some kc Inr False k by (auto simp: copy_record_body_def st_bind_def Let_def)
      next
        case vo: (Some vo)
        obtain r2 lw2 d2 where vc: "copy_hashed_range ops f vo vs h1 ''value'' (lw1, d1) = (r2, (lw2, d2))"
          by (cases "copy_hashed_range ops f vo vs h1 ''value'' (lw1, d1)") auto
        have b1: "wfb (lw_backend lw1)" using k by blast
        note v = copy_hashed_range_result [OF b1 vc]
        have pre: "prefix (d_bytes d) (d_bytes d2)" using v k by (auto intro: prefix_order.trans)
        have out: "(lw', d') = (lw2, d2)"
          "r = bind_res r2 (\<lambda>h. if crc h \<noteq> h_crc ?h then Inl (CrcMismatch (h_crc ?h) (crc h)) else Inr ())"
          using assms(2) Some kc Inr False vo vc
          by (cases r2; auto simp: copy_record_body_def st_bind_def Let_def)+
        have "\<exists>key vl. length key = h_key_size ?h \<and> length vl = vs \<and> prefix (key @ vl) (drop (off + 26) (readable f)) \<and>
            crc (drop 4 header @ key @ vl) = h_crc ?h \<and> d_bytes d2 = d_bytes d @ key @ vl" if ok: "r = Inr u" for u
        proof -
          from ok out(2) obtain h2 where h2: "r2 = Inr h2" "crc h2 = h_crc ?h"
            by (auto simp: bind_res_Inr split: if_splits)
          with v obtain vl where "length vl = vs" "prefix vl (drop vo (readable f))" "h2 = h1 @ vl"
            "d_bytes d2 = d_bytes d1 @ vl" by blast
          moreover have "vo = off + 26 + length key" using vo key(1) ko by (simp add: checked_add64_Some)
          ultimately show ?thesis
            using key h2(2) ko by (intro exI [of _ key] exI [of _ vl]) (simp add: prefix_chain)
        qed
        then show ?thesis using out(1) v pre False by simp
      qed
    qed
  qed
qed

lemma rollback_copy:
  assumes "wfb (lw_backend lw)" "lw_rollback_to ops n (lw, d) = (r, (lw', d'))" "n \<le> length (d_bytes d)"
  shows "wfb (lw_backend lw') \<and> (d_bytes d' = d_bytes d \<or> d_bytes d' = take n (d_bytes d)) \<and>
    (is_ok r \<longrightarrow> d_bytes d' = take n (d_bytes d))"
proof -
  obtain r1 b1 d1 where rb: "be_rollback_to ops n (lw_backend lw, d) = (r1, (b1, d1))"
    by (cases "be_rollback_to ops n (lw_backend lw, d)") auto
  show ?thesis
  proof (cases r1)
    case (Inl e)
    then have "lw_backend lw' = b1" "d' = d1" "\<not> is_ok r"
      using assms(2) rb by (auto simp: lw_rollback_to_def st_bind_def lw_call_def)
    then show ?thesis using rollback_Err [OF assms(1) rb [unfolded Inl] assms(3)] by simp
  next
    case (Inr u)
    then have "lw_backend lw' = b1" "d' = d1"
      using assms(2) rb by (auto simp: lw_rollback_to_def st_bind_def lw_call_def)
    then show ?thesis using rollback_Ok [OF assms(1) rb [unfolded Inr] assms(3)] by simp
  qed
qed

text \<open>The part of a copy that writes: header, body, and the rollback when the body fails.\<close>

lemma copy_written:
  assumes b: "wfb (lw_backend lw)" and hlen: "length header = 26"
    and hpre: "prefix header (drop offset (readable f))"
    and tomb: "tomb \<longleftrightarrow> h_value_size_raw (parse_header header) = TOMBSTONE"
    and vs: "decoded_value_size (h_value_size_raw (parse_header header)) tomb = Inr vs"
    and run: "st_bind (lw_write_raw ops header) (\<lambda>new_offset s.
         case copy_record_body ops crc f offset header vs tomb s of
           (Inr _, s') \<Rightarrow> (Inr (Some (g new_offset)), s')
         | (Inl cause, s') \<Rightarrow>
             (case lw_rollback_to ops new_offset s' of
                (Inr _, s'') \<Rightarrow> (Inl cause, s'')
              | (Inl rollback, s'') \<Rightarrow> (Inl (CopyRollbackFailed cause rollback), s''))) (lw, d) = (r, (lw', d'))"
  shows "wfb (lw_backend lw') \<and> prefix (d_bytes d) (d_bytes d') \<and> r \<noteq> Inr None \<and>
     (\<forall>res. r = Inr (Some res) \<longrightarrow> res = g (length (d_bytes d)) \<and>
        (\<exists>rec. record_ok rec \<and> prefix (frame_bytes crc rec) (drop offset (readable f)) \<and>
           d_bytes d' = d_bytes d @ frame_bytes crc rec \<and> length (value_bytes rec) = vs \<and>
           length (rkey rec) = h_key_size (parse_header header) \<and> (rvalue rec = None \<longleftrightarrow> tomb))) \<and>
     (\<forall>e. r = Inl e \<and> \<not> remnant_possible e \<longrightarrow> d_bytes d' = d_bytes d)"
proof -
  obtain r1 lw1 d1 where w: "lw_write_raw ops header (lw, d) = (r1, (lw1, d1))"
    by (cases "lw_write_raw ops header (lw, d)") auto
  show ?thesis
  proof (cases r1)
    case (Inl e)
    then show ?thesis
      using run w writes_Inl [OF writes_raw b w [unfolded Inl]] by (auto simp: st_bind_def)
  next
    case (Inr n)
    note ok = writes_Inr [OF writes_raw b w [unfolded Inr]]
    obtain r2 lw2 d2 where body: "copy_record_body ops crc f offset header vs tomb (lw1, d1) = (r2, (lw2, d2))"
      by (cases "copy_record_body ops crc f offset header vs tomb (lw1, d1)") auto
    note bd = copy_record_body_result [OF ok(1) body]
    have pre: "prefix (d_bytes d) (d_bytes d2)" using bd ok(2) by (auto simp: prefix_def)
    show ?thesis
    proof (cases r2)
      case (Inl cause)
      obtain r3 where rb: "lw_rollback_to ops n (lw2, d2) = (r3, (lw', d'))"
        and r: "r = (if is_ok r3 then Inl cause else r)" "\<not> is_ok r3 \<longrightarrow> (\<exists>rb. r = Inl (CopyRollbackFailed cause rb))"
        using run w Inr body Inl
        by (auto simp: st_bind_def is_ok_def split: prod.splits sum.splits)
      have n: "n = length (d_bytes d)" "n \<le> length (d_bytes d2)"
        using ok(3) pre by (auto dest: prefix_length_le)
      have tk: "take n (d_bytes d2) = d_bytes d" using pre n(1) by (auto simp: prefix_def)
      have b2: "wfb (lw_backend lw2)" using bd by blast
      note rr = rollback_copy [OF b2 rb n(2), unfolded tk]
      show ?thesis
        using rr r pre by (cases "is_ok r3") auto
    next
      case (Inr u)
      have out: "r = Inr (Some (g n))" "(lw', d') = (lw2, d2)"
        using run w \<open>r1 = Inr n\<close> body Inr by (auto simp: st_bind_def)
      from bd Inr obtain key vl where kv: "length key = h_key_size (parse_header header)"
        "length vl = (if tomb then 0 else vs)" "prefix (key @ vl) (drop (offset + 26) (readable f))"
        "crc (drop 4 header @ key @ vl) = h_crc (parse_header header)" "d_bytes d2 = d_bytes d1 @ key @ vl" by blast
      have vl: "length vl = vs" "tomb \<longrightarrow> vl = []" using kv(2) vs by (auto simp: decoded_value_size_def)
      let ?rec = "\<lparr>timestamp_ms = h_timestamp_ms (parse_header header), expire_at_ms = h_expire_at_ms (parse_header header),
                 rkey = key, rvalue = (if tomb then None else Some vl)\<rparr>"
      have "record_ok ?rec \<and> frame_bytes crc ?rec = header @ key @ vl"
        using kv vl vs by (intro frame_of_parts [OF hlen kv(1) tomb _ _ refl]) auto
      moreover have "d_bytes d2 = d_bytes d @ header @ key @ vl" using kv(5) ok(2) by simp
      moreover have "prefix (header @ key @ vl) (drop offset (readable f))"
        using kv(3) hpre hlen by (simp add: prefix_chain)
      moreover have "length (value_bytes ?rec) = vs" "rvalue ?rec = None \<longleftrightarrow> tomb"
        using vl by (auto simp: value_bytes_def)
      ultimately have "\<exists>rec. record_ok rec \<and> prefix (frame_bytes crc rec) (drop offset (readable f)) \<and>
           d_bytes d2 = d_bytes d @ frame_bytes crc rec \<and> length (value_bytes rec) = vs \<and>
           length (rkey rec) = h_key_size (parse_header header) \<and> (rvalue rec = None \<longleftrightarrow> tomb)"
        using kv(1) by (intro exI [of _ ?rec]) simp
      then show ?thesis using out bd pre ok(3) by auto
    qed
  qed
qed

end

lemma header_eof:
  assumes "read_exact_at_or_eof f n offset label = Inr None"
  shows "file_len f \<le> offset"
proof -
  have "read_full f offset n = Eof []"
    using assms by (auto simp: read_exact_at_or_eof_def split: read_outcome.splits if_splits)
  then show ?thesis
    using readable_not_faulty [of f] by (auto simp: read_full_def Let_def file_len_def split: if_splits)
qed

lemma tombstone_frame:
  assumes hlen: "length header = 26" and "prefix header (drop offset (readable f))"
    and key: "length key = h_key_size (parse_header header)"
    and "h_value_size_raw (parse_header header) = TOMBSTONE" "prefix key (drop (offset + 26) (readable f))"
    and "crc (drop 4 header @ key) = h_crc (parse_header header)"
  shows "\<exists>rec. record_ok rec \<and> rvalue rec = None \<and> prefix (frame_bytes crc rec) (drop offset (readable f))"
proof -
  let ?rec = "\<lparr>timestamp_ms = h_timestamp_ms (parse_header header),
     expire_at_ms = h_expire_at_ms (parse_header header), rkey = key, rvalue = None\<rparr>"
  have "record_ok ?rec \<and> frame_bytes crc ?rec = header @ key @ []"
    using assms by (intro frame_of_parts [OF hlen key, of True]) auto
  then show ?thesis using assms(2,5) hlen by (intro exI [of _ ?rec]) (simp add: prefix_chain)
qed

section \<open>The cases of a copy\<close>

abbreviation tombstone_header :: "bytes \<Rightarrow> bool" where
  "tombstone_header header \<equiv> h_value_size_raw (parse_header header) = TOMBSTONE"

lemma skip_run:
  assumes "length header = 26" "prefix header (drop offset (readable f))" "tombstone_header header"
    and run: "st_bind (st_lift (ok_or (checked_add64 offset HEADER_SIZE) e1)) (\<lambda>key_offset.
         st_bind (st_lift (read_part f (h_key_size (parse_header header)) (Some key_offset) [] ''tombstone key'')) (\<lambda>key.
         let computed = crc (drop 4 header @ key) in
         st_lift (if computed \<noteq> h_crc (parse_header header) then Inl (CrcMismatch (h_crc (parse_header header)) computed)
                  else Inr None))) s = (r, s')"
  shows "s' = s \<and> (\<forall>m. r = Inr m \<longrightarrow> m = None
    \<and> (\<exists>rec. record_ok rec \<and> rvalue rec = None \<and> prefix (frame_bytes crc rec) (drop offset (readable f))))"
proof -
  have "s' = s" and skip: "\<And>m. r = Inr m \<Longrightarrow> m = None \<and> (\<exists>key. read_part f (h_key_size (parse_header header)) (Some (offset + 26)) [] ''tombstone key'' = Inr key
      \<and> crc (drop 4 header @ key) = h_crc (parse_header header))"
    using run by (auto simp: st_bind_def Let_def checked_add64_Some ok_or_Inr split: sum.splits if_splits)
  moreover have "\<exists>rec. record_ok rec \<and> rvalue rec = None \<and> prefix (frame_bytes crc rec) (drop offset (readable f))"
    if "r = Inr m" for m
    using skip [OF that] tombstone_frame [OF assms(1,2) _ assms(3)] unfolding read_part_Inr by blast
  ultimately show ?thesis by blast
qed

definition copy_writing ::
  "'b backend_ops \<Rightarrow> crc_fn \<Rightarrow> os_file \<Rightarrow> nat \<Rightarrow> bytes \<Rightarrow> nat \<Rightarrow> nat \<Rightarrow> bool \<Rightarrow> ('b, raw_copy_result option) lw_step" where
  "copy_writing ops crc f offset header vs n tomb =
     st_bind (lw_write_raw ops header) (\<lambda>new_offset s.
       case copy_record_body ops crc f offset header vs tomb s of
         (Inr _, s') \<Rightarrow> (Inr (Some \<lparr>rc_offset = new_offset, rc_record_size = HEADER_SIZE + n,
                         rc_value_size = vs, rc_is_tombstone = tomb\<rparr>), s')
       | (Inl cause, s') \<Rightarrow>
           (case lw_rollback_to ops new_offset s' of
              (Inr _, s'') \<Rightarrow> (Inl cause, s'')
            | (Inl rollback, s'') \<Rightarrow> (Inl (CopyRollbackFailed cause rollback), s'')))"

lemma copy_record_raw_cases:
  assumes run: "copy_record_raw ops crc f offset copy_tombstone s = (r, s')"
  obtains (early) e where "r = Inl e" "s' = s"
  | (ended) "r = Inr None" "s' = s" "file_len f \<le> offset"
  | (skipped) "r = Inr None" "s' = s" "\<not> copy_tombstone"
      "\<exists>rec. record_ok rec \<and> rvalue rec = None \<and> prefix (frame_bytes crc rec) (drop offset (readable f))"
  | (copying) header vs where "length header = 26" "prefix header (drop offset (readable f))"
      "decoded_value_size (h_value_size_raw (parse_header header)) (tombstone_header header) = Inr vs"
      "tombstone_header header \<longrightarrow> copy_tombstone"
      "copy_writing ops crc f offset header vs (h_key_size (parse_header header) + vs) (tombstone_header header) s = (r, s')"
proof (cases "read_exact_at_or_eof f HEADER_SIZE offset ''header''")
  case (Inl e)
  then show thesis using run early by (auto simp: copy_record_raw_def st_bind_def)
next
  case Inr': (Inr m)
  show thesis
  proof (cases m)
    case None
    then show thesis using run Inr' header_eof [of f 26 offset] ended by (auto simp: copy_record_raw_def st_bind_def)
  next
    case (Some header)
    let ?h = "parse_header header"
    have header: "length header = 26" "prefix header (drop offset (readable f))"
      using Inr' Some by (auto simp: read_exact_at_or_eof_Some)
    note start = run [unfolded copy_record_raw_def] Inr' Some
    obtain tb where tb: "(h_value_size_raw ?h = 4294967295) = tb" by blast
    show thesis
    proof (cases "decoded_value_size (h_value_size_raw ?h) (tombstone_header header)")
      case (Inl e)
      then show thesis using start early by (auto simp: Let_def)
    next
      case vs: (Inr vs)
      show thesis
      proof (cases "tombstone_header header \<and> \<not> copy_tombstone")
        case True
        then have "st_bind (st_lift (ok_or (checked_add64 offset HEADER_SIZE)
            (LengthOverflow ''skipped tombstone key offset overflow''))) (\<lambda>key_offset.
         st_bind (st_lift (read_part f (h_key_size ?h) (Some key_offset) [] ''tombstone key'')) (\<lambda>key.
         let computed = crc (drop 4 header @ key) in
         st_lift (if computed \<noteq> h_crc ?h then Inl (CrcMismatch (h_crc ?h) computed) else Inr None))) s = (r, s')"
          using start vs by (simp add: Let_def)
        from skip_run [OF header _ this] True show thesis using early skipped by (cases r) auto
      next
        case False
        show thesis
        proof (cases "bind_res (checked_record_body_len (h_key_size ?h) vs)
            (\<lambda>n. bind_res (check_large_body f offset n) (\<lambda>_. Inr n))")
          case (Inl e)
          then have "r = Inl e \<and> s' = s" using start vs False
            by (cases tb; cases copy_tombstone) (auto simp: tb Let_def bind_res_Inl)
          then show thesis using early by blast
        next
          case (Inr n)
          then have n: "checked_record_body_len (h_key_size ?h) vs = Inr n" "check_large_body f offset n = Inr ()"
            "n = h_key_size ?h + vs"
            by (auto simp: bind_res_Inr checked_record_body_len_def ok_or_Inr checked_add64_Some)
          have tc: "tombstone_header header \<longrightarrow> copy_tombstone" using False by blast
          have "copy_record_raw ops crc f offset copy_tombstone s =
              copy_writing ops crc f offset header vs (h_key_size ?h + vs) (tombstone_header header) s"
            unfolding copy_record_raw_def copy_writing_def TOMBSTONE_def using Inr' Some vs False n
            by (cases copy_tombstone) (simp_all add: Let_def)
          then show thesis using copying [OF header vs tc] run by simp
        qed
      qed
    qed
  qed
qed

context io_backend
begin

lemma copy_record_raw_result:
  assumes "wfb (lw_backend lw)"
    and "copy_record_raw ops crc f offset copy_tombstone (lw, d) = (r, (lw', d'))"
  shows "wfb (lw_backend lw') \<and> prefix (d_bytes d) (d_bytes d') \<and>
    (case r of
       Inr (Some res) \<Rightarrow> (\<exists>rec. record_ok rec \<and> prefix (frame_bytes crc rec) (drop offset (readable f)) \<and>
         d_bytes d' = d_bytes d @ frame_bytes crc rec \<and> (rvalue rec = None \<longrightarrow> copy_tombstone) \<and>
         res = \<lparr>rc_offset = length (d_bytes d), rc_record_size = length (frame_bytes crc rec),
                rc_value_size = length (value_bytes rec), rc_is_tombstone = (rvalue rec = None)\<rparr>)
     | Inr None \<Rightarrow> d_bytes d' = d_bytes d \<and>
         (file_len f \<le> offset \<or> \<not> copy_tombstone \<and>
          (\<exists>rec. record_ok rec \<and> rvalue rec = None \<and> prefix (frame_bytes crc rec) (drop offset (readable f))))
     | Inl e \<Rightarrow> remnant_possible e \<or> d_bytes d' = d_bytes d)"
  using assms(2)
proof (cases rule: copy_record_raw_cases)
  case (copying header vs)
  note w = copy_written [OF assms(1) copying(1,2) refl copying(3) copying(5) [unfolded copy_writing_def]]
  note pre = w [THEN conjunct2, THEN conjunct1] and some = w [THEN conjunct2, THEN conjunct2, THEN conjunct1]
    and copied = w [THEN conjunct2, THEN conjunct2, THEN conjunct2, THEN conjunct1, rule_format]
    and failed = w [THEN conjunct2, THEN conjunct2, THEN conjunct2, THEN conjunct2, rule_format]
  show ?thesis
  proof (cases r)
    case (Inl e)
    have "remnant_possible e \<or> d_bytes d' = d_bytes d" using failed Inl by blast
    then show ?thesis unfolding Inl sum.case by (intro conjI conjunct1 [OF w] pre)
  next
    case (Inr m)
    have "m \<noteq> None" using some Inr by simp
    then obtain res where m: "m = Some res" by blast
    note res = copied [OF Inr [unfolded m]]
    from conjunct2 [OF res] obtain rec where rec: "record_ok rec" "prefix (frame_bytes crc rec) (drop offset (readable f))"
      "d_bytes d' = d_bytes d @ frame_bytes crc rec" "length (value_bytes rec) = vs"
      "length (rkey rec) = h_key_size (parse_header header)" "rvalue rec = None \<longleftrightarrow> tombstone_header header" by (elim exE conjE) (rule that)
    have "res = \<lparr>rc_offset = length (d_bytes d), rc_record_size = length (frame_bytes crc rec),
                rc_value_size = length (value_bytes rec), rc_is_tombstone = (rvalue rec = None)\<rparr>"
      using conjunct1 [OF res] rec(4-6) by (simp add: frame_length)
    moreover have "rvalue rec = None \<longrightarrow> copy_tombstone" using rec(6) copying(4) by blast
    ultimately have "\<exists>rec. record_ok rec \<and> prefix (frame_bytes crc rec) (drop offset (readable f)) \<and>
         d_bytes d' = d_bytes d @ frame_bytes crc rec \<and> (rvalue rec = None \<longrightarrow> copy_tombstone) \<and>
         res = \<lparr>rc_offset = length (d_bytes d), rc_record_size = length (frame_bytes crc rec),
                rc_value_size = length (value_bytes rec), rc_is_tombstone = (rvalue rec = None)\<rparr>"
      using rec(1-3) by (intro exI [of _ rec] conjI)
    then show ?thesis unfolding Inr m sum.case option.case by (intro conjI conjunct1 [OF w] pre)
  qed
next
  case (skipped)
  then have same: "lw' = lw" "d' = d" by simp_all
  show ?thesis unfolding same skipped(1) sum.case option.case using assms(1) skipped(3,4) by blast
qed (simp_all add: assms(1))

end

section \<open>A copy on a healthy device\<close>

lemma raw_calm:
  assumes "wf_backend (lw_backend lw)" "d_script d = []" "\<not> d_poisoned d" "length (d_bytes d) + length data \<le> U64_MAX"
  shows "\<exists>lw'. lw_write_raw sync_ops data (lw, d) = (Inr (length (d_bytes d)), (lw', d\<lparr>d_bytes := d_bytes d @ data\<rparr>))
    \<and> wf_backend (lw_backend lw')"
proof -
  have buf: "bw_buf (sb_writer (lw_backend lw)) = []" and cap: "bw_capacity (sb_writer (lw_backend lw)) > 0"
    using assms(1) by (auto simp: wf_backend_def wf_sync_def)
  have chk: "checked_append_end (length (d_bytes d)) (length data) = Inr (length (d_bytes d) + length data)"
    using assms(4) by (simp add: checked_append_end_def checked_add64_def)
  note defs = sb_append_def st_bind_def lock_append_def sb_os_def os_calm finish_append_def
    sb_step_def flush_buf_def write_loop_calm bw_write_all_def bw_fill_def bw_direct_def Let_def
  have "\<exists>b'. sb_append data (lw_backend lw, d) = (Inr (length (d_bytes d)), (b', d\<lparr>d_bytes := d_bytes d @ data\<rparr>))"
    using assms buf chk cap by (cases "length data < bw_capacity (sb_writer (lw_backend lw))") (simp_all add: defs)
  then obtain b' where b': "sb_append data (lw_backend lw, d) = (Inr (length (d_bytes d)), (b', d\<lparr>d_bytes := d_bytes d @ data\<rparr>))" ..
  then have run: "\<exists>lw'. lw_write_raw sync_ops data (lw, d) = (Inr (length (d_bytes d)), (lw', d\<lparr>d_bytes := d_bytes d @ data\<rparr>))"
    by (simp add: lw_write_raw_def lw_call_def sync_ops_def publish_offset_def st_bind_def)
  then show ?thesis using writes_Inr(1) [OF sync.writes_raw assms(1)] by blast
qed

lemma range_calm:
  assumes "wf_backend (lw_backend lw)" "d_script d = []" "\<not> d_poisoned d" "length (d_bytes d) + length bs \<le> U64_MAX"
    and "prefix bs (drop off (readable f))" "off + length bs \<le> U64_MAX"
  shows "\<exists>lw'. copy_hashed_range sync_ops f off (length bs) hasher label (lw, d) =
      (Inr (hasher @ bs), (lw', d\<lparr>d_bytes := d_bytes d @ bs\<rparr>)) \<and> wf_backend (lw_backend lw')"
  using assms
proof (induction "length bs" arbitrary: bs off hasher lw d rule: less_induct)
  case less
  show ?case
  proof (cases "bs = []")
    case True
    then show ?thesis using less.prems(1) by (simp add: copy_hashed_range.simps [of _ _ _ 0])
  next
    case False
    define k where "k = min (length bs) STREAM_READ_CHUNK_SIZE"
    define chunk rest where "chunk = take k bs" and "rest = drop k bs"
    have k: "0 < k" "k \<le> length bs" using False by (simp_all add: k_def STREAM_READ_CHUNK_SIZE_def)
    have bs: "bs = chunk @ rest" "length chunk = k" "length rest = length bs - k" using k(2) by (simp_all add: chunk_def rest_def)
    have pre: "prefix chunk (drop off (readable f))" "prefix rest (drop (off + k) (readable f))"
      using less.prems(5) bs(1,2) prefix_chain [of chunk rest off] by simp_all
    have read: "read_exact_at_or_eof f k off label = Inr (Some chunk)"
      using pre(1) bs(2) by (simp add: read_exact_at_or_eof_Some)
    have add: "checked_add64 off k = Some (off + k)" using less.prems(6) k(2) by (simp add: checked_add64_def)
    obtain lw1 where w: "lw_write_raw sync_ops chunk (lw, d) = (Inr (length (d_bytes d)), (lw1, d\<lparr>d_bytes := d_bytes d @ chunk\<rparr>))"
      "wf_backend (lw_backend lw1)" using raw_calm [OF less.prems(1-3), of chunk] less.prems(4) bs(2) k(2) by auto
    let ?d1 = "d\<lparr>d_bytes := d_bytes d @ chunk\<rparr>"
    have small: "length rest < length bs" "length (d_bytes ?d1) + length rest \<le> U64_MAX" "off + k + length rest \<le> U64_MAX"
      using less.prems(4,6) bs(2,3) k by simp_all
    have whole: "(hasher @ chunk) @ rest = hasher @ bs" "d_bytes ?d1 @ rest = d_bytes d @ bs" by (simp_all add: bs(1))
    from small have "\<exists>lw'. copy_hashed_range sync_ops f (off + k) (length rest) (hasher @ chunk) label (lw1, ?d1) =
        (Inr ((hasher @ chunk) @ rest), (lw', ?d1\<lparr>d_bytes := d_bytes ?d1 @ rest\<rparr>)) \<and> wf_backend (lw_backend lw')"
      using less.prems(2,3) by (intro less.hyps [OF _ w(2) _ _ _ pre(2)]) simp_all
    then obtain lw2 where "copy_hashed_range sync_ops f (off + k) (length bs - k) (hasher @ chunk) label (lw1, ?d1) =
        (Inr (hasher @ bs), (lw2, d\<lparr>d_bytes := d_bytes d @ bs\<rparr>))" "wf_backend (lw_backend lw2)"
      unfolding whole bs(3) by (elim exE conjE) (rule that, simp_all)
    then show ?thesis
      using False read add w(1) by (subst copy_hashed_range.simps) (simp add: Let_def flip: k_def)
  qed
qed

lemma body_calm:
  assumes "wf_backend (lw_backend lw)" "d_script d = []" "\<not> d_poisoned d" "file_len f \<le> U64_MAX"
    and ok: "record_ok rec" and pre: "prefix (frame_bytes crc rec) (drop off (readable f))"
    and fits: "length (d_bytes d) + length (rkey rec) + length (value_bytes rec) \<le> U64_MAX"
  shows "\<exists>lw'. copy_record_body sync_ops crc f off (frame_header crc rec) (length (value_bytes rec)) (rvalue rec = None) (lw, d) =
      (Inr (), (lw', d\<lparr>d_bytes := d_bytes d @ rkey rec @ value_bytes rec\<rparr>)) \<and> wf_backend (lw_backend lw')"
proof -
  let ?k = "rkey rec" and ?v = "value_bytes rec"
  have parts: "prefix ?k (drop (off + 26) (readable f))" "prefix ?v (drop (off + 26 + length ?k) (readable f))"
    using pre by (simp_all add: frame_header_split prefix_chain)
  have bound: "off + 26 + length ?k + length ?v \<le> U64_MAX"
    using prefix_drop_bound [OF pre] assms(4) by (simp add: frame_length)
  note header = parse_frame_header [OF ok, of crc]
  have add: "checked_add64 off 26 = Some (off + 26)" "checked_add64 (off + 26) (length ?k) = Some (off + 26 + length ?k)"
    using bound by (simp_all add: checked_add64_def)
  have body: "drop 4 (frame_header crc rec) @ ?k @ ?v = frame_body rec" by (simp add: frame_header_def frame_body_def)
  obtain lw1 where key: "copy_hashed_range sync_ops f (off + 26) (length ?k) (drop 4 (frame_header crc rec)) ''key'' (lw, d) =
      (Inr (drop 4 (frame_header crc rec) @ ?k), (lw1, d\<lparr>d_bytes := d_bytes d @ ?k\<rparr>))" "wf_backend (lw_backend lw1)"
    using range_calm [OF assms(1-3) _ parts(1), of "drop 4 (frame_header crc rec)" "''key''"] fits bound by auto
  show ?thesis
  proof (cases "rvalue rec")
    case None
    then have "?v = []" by (simp add: value_bytes_def)
    then show ?thesis using None key add body by (simp add: copy_record_body_def header Let_def)
  next
    case (Some v)
    obtain lw2 where "copy_hashed_range sync_ops f (off + 26 + length ?k) (length ?v) (drop 4 (frame_header crc rec) @ ?k) ''value''
        (lw1, d\<lparr>d_bytes := d_bytes d @ ?k\<rparr>) =
        (Inr ((drop 4 (frame_header crc rec) @ ?k) @ ?v), (lw2, d\<lparr>d_bytes := (d_bytes d @ ?k) @ ?v\<rparr>))" "wf_backend (lw_backend lw2)"
      using range_calm [OF key(2) _ _ _ parts(2), of "d\<lparr>d_bytes := d_bytes d @ ?k\<rparr>" "drop 4 (frame_header crc rec) @ ?k" "''value''"]
        assms(2,3) fits bound by auto
    then show ?thesis using Some key add body by (simp add: copy_record_body_def header Let_def)
  qed
qed

lemma copy_calm:
  assumes "wf_backend (lw_backend lw)" "d_script d = []" "\<not> d_poisoned d" "file_len f \<le> U64_MAX"
    and ok: "record_ok rec" and pre: "prefix (frame_bytes crc rec) (drop off (readable f))"
    and fits: "length (d_bytes d) + length (frame_bytes crc rec) \<le> U64_MAX"
    and ct: "rvalue rec = None \<longrightarrow> copy_tombstone"
  shows "\<exists>lw'. copy_record_raw sync_ops crc f off copy_tombstone (lw, d) =
      (Inr (Some \<lparr>rc_offset = length (d_bytes d), rc_record_size = length (frame_bytes crc rec),
                rc_value_size = length (value_bytes rec), rc_is_tombstone = (rvalue rec = None)\<rparr>),
       (lw', d\<lparr>d_bytes := d_bytes d @ frame_bytes crc rec\<rparr>)) \<and> wf_backend (lw_backend lw')"
proof -
  let ?h = "frame_header crc rec" and ?k = "rkey rec" and ?v = "value_bytes rec"
  have hd: "read_exact_at_or_eof f 26 off ''header'' = Inr (Some ?h)"
    using pre by (simp add: read_exact_at_or_eof_Some frame_header_split prefix_chain)
  have bound: "off + 26 + length ?k + length ?v \<le> file_len f"
    using prefix_drop_bound [OF pre] by (simp add: frame_length)
  have chk: "checked_record_body_len (length ?k) (length ?v) = Inr (length ?k + length ?v)"
    "check_large_body f off (length ?k + length ?v) = Inr ()"
    using bound assms(4) by (auto simp: checked_record_body_len_def checked_add64_def check_large_body_def)
  obtain lw1 where w: "lw_write_raw sync_ops ?h (lw, d) = (Inr (length (d_bytes d)), (lw1, d\<lparr>d_bytes := d_bytes d @ ?h\<rparr>))"
    "wf_backend (lw_backend lw1)" using raw_calm [OF assms(1-3), of ?h] fits by (auto simp: frame_length)
  obtain lw2 where "copy_record_body sync_ops crc f off ?h (length ?v) (rvalue rec = None) (lw1, d\<lparr>d_bytes := d_bytes d @ ?h\<rparr>) =
      (Inr (), (lw2, d\<lparr>d_bytes := (d_bytes d @ ?h) @ ?k @ ?v\<rparr>))" "wf_backend (lw_backend lw2)"
    using body_calm [OF w(2) _ _ assms(4) ok pre, of "d\<lparr>d_bytes := d_bytes d @ ?h\<rparr>"] assms(2,3) fits by (auto simp: frame_length)
  then show ?thesis
    using hd chk w(1) ct decoded_frame_size [OF ok] parse_frame_header [OF ok, of crc]
    by (cases "rvalue rec") (simp_all add: copy_record_raw_def Let_def frame_length, simp_all add: frame_header_split)
qed

section \<open>Property\<close>


lemma sample_values [simp]: "length (value_bytes sample_record) = 2" "rvalue sample_record \<noteq> None"
  by (simp_all add: sample_record_def value_bytes_def)

lemma sample_copy_run:
  obtains lw' where "copy_record_raw sync_ops sum_crc (good_file (frame_bytes sum_crc sample_record)) 0 False
       (lw_open sync_ops sample_backend 1, calm_os [9]) =
     (Inr (Some \<lparr>rc_offset = 1, rc_record_size = 29, rc_value_size = 2, rc_is_tombstone = False\<rparr>),
      (lw', (calm_os [9])\<lparr>d_bytes := [9] @ frame_bytes sum_crc sample_record\<rparr>))"
  using copy_calm [of "lw_open sync_ops sample_backend 1" "calm_os [9]" "good_file (frame_bytes sum_crc sample_record)"
      sample_record sum_crc 0 False] sample_record_ok
  by (auto simp: lw_open_def calm_os_def U64_MAX_def file_len_good)


end
