(* ===== verification/Uring_Completions.thy ===== *)
theory Uring_Completions
  imports Prelude
begin

text \<open>
  The completion checks of the \<^verbatim>\<open>io_uring\<close> backend (\<^verbatim>\<open>src/io_backend/mod.rs\<close>:
  \<^verbatim>\<open>validate_uring_batch_completions\<close>, \<^verbatim>\<open>validate_uring_single_completion\<close>).  A completion is a
  64-bit tag and a signed 32-bit result.  Both loops drain every completion and keep the
  first error they meet.
\<close>

section \<open>Definitions\<close>

type_synonym cqe = "u64 \<times> 32 word"

datatype uring_error =
    UnknownIndex nat
  | DuplicateIndex nat
  | RawOsError int
  | ShortWrite nat nat int
  | WrongCount nat nat
  | WrongTag nat nat
  | WrongResult nat int

fun get_or_insert :: "'e option \<Rightarrow> 'e \<Rightarrow> 'e option" where
  "get_or_insert None e = Some e"
| "get_or_insert (Some first) e = Some first"

fun drain_batch ::
  "nat list \<Rightarrow> cqe list \<Rightarrow> bool list \<Rightarrow> nat \<Rightarrow> uring_error option \<Rightarrow> nat \<times> uring_error option" where
  "drain_batch expected_lengths [] seen completed first_error = (completed, first_error)"
| "drain_batch expected_lengths ((tag, res) # cqes) seen completed first_error =
     (let completed = saturating_add64 completed 1; index = unat tag in
      if index \<ge> length expected_lengths then
        drain_batch expected_lengths cqes seen completed (get_or_insert first_error (UnknownIndex index))
      else if seen ! index then
        drain_batch expected_lengths cqes seen completed (get_or_insert first_error (DuplicateIndex index))
      else
        let seen = seen[index := True]; expected_len = expected_lengths ! index in
        if sint res < 0 then
          drain_batch expected_lengths cqes seen completed (get_or_insert first_error (RawOsError (- sint res)))
        else if sint res \<noteq> int expected_len then
          drain_batch expected_lengths cqes seen completed
            (get_or_insert first_error (ShortWrite expected_len index (sint res)))
        else drain_batch expected_lengths cqes seen completed first_error)"

definition validate_uring_batch_completions :: "cqe list \<Rightarrow> nat list \<Rightarrow> uring_error + unit" where
  "validate_uring_batch_completions completions expected_lengths =
     (let (completed, first_error) =
            drain_batch expected_lengths completions (replicate (length expected_lengths) False) 0 None;
          first_error = (if completed \<noteq> length expected_lengths
             then get_or_insert first_error (WrongCount (length expected_lengths) completed)
             else first_error)
      in case first_error of None \<Rightarrow> Inr () | Some e \<Rightarrow> Inl e)"

fun drain_single :: "u64 \<Rightarrow> nat \<Rightarrow> cqe list \<Rightarrow> nat \<Rightarrow> uring_error option \<Rightarrow> nat \<times> uring_error option" where
  "drain_single expected_tag expected_result [] completed first_error = (completed, first_error)"
| "drain_single expected_tag expected_result ((tag, res) # cqes) completed first_error =
     (let completed = saturating_add64 completed 1;
          next_error =
            (if tag \<noteq> expected_tag then get_or_insert first_error (WrongTag (unat tag) (unat expected_tag))
             else if sint res < 0 then get_or_insert first_error (RawOsError (- sint res))
             else if sint res \<noteq> int expected_result
             then get_or_insert first_error (WrongResult expected_result (sint res))
             else first_error)
      in drain_single expected_tag expected_result cqes completed next_error)"

definition validate_uring_single_completion :: "cqe list \<Rightarrow> u64 \<Rightarrow> nat \<Rightarrow> uring_error + unit" where
  "validate_uring_single_completion completions expected_tag expected_result =
     (let (completed, first_error) = drain_single expected_tag expected_result completions 0 None;
          first_error = (if completed \<noteq> 1 then get_or_insert first_error (WrongCount 1 completed) else first_error)
      in case first_error of None \<Rightarrow> Inr () | Some e \<Rightarrow> Inl e)"

section \<open>What the checks accept\<close>

lemma get_or_insert_not_None [simp]: "get_or_insert m e \<noteq> None"
  by (cases m) auto

lemma drain_batch_Some: "snd (drain_batch lens cqes seen n (Some e)) \<noteq> None"
  by (induction cqes arbitrary: seen n) (auto simp: Let_def)

lemma drain_single_Some: "snd (drain_single t r cqes n (Some e)) \<noteq> None"
  by (induction cqes arbitrary: n) (auto simp: Let_def)

lemma drain_count:
  "n + length cqes \<le> U64_MAX \<Longrightarrow> fst (drain_batch lens cqes seen n err) = n + length cqes"
  "n + length cqes \<le> U64_MAX \<Longrightarrow> fst (drain_single t r cqes n err) = n + length cqes"
proof -
  show "n + length cqes \<le> U64_MAX \<Longrightarrow> fst (drain_batch lens cqes seen n err) = n + length cqes"
    by (induction lens cqes seen n err rule: drain_batch.induct)
      (auto simp: Let_def saturating_add64_def)
  show "n + length cqes \<le> U64_MAX \<Longrightarrow> fst (drain_single t r cqes n err) = n + length cqes"
    by (induction t r cqes n err rule: drain_single.induct) (auto simp: Let_def saturating_add64_def)
qed

text \<open>A completion is the one expected for its slot.\<close>

definition good_cqe :: "nat list \<Rightarrow> cqe \<Rightarrow> bool" where
  "good_cqe lens c \<longleftrightarrow> unat (fst c) < length lens \<and> sint (snd c) = int (lens ! unat (fst c))"

lemma drain_batch_None:
  "length seen = length lens \<Longrightarrow>
     snd (drain_batch lens cqes seen n None) = None \<longleftrightarrow>
       list_all (good_cqe lens) cqes \<and> distinct (map fst cqes) \<and>
       (\<forall>t \<in> fst ` set cqes. \<not> seen ! unat t)"
proof (induction cqes arbitrary: seen n)
  case (Cons c cqes)
  obtain t r where c: "c = (t, r)" by (cases c)
  show ?case
  proof (cases "unat t < length lens \<and> \<not> seen ! unat t \<and> sint r = int (lens ! unat t)")
    case True
    have upd: "(\<forall>u \<in> fst ` set cqes. \<not> seen[unat t := True] ! unat u) \<longleftrightarrow>
        t \<notin> fst ` set cqes \<and> (\<forall>u \<in> fst ` set cqes. \<not> seen ! unat u)"
      using True Cons.prems by (auto simp: nth_list_update dest!: unsigned_word_eqI)
    have "snd (drain_batch lens (c # cqes) seen n None) =
        snd (drain_batch lens cqes (seen[unat t := True]) (saturating_add64 n 1) None)"
      using True by (simp add: c Let_def)
    then show ?thesis
      using Cons.IH [of "seen[unat t := True]"] Cons.prems True upd
      by (simp add: c good_cqe_def conj_ac)
  next
    case False
    then have "snd (drain_batch lens (c # cqes) seen n None) \<noteq> None"
      by (auto simp: c Let_def drain_batch_Some simp del: not_None_eq)
    with False show ?thesis by (auto simp: c good_cqe_def)
  qed
qed simp

section \<open>Property\<close>

text \<open>C19.  A batch is confirmed only when every write of it completed in full: the check accepts
  a drained completion queue exactly when it holds one completion per submitted buffer, no
  tag twice, each tag a submitted index and each result the full length of that buffer; the
  single-operation check accepts exactly one completion with the expected tag and result.\<close>

theorem uring_checks_exact:
  assumes "length cqes \<le> U64_MAX"
  shows "(validate_uring_batch_completions cqes lens = Inr () \<longleftrightarrow>
       length cqes = length lens \<and> distinct (map fst cqes) \<and> list_all (good_cqe lens) cqes) \<and>
     (validate_uring_single_completion cqes t n = Inr () \<longleftrightarrow> (\<exists>r. cqes = [(t, r)] \<and> sint r = int n))"
proof
  have "\<forall>u \<in> fst ` set cqes. \<not> replicate (length lens) False ! unat u" if "list_all (good_cqe lens) cqes"
    using that by (auto simp: list_all_iff good_cqe_def)
  then show "validate_uring_batch_completions cqes lens = Inr () \<longleftrightarrow>
       length cqes = length lens \<and> distinct (map fst cqes) \<and> list_all (good_cqe lens) cqes"
    using drain_batch_None [of "replicate (length lens) False" lens cqes 0]
      drain_count(1) [of 0 cqes lens "replicate (length lens) False" None] assms
    by (auto simp: validate_uring_batch_completions_def Let_def split: prod.splits option.splits if_splits)
  have "snd (drain_single t n [(u, r)] 0 None) = None \<longleftrightarrow> u = t \<and> sint r = int n" for u r
    by (simp add: Let_def)
  then show "validate_uring_single_completion cqes t n = Inr () \<longleftrightarrow> (\<exists>r. cqes = [(t, r)] \<and> sint r = int n)"
    using drain_count(2) [of 0 cqes t n None] assms
    by (cases cqes; cases "tl cqes")
      (auto simp: validate_uring_single_completion_def split: prod.splits option.splits if_splits)
qed

theorem uring_checks_exact_witness:
  "validate_uring_batch_completions [(1, 5), (0, 3)] [3, 5] = Inr () \<and>
   validate_uring_batch_completions [(1, 5), (1, 5)] [5, 5] \<noteq> Inr () \<and>
   validate_uring_single_completion [(1, 4)] 1 4 = Inr ()"
proof -
  have le: "length ([(1, 5), (0, 3)] :: cqe list) \<le> U64_MAX" "length ([(1, 5), (1, 5)] :: cqe list) \<le> U64_MAX"
      "length ([(1, 4)] :: cqe list) \<le> U64_MAX"
    by (simp_all add: U64_MAX_def)
  show ?thesis
    using uring_checks_exact [OF le(1), of "[3, 5]"] uring_checks_exact [OF le(2), of "[5, 5]"]
      uring_checks_exact [OF le(3), of _ 1 4]
    by (simp add: good_cqe_def)
qed

end
