(* ===== verification/Hint.thy ===== *)
theory Hint
  imports Files Backend
begin

text \<open>
  Hint files (\<^verbatim>\<open>src/hint.rs\<close>, and the NIF bodies \<^verbatim>\<open>v2_write_hint_file\<close> and
  \<^verbatim>\<open>v2_read_hint_file_page\<close> of \<^verbatim>\<open>src/sections/part_02.rs\<close>).  A hint file is written to a
  temporary file through a buffered writer and renamed into place by \<^verbatim>\<open>commit\<close>; dropping the
  writer removes what is left of the temporary file.  The state of a writer is its buffer,
  the operating system's view of the temporary file, whether that file exists, and the
  content of the final path.

  The lemmas show that the reader accepts exactly the frames the writer produces, that
  the final path changes only to a complete hint file, and that paging returns every entry
  once.
\<close>

section \<open>Entries\<close>

definition CRC_SIZE :: nat where [simp]: "CRC_SIZE = 4"
definition HINT_BODY_HEADER_SIZE :: nat where [simp]: "HINT_BODY_HEADER_SIZE = 30"
definition HINT_HEADER_SIZE :: nat where [simp]: "HINT_HEADER_SIZE = CRC_SIZE + HINT_BODY_HEADER_SIZE"
definition MAX_HINT_PAGE_ENTRIES :: nat where "MAX_HINT_PAGE_ENTRIES = 65536"
definition MAX_HINT_PAGE_BYTES :: nat where "MAX_HINT_PAGE_BYTES = 64 * 1024 * 1024"

datatype hint_error =
    HintKeyTooLarge nat
  | TruncatedHintCrc
  | HintIo
  | HintCrcMismatch u32 u32
  | HintPageLimitsNotPositive
  | HintPageTooManyEntries
  | HintPageTooManyBytes
  | HintWriteFailed io_error

record hint_entry =
  he_file_id :: u64
  he_offset :: u64
  he_value_size :: u32
  he_expire_at_ms :: u64
  he_key :: bytes

definition hint_header :: "hint_entry \<Rightarrow> u16 \<Rightarrow> bytes" where
  "hint_header entry key_size =
     le64 (he_file_id entry) @ le64 (he_offset entry) @ le32 (he_value_size entry)
       @ le64 (he_expire_at_ms entry) @ le16 key_size"

section \<open>The writer\<close>

record hint_state =
  hs_writer :: buf_writer
  hs_os :: os
  hs_tmp :: bool
  hs_final :: "bytes option"

type_synonym 'a hint_step = "(hint_state, hint_error, 'a) step"

definition hint_io :: "(buf_writer \<times> os, io_error, unit) step \<Rightarrow> unit hint_step" where
  "hint_io m s = (case m (hs_writer s, hs_os s) of
     (Inr _, (w, d)) \<Rightarrow> (Inr (), s\<lparr>hs_writer := w, hs_os := d\<rparr>)
   | (Inl e, (w, d)) \<Rightarrow> (Inl (HintWriteFailed e), s\<lparr>hs_writer := w, hs_os := d\<rparr>))"

definition hint_os :: "(os, io_error, unit) step \<Rightarrow> unit hint_step" where
  "hint_os m s = (case m (hs_os s) of
     (Inr _, d) \<Rightarrow> (Inr (), s\<lparr>hs_os := d\<rparr>)
   | (Inl e, d) \<Rightarrow> (Inl (HintWriteFailed e), s\<lparr>hs_os := d\<rparr>))"

text \<open>A call that names a path; it answers once and is not retried.\<close>

definition os_path_call :: "(os, io_error, unit) step" where
  "os_path_call d =
     (case d_script d of
        [] \<Rightarrow> (Inr (), d)
      | Done _ # s \<Rightarrow> (Inr (), d\<lparr>d_script := s\<rparr>)
      | Intr # s \<Rightarrow> (Inl Interrupted, d\<lparr>d_script := s\<rparr>)
      | Fail e # s \<Rightarrow> (Inl (OsError e), d\<lparr>d_script := s\<rparr>))"

definition hint_open :: "unit hint_step" where
  "hint_open =
     st_bind (hint_os os_path_call) (\<lambda>_ s.
       (Inr (), s\<lparr>hs_writer := \<lparr>bw_buf = [], bw_capacity = 8192\<rparr>, hs_tmp := True,
                  hs_os := (hs_os s)\<lparr>d_bytes := []\<rparr>\<rparr>))"

definition write_entry :: "(bytes \<Rightarrow> u32) \<Rightarrow> hint_entry \<Rightarrow> unit hint_step" where
  "write_entry crc entry =
     (if length (he_key entry) > 65535 then st_lift (Inl (HintKeyTooLarge (length (he_key entry))))
      else
        let header = hint_header entry (word_of_nat (length (he_key entry)));
            c = crc (header @ he_key entry) in
        st_bind (hint_io (bw_write_all (le32 c))) (\<lambda>_.
        st_bind (hint_io (bw_write_all header)) (\<lambda>_.
        hint_io (bw_write_all (he_key entry)))))"

definition hint_commit :: "unit hint_step" where
  "hint_commit =
     st_bind (hint_io flush_buf) (\<lambda>_.
     st_bind (hint_os os_sync) (\<lambda>_.
     st_bind (hint_os os_path_call) (\<lambda>_ s.
       (Inr (), s\<lparr>hs_tmp := False, hs_final := Some (d_bytes (hs_os s))\<rparr>))))"

text \<open>\<^verbatim>\<open>Drop\<close>: remove the temporary file, ignoring any error.\<close>

definition hint_drop :: "hint_state \<Rightarrow> hint_state" where
  "hint_drop s =
     (if hs_tmp s then
        case hint_os os_path_call s of (Inr _, s') \<Rightarrow> s'\<lparr>hs_tmp := False\<rparr> | (Inl _, s') \<Rightarrow> s'
      else s)"

fun write_entries :: "(bytes \<Rightarrow> u32) \<Rightarrow> hint_entry list \<Rightarrow> unit hint_step" where
  "write_entries crc [] = st_ret ()"
| "write_entries crc (e # es) = st_bind (write_entry crc e) (\<lambda>_. write_entries crc es)"

definition v2_write_hint_file :: "(bytes \<Rightarrow> u32) \<Rightarrow> hint_entry list \<Rightarrow> unit hint_step" where
  "v2_write_hint_file crc entries s =
     (case hint_open s of
        (Inl e, s') \<Rightarrow> (Inl e, s')
      | (Inr _, s') \<Rightarrow>
          (case st_bind (write_entries crc entries) (\<lambda>_. hint_commit) s' of (r, s'') \<Rightarrow> (r, hint_drop s'')))"

section \<open>The reader\<close>

definition read_exact_hint :: "os_file \<Rightarrow> nat \<Rightarrow> nat \<Rightarrow> hint_error \<Rightarrow> hint_error + bytes" where
  "read_exact_hint f p n e = (case read_full f p n of Full bs \<Rightarrow> Inr bs | _ \<Rightarrow> Inl e)"

definition read_hint_entry ::
  "(bytes \<Rightarrow> u32) \<Rightarrow> os_file \<Rightarrow> nat \<Rightarrow> hint_error + (hint_entry \<times> nat) option" where
  "read_hint_entry crc f p =
     (case read_full f p 1 of
        IoFail \<Rightarrow> Inl HintIo
      | Eof _ \<Rightarrow> Inr None
      | Full first \<Rightarrow>
          bind_res (read_exact_hint f (p + 1) (CRC_SIZE - 1) TruncatedHintCrc) (\<lambda>rest.
          bind_res (read_exact_hint f (p + CRC_SIZE) HINT_BODY_HEADER_SIZE HintIo) (\<lambda>header.
          let stored_crc = of_le32 (first @ rest); key_size = unat (of_le16 (seg 28 30 header)) in
          bind_res (read_exact_hint f (p + CRC_SIZE + HINT_BODY_HEADER_SIZE) key_size HintIo) (\<lambda>key.
          let computed_crc = crc (header @ key) in
          if computed_crc \<noteq> stored_crc then Inl (HintCrcMismatch stored_crc computed_crc)
          else Inr (Some (\<lparr>he_file_id = of_le64 (seg 0 8 header), he_offset = of_le64 (seg 8 16 header),
                           he_value_size = of_le32 (seg 16 20 header),
                           he_expire_at_ms = of_le64 (seg 20 28 header), he_key = key\<rparr>,
                          p + CRC_SIZE + HINT_BODY_HEADER_SIZE + key_size))))))"

function page_entries ::
  "(bytes \<Rightarrow> u32) \<Rightarrow> os_file \<Rightarrow> nat \<Rightarrow> nat \<Rightarrow> nat \<Rightarrow> nat \<Rightarrow> hint_entry list
     \<Rightarrow> hint_error + (hint_entry list \<times> nat \<times> bool)" where
  "page_entries crc f max_entries max_bytes p bytes entries =
     (if length entries < max_entries \<and> (entries = [] \<or> bytes < max_bytes) then
        bind_res (read_hint_entry crc f p) (\<lambda>m. case m of
          Some (entry, q) \<Rightarrow>
            page_entries crc f max_entries max_bytes q
              (saturating_add64 bytes (HINT_HEADER_SIZE + length (he_key entry))) (entries @ [entry])
        | None \<Rightarrow> Inr (entries, p, True))
      else Inr (entries, p, p \<ge> file_len f))"
  by pat_completeness auto
termination
  by (relation "measure (\<lambda>(crc, f, max_entries, max_bytes, p, bytes, entries). max_entries - length entries)") auto

definition read_page ::
  "(bytes \<Rightarrow> u32) \<Rightarrow> os_file \<Rightarrow> nat \<Rightarrow> nat \<Rightarrow> nat \<Rightarrow> hint_error + (hint_entry list \<times> nat \<times> bool)" where
  "read_page crc f off max_entries max_bytes =
     (if max_entries = 0 \<or> max_bytes = 0 then Inl HintPageLimitsNotPositive
      else if max_entries > MAX_HINT_PAGE_ENTRIES then Inl HintPageTooManyEntries
      else if max_bytes > MAX_HINT_PAGE_BYTES then Inl HintPageTooManyBytes
      else page_entries crc f max_entries max_bytes off 0 [])"

section \<open>The reader accepts exactly frames\<close>

declare page_entries.simps [simp del]

definition hint_ok :: "hint_entry \<Rightarrow> bool" where
  "hint_ok e \<longleftrightarrow> length (he_key e) \<le> 65535"

definition hint_body :: "hint_entry \<Rightarrow> bytes" where
  "hint_body e = hint_header e (word_of_nat (length (he_key e))) @ he_key e"

definition hint_frame :: "(bytes \<Rightarrow> u32) \<Rightarrow> hint_entry \<Rightarrow> bytes" where
  "hint_frame crc e = le32 (crc (hint_body e)) @ hint_body e"

abbreviation hint_frames :: "(bytes \<Rightarrow> u32) \<Rightarrow> hint_entry list \<Rightarrow> bytes" where
  "hint_frames crc es \<equiv> concat (map (hint_frame crc) es)"

lemma hint_header_length [simp]: "length (hint_header e k) = 30"
  by (simp add: hint_header_def)

lemma hint_frame_length: "length (hint_frame crc e) = HINT_HEADER_SIZE + length (he_key e)"
  by (simp add: hint_frame_def hint_body_def)

lemma read_exact_hint_Inr [res_simps]:
  "read_exact_hint f p n e = Inr bs \<longleftrightarrow> length bs = n \<and> prefix bs (drop p (readable f))"
  by (auto simp: read_exact_hint_def read_full_Full [symmetric] split: read_outcome.splits)

lemma hint_header_fields:
  "seg 0 8 (hint_header e k) = le64 (he_file_id e)" "seg 8 16 (hint_header e k) = le64 (he_offset e)"
  "seg 16 20 (hint_header e k) = le32 (he_value_size e)" "seg 20 28 (hint_header e k) = le64 (he_expire_at_ms e)"
  "seg 28 30 (hint_header e k) = le16 k"
  by (simp_all add: hint_header_def seg_def)

lemma hint_header_split:
  assumes "length h = 30" "e = \<lparr>he_file_id = of_le64 (seg 0 8 h), he_offset = of_le64 (seg 8 16 h),
     he_value_size = of_le32 (seg 16 20 h), he_expire_at_ms = of_le64 (seg 20 28 h), he_key = key\<rparr>"
  shows "h = hint_header e (of_le16 (seg 28 30 h))"
proof -
  have "h = seg 0 8 h @ seg 8 16 h @ seg 16 20 h @ seg 20 28 h @ seg 28 30 h"
    using assms(1) by (simp add: seg_join) (simp add: seg_def)
  then show ?thesis using assms by (simp add: hint_header_def le_of_le)
qed

lemma read_hint_entry_frame:
  assumes "hint_ok e" "prefix (hint_frame crc e) (drop p (readable f))"
  shows "read_hint_entry crc f p = Inr (Some (e, p + length (hint_frame crc e)))"
proof -
  let ?c = "le32 (crc (hint_body e))" and ?h = "hint_header e (word_of_nat (length (he_key e)))"
  have "hint_frame crc e = take 1 ?c @ drop 1 ?c @ ?h @ he_key e"
    by (metis append_assoc append_take_drop_id hint_frame_def hint_body_def)
  then have "prefix (take 1 ?c @ drop 1 ?c @ ?h @ he_key e) (drop p (readable f))"
    using assms(2) by (simp only:)
  then have pre: "prefix (take 1 ?c) (drop p (readable f))" "prefix (drop 1 ?c) (drop (p + 1) (readable f))"
    "prefix ?h (drop (p + 4) (readable f))" "prefix (he_key e) (drop (p + 34) (readable f))"
    by (simp_all only: prefix_chain length_take length_drop le_length hint_header_length) (simp_all add: add.commute)
  have "read_full f p 1 = Full (take 1 ?c)" using pre(1) by (simp add: read_full_Full)
  moreover have "read_exact_hint f (p + 1) 3 TruncatedHintCrc = Inr (drop 1 ?c)"
    "read_exact_hint f (p + 4) 30 HintIo = Inr ?h"
    "read_exact_hint f (p + 34) (length (he_key e)) HintIo = Inr (he_key e)"
    using pre by (simp_all add: read_exact_hint_Inr)
  ultimately show ?thesis
    using assms(1) by (simp add: read_hint_entry_def Let_def hint_header_fields unat_of_nat_16 hint_ok_def
        hint_body_def [symmetric] hint_frame_length add.commute [of 34])
qed

lemma read_hint_entry_Some:
  "read_hint_entry crc f p = Inr (Some (e, q)) \<longleftrightarrow>
     hint_ok e \<and> prefix (hint_frame crc e) (drop p (readable f)) \<and> q = p + length (hint_frame crc e)"
proof
  assume rd: "read_hint_entry crc f p = Inr (Some (e, q))"
  then obtain first where first: "length first = 1" "prefix first (drop p (readable f))"
    and rf: "read_full f p 1 = Full first"
    by (cases "read_full f p 1") (auto simp: read_hint_entry_def read_full_Full)
  from rd rf obtain rest h key where rest: "length rest = 3" "prefix rest (drop (p + 1) (readable f))"
    and h: "length h = 30" "prefix h (drop (p + 4) (readable f))"
    and key: "length key = unat (of_le16 (seg 28 30 h))" "prefix key (drop (p + 34) (readable f))"
    and crc: "crc (h @ key) = of_le32 (first @ rest)"
    and e: "e = \<lparr>he_file_id = of_le64 (seg 0 8 h), he_offset = of_le64 (seg 8 16 h),
     he_value_size = of_le32 (seg 16 20 h), he_expire_at_ms = of_le64 (seg 20 28 h), he_key = key\<rparr>"
    and q: "q = p + 34 + length key"
    by (auto simp: read_hint_entry_def bind_res_Inr Let_def read_exact_hint_Inr add.commute [of 34] split: if_splits)
  have hd: "h = hint_header e (word_of_nat (length key))"
    using hint_header_split [OF h(1) e] key(1) by simp
  have ok: "hint_ok e" using key(1) unat_u16_bound [of "of_le16 (seg 28 30 h)"] by (simp add: hint_ok_def e)
  have "hint_body e = h @ key" using hd by (simp add: hint_body_def e)
  moreover have "le32 (crc (h @ key)) = first @ rest" using crc first(1) rest(1) by (simp add: le_of_le)
  ultimately have fr: "hint_frame crc e = first @ rest @ h @ key" by (simp add: hint_frame_def)
  have "prefix (first @ rest @ h @ key) (drop p (readable f))"
    using first rest h key by (simp only: prefix_chain) (simp add: add.commute)
  with fr ok q first(1) rest(1) h(1) show "hint_ok e \<and> prefix (hint_frame crc e) (drop p (readable f)) \<and>
      q = p + length (hint_frame crc e)" by simp
next
  assume "hint_ok e \<and> prefix (hint_frame crc e) (drop p (readable f)) \<and> q = p + length (hint_frame crc e)"
  then show "read_hint_entry crc f p = Inr (Some (e, q))" using read_hint_entry_frame by blast
qed

lemma read_hint_entry_end: "drop p (readable f) = [] \<Longrightarrow> \<not> faulty f \<Longrightarrow> read_hint_entry crc f p = Inr None"
  by (simp add: read_hint_entry_def read_full_def)

section \<open>The writer is atomic\<close>

definition hint_taken :: "hint_state \<Rightarrow> bytes" where
  "hint_taken s = d_bytes (hs_os s) @ bw_buf (hs_writer s)"

definition hint_open_state :: "hint_state \<Rightarrow> bool" where
  "hint_open_state s \<longleftrightarrow> bw_capacity (hs_writer s) > 0"

definition keeps_final :: "'a hint_step \<Rightarrow> bool" where
  "keeps_final m \<longleftrightarrow> (\<forall>s r s'. m s = (r, s') \<longrightarrow> hs_final s' = hs_final s)"

lemma keeps_final_bind: "keeps_final m \<Longrightarrow> (\<And>x. keeps_final (k x)) \<Longrightarrow> keeps_final (st_bind m k)"
  unfolding keeps_final_def st_bind_def by (auto split: prod.splits sum.splits)

lemma keeps_final_basic [intro]:
  "keeps_final (hint_io io)" "keeps_final (hint_os p)" "keeps_final (st_lift r)" "keeps_final (st_ret x)"
  by (auto simp: keeps_final_def hint_io_def hint_os_def st_lift_def st_ret_def split: prod.splits sum.splits)

lemma keeps_final_write_entry: "keeps_final (write_entry crc e)"
  unfolding write_entry_def Let_def by (auto intro!: keeps_final_bind)

lemma keeps_final_write_entries: "keeps_final (write_entries crc es)"
  by (induction es) (auto intro!: keeps_final_bind keeps_final_write_entry simp: keeps_final_def [of "Pair _"])

abbreviation as_backend :: "hint_state \<Rightarrow> sync_backend \<times> os" where
  "as_backend s \<equiv> (\<lparr>sb_writer = hs_writer s, sb_offset = 0\<rparr>, hs_os s)"

lemma hint_io_backend:
  assumes "hint_io m s = (Inr (), s')"
  shows "sb_step m (as_backend s) = (Inr (), as_backend s')"
  using assms by (auto simp: hint_io_def sb_step_def split: prod.splits sum.splits)

lemma hint_io_write_all:
  assumes "hint_io (bw_write_all data) s = (Inr (), s')" "hint_open_state s"
  shows "hint_taken s' = hint_taken s @ data \<and> hint_open_state s'"
  using sb_write_all_eq [OF hint_io_backend [OF assms(1)]] assms(2)
  by (simp add: hint_taken_def taken_def hint_open_state_def grown_def)

lemma hint_io_flush:
  assumes "hint_io flush_buf s = (Inr (), s')"
  shows "d_bytes (hs_os s') = hint_taken s"
  using sb_flush_eq [OF hint_io_backend [OF assms]]
  by (auto simp: hint_taken_def taken_def wf_sync_def)

lemma write_entry_Inr:
  assumes "write_entry crc e s = (Inr (), s')" "hint_open_state s"
  shows "hint_ok e \<and> hint_taken s' = hint_taken s @ hint_frame crc e \<and> hint_open_state s'"
proof -
  let ?h = "hint_header e (word_of_nat (length (he_key e)))"
  from assms(1) have ok: "hint_ok e"
    by (auto simp: write_entry_def hint_ok_def st_lift_def split: if_splits)
  with assms(1) obtain s1 s2 where
    "hint_io (bw_write_all (le32 (crc (hint_body e)))) s = (Inr (), s1)"
    "hint_io (bw_write_all ?h) s1 = (Inr (), s2)" "hint_io (bw_write_all (he_key e)) s2 = (Inr (), s')"
    by (auto simp: write_entry_def hint_ok_def hint_body_def Let_def st_bind_Inr)
  with ok assms(2) show ?thesis
    using hint_io_write_all by (simp add: hint_frame_def hint_body_def)
qed

lemma write_entries_Inr:
  "write_entries crc es s = (Inr (), s') \<Longrightarrow> hint_open_state s \<Longrightarrow>
     list_all hint_ok es \<and> hint_taken s' = hint_taken s @ hint_frames crc es \<and> hint_open_state s'"
proof (induction es arbitrary: s)
  case (Cons e es)
  then obtain s1 where w: "write_entry crc e s = (Inr (), s1)" "write_entries crc es s1 = (Inr (), s')"
    by (auto simp: st_bind_Inr)
  with write_entry_Inr [OF w(1) Cons.prems(2)] Cons.IH [OF w(2)] show ?case by simp
qed (simp add: st_ret_def)

lemma os_path_call_bytes: "os_path_call d = (r, d') \<Longrightarrow> d_bytes d' = d_bytes d \<and> d_synced d' = d_synced d"
  by (auto simp: os_path_call_def split: list.splits answer.splits)

lemma hint_os_Inr: "hint_os m s = (Inr x, s') \<longleftrightarrow> (\<exists>d. m (hs_os s) = (Inr (), d) \<and> s' = s\<lparr>hs_os := d\<rparr>)"
  by (auto simp: hint_os_def split: prod.splits sum.splits)

lemma hint_open_Inr:
  "hint_open s = (Inr x, s') \<Longrightarrow> hint_taken s' = [] \<and> hint_open_state s' \<and> hs_final s' = hs_final s"
  by (auto simp: hint_open_def st_bind_Inr hint_os_Inr hint_taken_def hint_open_state_def)

lemma hint_open_final: "hint_open s = (r, s') \<Longrightarrow> hs_final s' = hs_final s"
  by (auto simp: hint_open_def st_bind_def hint_os_def split: prod.splits sum.splits)

lemma hint_commit_Inr:
  assumes "hint_commit s = (Inr (), s')"
  shows "hs_final s' = Some (hint_taken s) \<and> d_synced (hs_os s') = hint_taken s"
proof -
  from assms obtain s1 d2 d3 where fl: "hint_io flush_buf s = (Inr (), s1)"
    and sy: "os_sync (hs_os s1) = (Inr (), d2)" and rn: "os_path_call d2 = (Inr (), d3)"
    and s': "s' = s1\<lparr>hs_os := d3, hs_tmp := False, hs_final := Some (d_bytes d3)\<rparr>"
    by (auto simp: hint_commit_def st_bind_Inr hint_os_Inr)
  from hint_io_flush [OF fl] os_sync_eq [OF sy] os_path_call_bytes [OF rn] s' show ?thesis by simp
qed

lemma hint_commit_Inl: "hint_commit s = (Inl e, s') \<Longrightarrow> hs_final s' = hs_final s"
proof -
  assume c: "hint_commit s = (Inl e, s')"
  have k: "keeps_final (st_bind (hint_io flush_buf) (\<lambda>_. st_bind (hint_os os_sync) (\<lambda>_. hint_os os_path_call)))"
    by (intro keeps_final_bind keeps_final_basic)
  from c have "st_bind (hint_io flush_buf) (\<lambda>_. st_bind (hint_os os_sync) (\<lambda>_. hint_os os_path_call)) s = (Inl e, s')"
    by (auto simp: hint_commit_def st_bind_def split: prod.splits sum.splits)
  with k show ?thesis unfolding keeps_final_def by blast
qed

lemma hint_drop_final [simp]: "hs_final (hint_drop s) = hs_final s"
  by (auto simp: hint_drop_def hint_os_def split: prod.splits sum.splits)

lemma hint_drop_synced [simp]: "d_synced (hs_os (hint_drop s)) = d_synced (hs_os s)"
  using os_path_call_bytes by (fastforce simp: hint_drop_def hint_os_def split: prod.splits sum.splits)

text \<open>C1. Writing a hint file is atomic at the final path.  If it answers \<^verbatim>\<open>:ok\<close>, the final path
  holds the frames of exactly the given entries, in order, every key fits its 16-bit length
  field, and the renamed bytes were synced; on any error the final path is what it was.\<close>

theorem hint_write_atomic:
  "case v2_write_hint_file crc es s of
     (Inr _, s') \<Rightarrow> list_all hint_ok es \<and> hs_final s' = Some (hint_frames crc es)
                    \<and> d_synced (hs_os s') = hint_frames crc es
   | (Inl _, s') \<Rightarrow> hs_final s' = hs_final s"
proof (cases "hint_open s")
  case (Pair r s1)
  show ?thesis
  proof (cases r)
    case (Inl e)
    then show ?thesis using Pair hint_open_final [OF Pair] by (simp add: v2_write_hint_file_def)
  next
    case (Inr u)
    obtain r2 s2 where st: "st_bind (write_entries crc es) (\<lambda>_. hint_commit) s1 = (r2, s2)" by force
    have res: "v2_write_hint_file crc es s = (r2, hint_drop s2)"
      using Pair Inr st by (simp add: v2_write_hint_file_def)
    show ?thesis
    proof (cases r2)
      case (Inl e)
      then have "hs_final s2 = hs_final s1"
        using st keeps_final_write_entries [of crc es] hint_commit_Inl
        by (auto simp: st_bind_Inl keeps_final_def)
      then show ?thesis using res Inl hint_open_final [OF Pair] by simp
    next
      case (Inr v)
      then obtain s3 where "write_entries crc es s1 = (Inr (), s3)" "hint_commit s3 = (Inr (), s2)"
        using st by (auto simp: st_bind_Inr)
      then show ?thesis
        using res Inr hint_open_Inr [of s u s1] Pair \<open>r = Inr u\<close> write_entries_Inr hint_commit_Inr by fastforce
    qed
  qed
qed

section \<open>Paging\<close>

lemma page_entries_sound:
  "page_entries crc f m b p n acc = Inr (out, q, fin) \<Longrightarrow>
     \<exists>es. out = acc @ es \<and> list_all hint_ok es \<and> prefix (hint_frames crc es) (drop p (readable f))
       \<and> q = p + length (hint_frames crc es) \<and> length out \<le> max m (length acc)"
proof (induction crc f m b p n acc arbitrary: out q fin rule: page_entries.induct)
  case (1 crc f m b p n acc)
  show ?case
  proof (cases "length acc < m \<and> (acc = [] \<or> n < b)")
    case False
    then show ?thesis using "1.prems" by (auto simp: page_entries.simps [of crc f m b p n acc])
  next
    case True
    show ?thesis
    proof (cases "read_hint_entry crc f p")
      case (Inl e)
      then show ?thesis using "1.prems" True by (simp add: page_entries.simps [of crc f m b p n acc])
    next
      case (Inr r)
      show ?thesis
      proof (cases r)
        case None
        then show ?thesis using "1.prems" True Inr by (auto simp: page_entries.simps [of crc f m b p n acc])
      next
        case (Some eq)
        obtain e p1 where r: "r = Some (e, p1)" using Some by (cases eq) simp
        then have rd: "read_hint_entry crc f p = Inr (Some (e, p1))" using Inr by simp
        have "page_entries crc f m b p1 (saturating_add64 n (HINT_HEADER_SIZE + length (he_key e))) (acc @ [e])
          = Inr (out, q, fin)"
          using "1.prems" True rd by (simp add: page_entries.simps [of crc f m b p n acc])
        from "1.IH" [OF True rd refl refl this] obtain es where es: "out = acc @ e # es" "list_all hint_ok es"
          "prefix (hint_frames crc es) (drop p1 (readable f))" "q = p1 + length (hint_frames crc es)"
          "length out \<le> max m (Suc (length acc))" by auto
        from rd es(3) show ?thesis unfolding read_hint_entry_Some
          using es True by (intro exI [of _ "e # es"]) (auto simp: prefix_chain)
      qed
    qed
  qed
qed

lemma page_entries_progress:
  "list_all hint_ok es \<Longrightarrow> \<not> faulty f \<Longrightarrow> drop p (fbytes f) = hint_frames crc es \<Longrightarrow>
     \<exists>k \<le> length es. page_entries crc f m b p n acc =
         Inr (acc @ take k es, p + length (hint_frames crc (take k es)), k = length es)
       \<and> (es \<noteq> [] \<longrightarrow> acc = [] \<longrightarrow> 0 < m \<longrightarrow> 0 < k)"
proof (induction es arbitrary: p n acc)
  case Nil
  then have "read_hint_entry crc f p = Inr None" by (simp add: read_hint_entry_end readable_not_faulty)
  with Nil show ?case by (simp add: page_entries.simps [of crc f m b p n acc] file_len_def)
next
  case (Cons e es)
  let ?q = "p + length (hint_frame crc e)"
  have len: "p < length (fbytes f)"
    using Cons.prems(3) hint_frame_length [of crc e] by (metis add_gr_0 drop_all hint_frame_length
        leI list.size(3) length_append not_add_less1 concat.simps(2) list.simps(9) HINT_HEADER_SIZE_def
        CRC_SIZE_def zero_less_numeral less_irrefl)
  show ?case
  proof (cases "length acc < m \<and> (acc = [] \<or> n < b)")
    case False
    then show ?thesis using len Cons.prems
      by (intro exI [of _ 0]) (auto simp: page_entries.simps [of crc f m b p n acc] file_len_def)
  next
    case True
    have rd: "read_hint_entry crc f p = Inr (Some (e, ?q))"
      using Cons.prems by (simp add: read_hint_entry_Some readable_not_faulty)
    have "drop ?q (fbytes f) = hint_frames crc es"
      using Cons.prems(3) by (simp add: add.commute [of p] flip: drop_drop)
    with Cons.IH [of ?q "saturating_add64 n (HINT_HEADER_SIZE + length (he_key e))" "acc @ [e]"] Cons.prems
    obtain k where "k \<le> length es" "page_entries crc f m b ?q
        (saturating_add64 n (HINT_HEADER_SIZE + length (he_key e))) (acc @ [e]) =
         Inr (acc @ e # take k es, ?q + length (hint_frames crc (take k es)), k = length es)"
      by auto
    then show ?thesis using True rd
      by (intro exI [of _ "Suc k"]) (simp add: page_entries.simps [of crc f m b p n acc] add.assoc)
  qed
qed

text \<open>C1. No corrupt pointer reaches the keydir: whatever the file holds, a page that is returned
  consists of entries whose complete, checksummed frames stand in the file one after the
  other from the requested offset to the offset handed back, and there are at most
  \<^verbatim>\<open>max_entries\<close> of them.\<close>

theorem hint_page_sound:
  assumes "read_page crc f off max_entries max_bytes = Inr (es, nxt, fin)"
  shows "list_all hint_ok es \<and> prefix (hint_frames crc es) (drop off (readable f))
    \<and> nxt = off + length (hint_frames crc es) \<and> length es \<le> max_entries"
  using assms page_entries_sound [of crc f max_entries max_bytes off 0 "[]" es nxt fin]
  by (auto simp: read_page_def split: if_splits)

text \<open>C1. Paging makes progress and loses nothing: on a readable hint file that holds the frames
  of \<open>es\<close> from an offset on, a page returns the first \<open>k\<close> of them, at least one when there is
  one whatever the byte budget, hands back the offset of the others, and says it is done
  exactly when there are no others.\<close>

theorem hint_page_progress:
  assumes "list_all hint_ok es" "\<not> faulty f" "drop off (fbytes f) = hint_frames crc es"
    and "0 < max_entries" "max_entries \<le> MAX_HINT_PAGE_ENTRIES" "0 < max_bytes" "max_bytes \<le> MAX_HINT_PAGE_BYTES"
  shows "\<exists>k \<le> length es. read_page crc f off max_entries max_bytes =
         Inr (take k es, off + length (hint_frames crc (take k es)), k = length es)
      \<and> (es \<noteq> [] \<longrightarrow> 0 < k)
      \<and> drop (off + length (hint_frames crc (take k es))) (fbytes f) = hint_frames crc (drop k es)"
proof -
  from page_entries_progress [OF assms(1-3), of max_entries max_bytes 0 "[]"] obtain k
    where k: "k \<le> length es" "page_entries crc f max_entries max_bytes off 0 [] =
         Inr (take k es, off + length (hint_frames crc (take k es)), k = length es)"
      "es \<noteq> [] \<longrightarrow> 0 < max_entries \<longrightarrow> 0 < k" by auto
  have "hint_frames crc es = hint_frames crc (take k es) @ hint_frames crc (drop k es)"
    by (metis append_take_drop_id concat_append map_append)
  then have "drop (off + length (hint_frames crc (take k es))) (fbytes f) = hint_frames crc (drop k es)"
    using assms(3) by (metis add.commute append_eq_conv_conj drop_drop)
  with k assms(4-7) show ?thesis by (intro exI [of _ k]) (simp add: read_page_def)
qed

definition sample_hint :: hint_entry where
  "sample_hint = \<lparr>he_file_id = 7, he_offset = 0, he_value_size = 2, he_expire_at_ms = 0, he_key = [107]\<rparr>"

lemma sample_hint_ok [simp]: "hint_ok sample_hint" "length (hint_frame crc sample_hint) = 35"
  by (simp_all add: hint_frame_length) (simp_all add: hint_ok_def sample_hint_def)

theorem hint_page_progress_witness:
  "read_page (\<lambda>bs. 0) (good_file (hint_frames (\<lambda>bs. 0) [sample_hint])) 0 1 1 = Inr ([sample_hint], 35, True)"
  using hint_page_progress [of "[sample_hint]" "good_file (hint_frames (\<lambda>bs. 0) [sample_hint])" 0 "\<lambda>bs. 0" 1 1]
  by (auto simp: MAX_HINT_PAGE_ENTRIES_def MAX_HINT_PAGE_BYTES_def le_Suc_eq)

lemma sample_page:
  "read_page (\<lambda>bs. 0) (good_file (hint_frame (\<lambda>bs. 0) sample_hint)) 0 1 1 = Inr ([sample_hint], 35, True)"
proof -
  have "read_hint_entry (\<lambda>bs. 0) (good_file (hint_frame (\<lambda>bs. 0) sample_hint)) 0 = Inr (Some (sample_hint, 35))"
    by (simp add: read_hint_entry_Some)
  then show ?thesis
    by (simp add: read_page_def MAX_HINT_PAGE_ENTRIES_def MAX_HINT_PAGE_BYTES_def page_entries.simps)
qed

theorem hint_page_sound_witness:
  "prefix (hint_frame (\<lambda>bs. 0) sample_hint) (hint_frame (\<lambda>bs. 0) sample_hint) \<and>
   35 = length (hint_frames (\<lambda>bs. 0) [sample_hint]) \<and> hint_ok sample_hint"
  using hint_page_sound [OF sample_page] by simp

end
