(* ===== verification/Hint_Build.thy ===== *)
theory Hint_Build
  imports Hint Log_Scan Log_Pread
begin

text \<open>
  Building the hint of a sealed log (\<^verbatim>\<open>v2_build_hint_file_from_log\<close> in
  \<^verbatim>\<open>src/sections/part_02.rs\<close>): a pass of the log's metadata reader that writes one hint entry per
  live record.  This composes the log reader, the hint writer and the positioned reader that
  later follows the hint's pointers.
\<close>

datatype build_error =
    BuildLog log_error
  | BuildHint hint_error
  | BuildOffsetOverflow

definition hint_of_metadata :: "u64 \<Rightarrow> record_metadata \<Rightarrow> hint_entry" where
  "hint_of_metadata file_id m =
     \<lparr>he_file_id = file_id, he_offset = word_of_nat (m_offset m), he_value_size = m_value_size m,
      he_expire_at_ms = m_expire_at_ms m, he_key = m_key m\<rparr>"

lemma metadata_read_bound:
  "read_next_record_metadata crc f p offset = Inr (Some (m, q)) \<Longrightarrow> p < q \<and> q \<le> file_len f"
  by (frule read_next_record_metadata_progress)
    (auto simp: read_next_record_Some dest!: prefix_length_le intro: le_trans [OF _ length_readable_le [of f]])

function build_loop ::
  "crc_fn \<Rightarrow> os_file \<Rightarrow> u64 \<Rightarrow> nat \<Rightarrow> nat \<Rightarrow> nat \<Rightarrow> (hint_state, build_error, nat \<times> nat) step" where
  "build_loop crc f file_id p offset entry_count s =
     (case read_next_record_metadata crc f p offset of
        Inl e \<Rightarrow> (Inl (BuildLog e), s)
      | Inr (Some (m, q)) \<Rightarrow>
          (case checked_add64 offset (m_record_size m) of
             None \<Rightarrow> (Inl BuildOffsetOverflow, s)
           | Some offset' \<Rightarrow>
               if \<not> m_is_tombstone m then
                 (case write_entry crc (hint_of_metadata file_id m) s of
                    (Inl e, s') \<Rightarrow> (Inl (BuildHint e), s')
                  | (Inr _, s') \<Rightarrow> build_loop crc f file_id q offset' (saturating_add64 entry_count 1) s')
               else build_loop crc f file_id q offset' entry_count s)
      | Inr None \<Rightarrow>
          (case hint_commit s of
             (Inl e, s') \<Rightarrow> (Inl (BuildHint e), s')
           | (Inr _, s') \<Rightarrow> (Inr (entry_count, offset), s')))"
  by pat_completeness auto

termination
  by (relation "measure (\<lambda>(crc, f, file_id, p, offset, entry_count, s). file_len f - p)")
    (auto dest!: metadata_read_bound)

declare build_loop.simps [simp del]

definition v2_build_hint_file_from_log ::
  "crc_fn \<Rightarrow> os_file \<Rightarrow> u64 \<Rightarrow> (hint_state, build_error, nat \<times> nat) step" where
  "v2_build_hint_file_from_log crc f file_id s =
     (case hint_open s of
        (Inl e, s') \<Rightarrow> (Inl (BuildHint e), s')
      | (Inr _, s') \<Rightarrow> (case build_loop crc f file_id 0 0 0 s' of (r, s'') \<Rightarrow> (r, hint_drop s'')))"

section \<open>What the hint holds\<close>

text \<open>The metadata of the live records of a log, and whether a hint's pointer leads to a live
  record of its key and value size.\<close>

definition live_hints :: "u64 \<Rightarrow> nat \<Rightarrow> log_record list \<Rightarrow> hint_entry list" where
  "live_hints file_id offset rs =
     map (hint_of_metadata file_id) (filter (\<lambda>m. \<not> m_is_tombstone m) (metas offset rs))"

definition hint_resolves :: "crc_fn \<Rightarrow> os_file \<Rightarrow> hint_entry \<Rightarrow> bool" where
  "hint_resolves crc f h \<longleftrightarrow>
     (case pread_value_for_key crc f (unat (he_offset h)) (he_key h) of
        Inr (Some (Some v)) \<Rightarrow> length v = unat (he_value_size h)
      | _ \<Rightarrow> False)"

lemma metadata_cases:
  obtains (err) e where "read_next_record_metadata crc f p off = Inl e"
    | (none) "read_next_record_metadata crc f p off = Inr None"
    | (some) m q where "read_next_record_metadata crc f p off = Inr (Some (m, q))"
  by (cases "read_next_record_metadata crc f p off") (auto, metis option.exhaust surj_pair)

text \<open>The unread part is records and readable exactly when, past one more record, the rest is.\<close>

definition only_frames :: "crc_fn \<Rightarrow> os_file \<Rightarrow> nat \<Rightarrow> log_record list \<Rightarrow> bool" where
  "only_frames crc f p rs \<longleftrightarrow>
     all_ok rs \<and> drop p (readable f) = frames crc rs \<and> \<not> (faulty f \<and> p < file_len f)"

lemma metadata_step:
  assumes "read_next_record_metadata crc f p off = Inr (Some (m, q))"
  obtains r where "m = metadata_of off r" "m_record_size m = length (frame_bytes crc r)"
    "26 \<le> length (frame_bytes crc r)"
    "\<And>rs. only_frames crc f q rs \<Longrightarrow> only_frames crc f p (r # rs)"
proof -
  from read_next_record_metadata_progress [OF assms] obtain r where
    r: "read_next_record crc f p = Inr (Some (r, q))" "m = metadata_of off r" by blast
  then have fr: "record_ok r" "prefix (frame_bytes crc r) (drop p (readable f))"
    and q: "q = p + length (frame_bytes crc r)"
    by (auto simp: read_next_record_Some)
  have "drop p (readable f) = frames crc (r # rs)" if "drop q (readable f) = frames crc rs" for rs
    using fr(2) that by (auto simp: q prefix_def add.commute [of p] simp flip: drop_drop)
  moreover have "q \<le> length (readable f)"
    using prefix_length_le [OF fr(2)] frame_length_ge [of crc r] q by simp
  ultimately have "only_frames crc f p (r # rs)" if "only_frames crc f q rs" for rs
    using that fr(1) readable_short_iff [of f] by (auto simp: only_frames_def)
  then show thesis using that [of r] r(2) by (simp add: metadata_of_def frame_length)
qed

lemma keeps_final_run: "keeps_final m \<Longrightarrow> m s = (r, s') \<Longrightarrow> hs_final s' = hs_final s"
  unfolding keeps_final_def by blast

lemma build_loop_Inl:
  "build_loop crc f fid p off n s = (Inl e, s') \<Longrightarrow> hs_final s' = hs_final s"
proof (induction crc f fid p off n s rule: build_loop.induct)
  case (1 crc f fid p off n s)
  show ?case
  proof (cases rule: metadata_cases [of crc f p off])
    case err
    then show ?thesis using "1.prems" by (simp add: build_loop.simps [of crc f fid p off n s])
  next
    case none
    then show ?thesis using "1.prems"
      by (auto simp: build_loop.simps [of crc f fid p off n s] dest: hint_commit_Inl split: prod.splits sum.splits)
  next
    case (some m q)
    show ?thesis
    proof (cases "checked_add64 off (m_record_size m)")
      case None
      then show ?thesis using "1.prems" some by (simp add: build_loop.simps [of crc f fid p off n s])
    next
      case (Some off')
      show ?thesis
      proof (cases "m_is_tombstone m")
        case True
        then show ?thesis using "1.prems" some Some "1.IH"(2) [OF some refl refl Some]
          by (simp add: build_loop.simps [of crc f fid p off n s])
      next
        case False
        obtain r s1 where w: "write_entry crc (hint_of_metadata fid m) s = (r, s1)" by force
        have "hs_final s1 = hs_final s" by (rule keeps_final_run [OF keeps_final_write_entry w])
        with False w show ?thesis using "1.prems" some Some "1.IH"(1) [OF some refl refl Some False w [symmetric]]
          by (cases r) (auto simp: build_loop.simps [of crc f fid p off n s])
      qed
    qed
  qed
qed

lemma build_loop_Inr:
  "build_loop crc f fid p off n s = (Inr (cnt, e), s') \<Longrightarrow> hint_open_state s \<Longrightarrow> n \<le> off \<Longrightarrow>
     \<exists>rs. only_frames crc f p rs \<and> e = off + length (frames crc rs) \<and> cnt = n + length (live_hints fid off rs)
       \<and> hs_final s' = Some (hint_taken s @ hint_frames crc (live_hints fid off rs)) \<and> e \<le> max off U64_MAX"
proof (induction crc f fid p off n s rule: build_loop.induct)
  case (1 crc f fid p off n s)
  note unfold = build_loop.simps [of crc f fid p off n s]
  show ?case
  proof (cases rule: metadata_cases [of crc f p off])
    case err
    then show ?thesis using "1.prems" by (simp add: unfold)
  next
    case none
    then have "read_next_record crc f p = Inr None"
      by (auto simp: read_next_record_metadata_eq bind_res_Inr)
    moreover from none "1.prems" have "hint_commit s = (Inr (), s')" "cnt = n" "e = off"
      by (auto simp: unfold split: prod.splits sum.splits)
    ultimately show ?thesis using hint_commit_Inr [of s s']
      by (intro exI [of _ "[]"]) (simp add: read_next_None live_hints_def only_frames_def)
  next
    case (some m q)
    from metadata_step [OF some] obtain r where r: "m = metadata_of off r"
      "m_record_size m = length (frame_bytes crc r)" "26 \<le> length (frame_bytes crc r)"
      "\<And>rs. only_frames crc f q rs \<Longrightarrow> only_frames crc f p (r # rs)" by metis
    from "1.prems"(1) some obtain off' where off': "checked_add64 off (m_record_size m) = Some off'"
      by (cases "checked_add64 off (m_record_size m)") (auto simp: unfold)
    then have oe: "off' = off + length (frame_bytes crc r)" "off' \<le> U64_MAX" "Suc n \<le> off'"
      using r(2,3) "1.prems"(3) by (auto simp: checked_add64_def split: if_splits)
    show ?thesis
    proof (cases "m_is_tombstone m")
      case True
      then have "build_loop crc f fid q off' n s = (Inr (cnt, e), s')"
        using "1.prems"(1) some off' by (simp add: unfold)
      from "1.IH"(2) [OF some refl refl off' _ this "1.prems"(2)] True oe obtain rs where
        "only_frames crc f q rs" "e = off' + length (frames crc rs)" "cnt = n + length (live_hints fid off' rs)"
        "hs_final s' = Some (hint_taken s @ hint_frames crc (live_hints fid off' rs))" "e \<le> max off' U64_MAX"
        by auto
      with True oe r show ?thesis by (intro exI [of _ "r # rs"]) (simp add: live_hints_def)
    next
      case False
      from False "1.prems"(1) some off' obtain s1
        where w: "write_entry crc (hint_of_metadata fid m) s = (Inr (), s1)"
          and run: "build_loop crc f fid q off' (saturating_add64 n 1) s1 = (Inr (cnt, e), s')"
        by (auto simp: unfold split: prod.splits sum.splits)
      have sat: "saturating_add64 n 1 = Suc n" using oe by (simp add: saturating_add64_def)
      note we = write_entry_Inr [OF w "1.prems"(2)]
      from "1.IH"(1) [OF some refl refl off' False w [symmetric] refl run] we oe sat obtain rs where
        "only_frames crc f q rs" "e = off' + length (frames crc rs)" "cnt = Suc n + length (live_hints fid off' rs)"
        "hs_final s' = Some (hint_taken s1 @ hint_frames crc (live_hints fid off' rs))" "e \<le> max off' U64_MAX"
        by auto
      with False oe r we show ?thesis by (intro exI [of _ "r # rs"]) (simp add: live_hints_def)
    qed
  qed
qed

lemma live_hints_resolve:
  "only_frames crc f p rs \<Longrightarrow> file_len f \<le> U64_MAX \<Longrightarrow> p + length (frames crc rs) \<le> U64_MAX \<Longrightarrow>
     list_all (hint_resolves crc f) (live_hints fid p rs)"
proof (induction rs arbitrary: p)
  case (Cons r rs)
  let ?q = "p + length (frame_bytes crc r)"
  have fr: "drop p (readable f) = frame_bytes crc r @ frames crc rs" "record_ok r"
    using Cons.prems(1) by (auto simp: only_frames_def)
  have "only_frames crc f ?q rs"
    using Cons.prems(1) fr by (auto simp: only_frames_def add.commute [of p] simp flip: drop_drop)
  from Cons.IH [OF this Cons.prems(2)] Cons.prems(3)
  have rest: "list_all (hint_resolves crc f) (live_hints fid ?q rs)" by simp
  have "hint_resolves crc f (hint_of_metadata fid (metadata_of p r))" if live: "rvalue r = Some v" for v
  proof -
    have "pread_value_for_key crc f p (rkey r) = Inr (Some (Some v))"
      using fr live by (auto simp: pread_value_for_key_Some [OF Cons.prems(2)])
    moreover have "unat (word_of_nat p :: u64) = p"
      using Cons.prems(3) by (simp add: unat_of_nat_64)
    ultimately show ?thesis
      using live fr(2) by (simp add: hint_resolves_def hint_of_metadata_def metadata_of_def value_bytes_def
          record_ok_def unat_of_nat_32)
  qed
  with rest show ?case
    by (cases "rvalue r") (simp_all add: live_hints_def metadata_of_def frame_length)
qed (simp add: live_hints_def)

text \<open>C1. A hint built from a sealed log is complete and points nowhere else.  When the builder
  answers \<^verbatim>\<open>:ok\<close>, the log consisted of whole records only, the hint file holds one frame per
  live record in log order, the count and the end offset are exact, and following any of its
  pointers with a keyed read returns a value of the recorded size.  On any error the final
  hint path is untouched.\<close>

theorem hint_build_exact:
  assumes "file_len f \<le> U64_MAX"
  shows "case v2_build_hint_file_from_log crc f file_id s of
      (Inr (cnt, e), s') \<Rightarrow> \<exists>rs. all_ok rs \<and> readable f = frames crc rs \<and> e = length (readable f)
         \<and> cnt = length (live_hints file_id 0 rs) \<and> hs_final s' = Some (hint_frames crc (live_hints file_id 0 rs))
         \<and> list_all (hint_resolves crc f) (live_hints file_id 0 rs)
    | (Inl _, s') \<Rightarrow> hs_final s' = hs_final s"
proof -
  obtain r s1 where op: "hint_open s = (r, s1)" by force
  obtain r2 s2 where lp: "build_loop crc f file_id 0 0 0 s1 = (r2, s2)" by force
  show ?thesis
  proof (cases r)
    case (Inl x)
    then show ?thesis using op hint_open_final [OF op] by (simp add: v2_build_hint_file_from_log_def)
  next
    case (Inr u)
    note o = hint_open_Inr [OF op [unfolded Inr]]
    have res: "v2_build_hint_file_from_log crc f file_id s = (r2, hint_drop s2)"
      using op Inr lp by (simp add: v2_build_hint_file_from_log_def)
    show ?thesis
    proof (cases r2)
      case (Inl x)
      then show ?thesis using res o build_loop_Inl lp by fastforce
    next
      case (Inr ce)
      obtain cnt e where ce: "ce = (cnt, e)" by force
      from build_loop_Inr [OF lp [unfolded Inr ce]] o obtain rs where rs: "only_frames crc f 0 rs"
        "e = length (frames crc rs)" "cnt = length (live_hints file_id 0 rs)"
        "hs_final s2 = Some (hint_frames crc (live_hints file_id 0 rs))" "e \<le> U64_MAX" by auto
      with live_hints_resolve [OF rs(1) assms] res Inr ce show ?thesis
        by (auto simp: only_frames_def)
    qed
  qed
qed

definition sample_hint_state :: hint_state where
  "sample_hint_state = \<lparr>hs_writer = \<lparr>bw_buf = [], bw_capacity = 8192\<rparr>,
     hs_os = \<lparr>d_bytes = [], d_synced = [], d_poisoned = False, d_script = []\<rparr>, hs_tmp = False, hs_final = None\<rparr>"

lemma sample_read:
  "read_next_record_metadata sum_crc (good_file (frame_bytes sum_crc sample_record)) 0 0 = Inr (Some (metadata_of 0 sample_record, 29))"
  "read_next_record_metadata sum_crc (good_file (frame_bytes sum_crc sample_record)) 29 29 = Inr None"
proof -
  let ?f = "good_file (frame_bytes sum_crc sample_record)"
  have "read_next_record sum_crc ?f 0 = Inr (Some (sample_record, 29))" "read_next_record sum_crc ?f 29 = Inr None"
    by (simp_all add: read_next_record_Some read_next_None)
  then show "read_next_record_metadata sum_crc ?f 0 0 = Inr (Some (metadata_of 0 sample_record, 29))"
    "read_next_record_metadata sum_crc ?f 29 29 = Inr None"
    by (simp_all add: read_next_record_metadata_eq)
qed

lemma sample_metadata: "m_record_size (metadata_of 0 sample_record) = 29" "\<not> m_is_tombstone (metadata_of 0 sample_record)"
  "m_key (metadata_of 0 sample_record) = [107]"
  by (simp_all add: metadata_of_def sample_record_def value_bytes_def)

lemma sample_build:
  "fst (v2_build_hint_file_from_log sum_crc (good_file (frame_bytes sum_crc sample_record)) 7 sample_hint_state) = Inr (1, 29)"
  by (simp add: v2_build_hint_file_from_log_def build_loop.simps sample_read sample_metadata hint_open_def sample_hint_state_def
     hint_os_def os_path_call_def st_bind_def checked_add64_def U64_MAX_def write_entry_def hint_of_metadata_def Let_def hint_io_def bw_write_all_def bw_fill_def hint_commit_def flush_buf_def
     write_loop.simps os_write_def os_sync.simps saturating_add64_def)

theorem hint_build_exact_witness:
  "\<exists>rs. frame_bytes sum_crc sample_record = frames sum_crc rs \<and> length (live_hints 7 0 rs) = 1
     \<and> list_all (hint_resolves sum_crc (good_file (frame_bytes sum_crc sample_record))) (live_hints 7 0 rs)"
  using hint_build_exact [where f = "good_file (frame_bytes sum_crc sample_record)" and crc = sum_crc
      and file_id = 7 and s = sample_hint_state] sample_build
  by (cases "v2_build_hint_file_from_log sum_crc (good_file (frame_bytes sum_crc sample_record)) 7 sample_hint_state")
    (auto simp: U64_MAX_def)

end
