(* ===== verification/Raft_Dictionary.thy ===== *)
theory Raft_Dictionary
  imports Prelude
begin

text \<open>
  The frozen dictionary of the compact Raft command form
  (\<^verbatim>\<open>src/raft_command_dictionary_v1.rs\<close>): the atom names in reference order, and the one whole
  term.  Entries written with it are expanded with it forever.
\<close>

definition ATOMS_V1 :: "string list" where
  "ATOMS_V1 = [
    ''wall_time_ms'', ''ferricstore_apply_context_v1'', ''ferricstore_apply_context'',
    ''policy_reference_captured'', ''flow_policy_fence'', ''hlc_ts'', ''partition_key'',
    ''clear_key_locks'', ''generation'', ''policy_ref'', ''true'', ''type'', ''digest'',
    ''attributes_delete'', ''attributes_merge'', ''attributes'', ''policy_guard'',
    ''incarnation'', ''fencing_token'', ''run_at_ms'', ''now_ms'', ''flow_create'', ''nil'',
    ''flush_shard'', ''state_key'', ''lease_token'', ''flow_complete'', ''state'', ''payload'',
    ''id'', ''stream_append'', ''result'', ''compound_delete_prefix'', ''flow_claim_due'',
    ''ferricstore_apply_context_barrier'', ''cold_due_mode'', ''created_at_ms'',
    ''initial_run_at_ms'', ''ownership_secret'', ''next_run_at_ms'', ''priority'', ''lease_ms'',
    ''planned_key_count'', ''fire_count'', ''false'', ''schedule_metadata'', ''stream_mutate'',
    ''correlation_id'', ''flow_signal'', ''governance_ledger_index_key'',
    ''terminal_retention_until_ms'', ''worker'', ''one_shot'', ''expected_version'', ''allow'',
    ''history_hot_max_events'', ''cleanup_member_entries'', ''compound_delete'', ''limit'',
    ''target_type'', ''kind'', ''last_fire_at_ms'', ''parent_partition_key'', ''explicit'',
    ''exclude_states'', ''history_max_events'', ''target'', ''last_target_id'',
    ''overlap_policy'', ''guard_key'', ''hset_single'', ''cleanup_index_key'',
    ''lease_deadline_ms'', ''retention_ttl_ms'', ''signal'', ''auto'', ''catchup_policy'',
    ''history_entries'', ''state_enter_seq'', ''start_at_ms'', ''parent_flow_id'',
    ''expected_guard'', ''delete_state?'', ''updated_at_ms'', ''id_prefix'', ''flow_policy_put'',
    ''root_flow_id'', ''ttl_ms'', ''child_groups'', ''cleanup_plan'', ''registry_key'',
    ''interval'', ''payload_ref'', ''history_key'', ''lease_owner'', ''shard_index'',
    ''result_ref'', ''fire_once'', ''run_state'', ''flow_reschedule'', ''error_ref'',
    ''flow_consistent_state'', ''every_ms'', ''queue_after_previous'', ''attempts'',
    ''end_reason'', ''any'', ''flow_policy_patch_allocate'', ''version'',
    ''last_overlap_target_id'', ''overlap_retry_ms'', ''flow_schedule_replace'', ''fired_at_ms'',
    ''flow_policy_catalog_backfill_step'', ''last_overlap_reason'', ''record'',
    ''last_overlap_at_ms'', ''partition_key_explicit'', ''fetch_or_compute_lock'',
    ''overlap_queued_due_at_ms'', ''target_id'', ''delete'', ''overlap_retry_streak'', ''read'',
    ''fetch_or_compute_fail'', ''timezone'', ''ratelimit_add'', ''expected_cursor'', ''cron'',
    ''put'', ''source_token'', ''maxlen'', ''expect_state'', ''policy_refs'',
    ''compound_type_claim'', ''flow_create_many'', ''run_token'', ''fetch_or_compute_publish'',
    ''flow_cancel'', ''flow_retention_cleanup'', ''candidates'', ''compound_batch_put'',
    ''last_coalesced_count'', ''create'', ''last_catchup_at_ms'', ''stream_append_many_auto'',
    ''mode'', ''terminal_candidates'', ''stream_append_grouped_auto'', ''states'', ''msetnx'',
    ''records'', ''coalesced_count'', ''schedule_id'', ''error'', ''end_at_ms'',
    ''skipped_count'', ''fifo'', ''ack'', ''done?'', ''from_state'', ''cursor'',
    ''indexed_state_meta'', ''last_skipped_at_ms'', ''flow_policy_migration_step'', ''skip'',
    ''__flow_shard_index__'', ''migration_generation'', ''flow_fail'', ''flow_retry'',
    ''flow_transition'', ''max_retries'', ''exhausted_to'', ''partition_keys'', ''to_state'',
    ''fail_schedule'', ''membership_revision'', ''catalog_entries'', ''flow_start_and_claim'',
    ''last_planning_error'', ''backfill_proof'', ''job_key'', ''flow_step_continue'',
    ''state_meta_update'', ''claim'', ''idempotent'', ''lock'', ''state_meta_state'', ''batch'',
    ''max_fires'', ''list_op'', ''infinity'', ''record_value'', ''retention'', ''retry_policy'',
    ''flow_start_and_claim_pipeline_batch'', ''flow_extend_lease'', ''hash'', ''extend'',
    ''reason'', ''unlock'', ''value_refs'', ''max_active_ms'', ''flow_create_pipeline_batch'',
    ''key_lifecycle'', ''retry'', ''rpush'', ''cas'', ''compound_put'',
    ''fetch_or_compute_release'', ''compound_blob_batch_put'', ''stream_append_blob_ref'',
    ''backoff'', ''base_ms'', ''compound_batch_delete'', ''flow_transition_many'', ''idle?'',
    ''jitter_pct'', ''flow_spawn_children'', ''flow_complete_many'', ''max_ms'',
    ''previous_target_id'', ''flow_cancel_many'', ''on_parent_closed'', ''parallel'',
    ''idempotency_key'', ''block'', ''cancel_children'', ''fixed'', ''flow_retry_many'',
    ''on_child_failed'', ''flow_fail_many'', ''list_op_lmove'', ''transition_to'', ''job'',
    ''catalog_key'', ''fail_parent'', ''flow_rewind'', ''delay'', ''exhaust_to'', ''reason_ref'',
    ''wait_state'', ''blob_ref'', ''children'', ''delay_ms'', ''group_id'', ''if_state'',
    ''to_event'', ''rename'', ''shared'', ''values'', ''lpush'', ''right'', ''copy'', ''left'',
    ''list'', ''mset'', ''trim'', ''wait'', ''zset'', ''set'', ''flow_named_value_put'',
    ''indexed_attributes'', ''override'', ''value'', ''name'', ''append'', ''append_blob_ref'',
    ''async'', ''bloom_add'', ''bloom_create'', ''bloom_madd'', ''cas_blob_ref'', ''cms_create'',
    ''cms_incrby'', ''cms_merge'', ''compound_put_blob_ref'', ''cross_shard_tx'', ''cuckoo_add'',
    ''cuckoo_addnx'', ''cuckoo_create'', ''cuckoo_del'', ''delete_batch'', ''delete_prefix'',
    ''expire_if_batch'', ''ferricstore_latency_trace'', ''fetch_or_compute_publish_blob_ref'',
    ''flow_create_with_catalog'', ''flow_governance_limit_catalog_outbox_ack'',
    ''flow_governance_limit_mutate'', ''flow_governance_release_outbox_ack'',
    ''flow_governance_release_outbox_mark_completed'', ''flow_named_value_put_pipeline_batch'',
    ''flow_policy_attribute_catalog_repair'', ''flow_policy_attribute_catalog_repair_request'',
    ''flow_restore'', ''flow_run_steps_many'', ''flow_signal_many'', ''flow_step_continue_many'',
    ''flow_terminal_pipeline_batch'', ''getdel'', ''getex'', ''getset'', ''getset_blob_ref'',
    ''hincrby'', ''hincrbyfloat'', ''incr'', ''incr_float'', ''lpush_single'',
    ''mset_blob_batch'', ''msetnx_blob_batch'', ''pfadd'', ''pfmerge'', ''prob_restore'',
    ''put_batch'', ''put_blob_batch'', ''put_blob_ref'', ''rpush_single'', ''sadd_single'',
    ''server_catalog_mutate'', ''server_catalog_replace'', ''set_blob_ref'', ''setbit'',
    ''setrange'', ''setrange_blob_ref'', ''spop'', ''srem_single'', ''topk_add'',
    ''topk_create'', ''topk_incrby'', ''ttb'', ''tx_execute'', ''watch_token'', ''watch_tokens'',
    ''zadd_many_single'', ''zadd_single'', ''zincrby'', ''zpop'', ''zrem_single'']"

definition TERMS_V1 :: "bytes list" where
  "TERMS_V1 = [[
    104, 24, 119, 28, 102, 101, 114, 114, 105, 99, 115, 116, 111, 114, 101, 95, 97, 112, 112,
    108, 121, 95, 99, 111, 110, 116, 101, 120, 116, 95, 118, 49, 98, 36, 12, 132, 0, 97, 0, 98,
    0, 1, 134, 160, 98, 0, 0, 39, 16, 98, 0, 15, 66, 64, 98, 0, 0, 4, 0, 98, 0, 128, 0, 0, 98, 0,
    1, 134, 160, 98, 0, 1, 134, 160, 119, 4, 116, 114, 117, 101, 98, 0, 4, 147, 224, 97, 0, 98,
    0, 0, 234, 96, 98, 0, 4, 147, 224, 98, 0, 0, 3, 232, 97, 100, 98, 0, 0, 78, 32, 98, 0, 0, 16,
    0, 98, 0, 0, 3, 232, 98, 0, 0, 16, 0, 98, 0, 128, 0, 0, 98, 0, 16, 0, 0, 119, 3, 110, 105, 108]]"

lemma dictionary_v1_sizes: "length ATOMS_V1 = 339" "length TERMS_V1 = 1"
  by (simp_all add: ATOMS_V1_def TERMS_V1_def)

lemma dictionary_v1_bounds:
  "list_all (\<lambda>a. length a \<le> 45) ATOMS_V1" "list_all (\<lambda>t. length t \<le> 139) TERMS_V1"
  by (simp_all add: ATOMS_V1_def TERMS_V1_def)

end
