(* ===== verification/Raft_Command.thy ===== *)
theory Raft_Command
  imports Raft_Dictionary "HOL-Library.Monad_Syntax" "HOL-Library.Sublist"
begin

text \<open>
  The compact form of Raft log commands (\<^verbatim>\<open>src/raft_command_codec.rs\<close>).  A command in the
  Erlang external term format is rewritten with references into a frozen dictionary;
  \<^verbatim>\<open>expand\<close> restores it.  Both directions walk nested terms with a depth limit; output is
  accumulated in \<open>out\<close>, and a position in the input is returned.

  The lemmas show that expansion undoes compaction term by term, so that the comparison at
  the end of \<^verbatim>\<open>compact\<close> never fails, and bound the size of what \<^verbatim>\<open>expand\<close> produces.
\<close>

section \<open>Tags\<close>

definition MAGIC :: u8 where "MAGIC = 252"
definition DICTIONARY_V1 :: u8 where "DICTIONARY_V1 = 1"
definition ATOM_REF :: u8 where "ATOM_REF = 1"
definition TERM_REF :: u8 where "TERM_REF = 2"
definition WIDE_ATOM_REF :: u8 where "WIDE_ATOM_REF = 3"
definition MAX_DEPTH :: nat where "MAX_DEPTH = 128"
definition VERSION_MAGIC :: u8 where "VERSION_MAGIC = 131"
definition NEW_FLOAT_EXT :: u8 where "NEW_FLOAT_EXT = 70"
definition BIT_BINARY_EXT :: u8 where "BIT_BINARY_EXT = 77"
definition SMALL_INTEGER_EXT :: u8 where "SMALL_INTEGER_EXT = 97"
definition INTEGER_EXT :: u8 where "INTEGER_EXT = 98"
definition SMALL_TUPLE_EXT :: u8 where "SMALL_TUPLE_EXT = 104"
definition LARGE_TUPLE_EXT :: u8 where "LARGE_TUPLE_EXT = 105"
definition NIL_EXT :: u8 where "NIL_EXT = 106"
definition STRING_EXT :: u8 where "STRING_EXT = 107"
definition LIST_EXT :: u8 where "LIST_EXT = 108"
definition BINARY_EXT :: u8 where "BINARY_EXT = 109"
definition SMALL_BIG_EXT :: u8 where "SMALL_BIG_EXT = 110"
definition LARGE_BIG_EXT :: u8 where "LARGE_BIG_EXT = 111"
definition MAP_EXT :: u8 where "MAP_EXT = 116"
definition ATOM_UTF8_EXT :: u8 where "ATOM_UTF8_EXT = 118"
definition SMALL_ATOM_UTF8_EXT :: u8 where "SMALL_ATOM_UTF8_EXT = 119"

lemmas tag_defs = MAGIC_def DICTIONARY_V1_def ATOM_REF_def TERM_REF_def WIDE_ATOM_REF_def VERSION_MAGIC_def
  NEW_FLOAT_EXT_def BIT_BINARY_EXT_def SMALL_INTEGER_EXT_def INTEGER_EXT_def SMALL_TUPLE_EXT_def
  LARGE_TUPLE_EXT_def NIL_EXT_def STRING_EXT_def LIST_EXT_def BINARY_EXT_def SMALL_BIG_EXT_def
  LARGE_BIG_EXT_def MAP_EXT_def ATOM_UTF8_EXT_def SMALL_ATOM_UTF8_EXT_def

definition MAX_NIF_INPUT :: nat where "MAX_NIF_INPUT = 64 * 1024"

section \<open>The dictionary\<close>

record dictionary =
  d_atoms :: "bytes list"
  d_terms :: "bytes list"

text \<open>The index is a hash map collected in order, so that a later duplicate replaces an earlier
  one.\<close>

definition atom_ref :: "dictionary \<Rightarrow> bytes \<Rightarrow> u16 option" where
  "atom_ref dict name =
     map_of (rev (zip (d_atoms dict) (map word_of_nat [0..<length (d_atoms dict)]))) name"

definition dict_atom :: "dictionary \<Rightarrow> nat \<Rightarrow> bytes option" where
  "dict_atom dict index = get_at index (d_atoms dict)"

definition V1 :: dictionary where
  "V1 = \<lparr>d_atoms = map as_bytes ATOMS_V1, d_terms = TERMS_V1\<rparr>"

definition dictionary_of :: "u8 \<Rightarrow> dictionary option" where
  "dictionary_of version = (if version = DICTIONARY_V1 then Some V1 else None)"

section \<open>Terms\<close>

definition u16_at :: "bytes \<Rightarrow> nat \<Rightarrow> u16 option" where
  "u16_at bs at = map_option of_be16 (get_range at (at + 2) bs)"

definition u32_at :: "bytes \<Rightarrow> nat \<Rightarrow> u32 option" where
  "u32_at bs at = map_option of_be32 (get_range at (at + 4) bs)"

definition get_from :: "nat \<Rightarrow> bytes \<Rightarrow> bytes option" where
  "get_from pos bs = (if pos \<le> length bs then Some (drop pos bs) else None)"

definition leaf_len :: "u8 \<Rightarrow> bytes \<Rightarrow> nat option" where
  "leaf_len tag rest =
     (if tag = SMALL_INTEGER_EXT then Some 2
      else if tag = INTEGER_EXT then Some 5
      else if tag = NEW_FLOAT_EXT then Some 9
      else if tag = NIL_EXT then Some 1
      else if tag = SMALL_BIG_EXT then map_option (\<lambda>n. 3 + unat n) (get_at 1 rest)
      else if tag = LARGE_BIG_EXT then map_option (\<lambda>n. 6 + unat n) (u32_at rest 1)
      else if tag = STRING_EXT then map_option (\<lambda>n. 3 + unat n) (u16_at rest 1)
      else if tag = BINARY_EXT then map_option (\<lambda>n. 5 + unat n) (u32_at rest 1)
      else if tag = BIT_BINARY_EXT then map_option (\<lambda>n. 6 + unat n) (u32_at rest 1)
      else if tag = ATOM_UTF8_EXT then map_option (\<lambda>n. 3 + unat n) (u16_at rest 1)
      else None)"

definition leaf_size :: "bytes \<Rightarrow> nat option" where
  "leaf_size rest = do {
     tag \<leftarrow> get_at 0 rest;
     size \<leftarrow> leaf_len tag rest;
     if size \<le> length rest then Some size else None }"

fun find_term :: "bytes \<Rightarrow> bytes list \<Rightarrow> nat \<Rightarrow> (nat \<times> bytes) option" where
  "find_term rest [] index = None"
| "find_term rest (term # terms) index =
     (if prefix term rest then Some (index, term) else find_term rest terms (Suc index))"

function (sequential)
  compact_term :: "dictionary \<Rightarrow> bytes \<Rightarrow> nat \<Rightarrow> bytes \<Rightarrow> nat \<Rightarrow> (nat \<times> bytes) option" and
  compact_many :: "dictionary \<Rightarrow> bytes \<Rightarrow> nat \<Rightarrow> nat \<Rightarrow> bytes \<Rightarrow> nat \<Rightarrow> (nat \<times> bytes) option" where
  "compact_term dict input pos out depth =
     (if depth > MAX_DEPTH then None else do {
        rest \<leftarrow> get_from pos input;
        case find_term rest (d_terms dict) 0 of
          Some (index, term) \<Rightarrow> Some (pos + length term, out @ [TERM_REF, word_of_nat index])
        | None \<Rightarrow> do {
            tag \<leftarrow> get_at 0 rest;
            if tag = SMALL_ATOM_UTF8_EXT then do {
              len \<leftarrow> get_at 1 rest;
              name \<leftarrow> get_range 2 (2 + unat len) rest;
              atom \<leftarrow> (case atom_ref dict name of
                 Some index \<Rightarrow> if index < 256 then Some [ATOM_REF, ucast index]
                                else Some (WIDE_ATOM_REF # be16 index)
               | None \<Rightarrow> get_range 0 (2 + unat len) rest);
              Some (pos + 2 + unat len, out @ atom) }
            else if tag = SMALL_TUPLE_EXT then do {
              arity \<leftarrow> get_at 1 rest;
              header \<leftarrow> get_range 0 2 rest;
              compact_many dict input (pos + 2) (unat arity) (out @ header) depth }
            else if tag = LARGE_TUPLE_EXT then do {
              arity \<leftarrow> u32_at rest 1;
              header \<leftarrow> get_range 0 5 rest;
              compact_many dict input (pos + 5) (unat arity) (out @ header) depth }
            else if tag = MAP_EXT then do {
              arity \<leftarrow> u32_at rest 1;
              header \<leftarrow> get_range 0 5 rest;
              compact_many dict input (pos + 5) (unat arity * 2) (out @ header) depth }
            else if tag = LIST_EXT then do {
              len \<leftarrow> u32_at rest 1;
              header \<leftarrow> get_range 0 5 rest;
              compact_many dict input (pos + 5) (unat len + 1) (out @ header) depth }
            else do {
              size \<leftarrow> leaf_size rest;
              leaf \<leftarrow> get_range 0 size rest;
              Some (pos + size, out @ leaf) } } })"
| "compact_many dict input pos count out depth =
     (if count = 0 then Some (pos, out)
      else do {
        (pos', out') \<leftarrow> compact_term dict input pos out (depth + 1);
        compact_many dict input pos' (count - 1) out' depth })"
  by pat_completeness auto
termination
  by (relation "inv_image (less_than <*lex*> less_than) (\<lambda>x. case x of
      Inl (dict, input, pos, out, depth) \<Rightarrow> (2 * (130 - depth), 0)
    | Inr (dict, input, pos, count, out, depth) \<Rightarrow> (2 * (130 - depth) - 1, count))")
    (auto simp: MAX_DEPTH_def)

function (sequential)
  expand_term :: "dictionary \<Rightarrow> bytes \<Rightarrow> nat \<Rightarrow> bytes \<Rightarrow> nat \<Rightarrow> (nat \<times> bytes) option" and
  expand_many :: "dictionary \<Rightarrow> bytes \<Rightarrow> nat \<Rightarrow> nat \<Rightarrow> bytes \<Rightarrow> nat \<Rightarrow> (nat \<times> bytes) option" where
  "expand_term dict input pos out depth =
     (if depth > MAX_DEPTH then None else do {
        rest \<leftarrow> get_from pos input;
        tag \<leftarrow> get_at 0 rest;
        if tag = ATOM_REF \<or> tag = WIDE_ATOM_REF then do {
          (index, size) \<leftarrow> (if tag = ATOM_REF then map_option (\<lambda>b. (unat b, 2)) (get_at 1 rest)
                            else map_option (\<lambda>w. (unat w, 3)) (u16_at rest 1));
          name \<leftarrow> dict_atom dict index;
          Some (pos + size, out @ [SMALL_ATOM_UTF8_EXT, word_of_nat (length name)] @ name) }
        else if tag = TERM_REF then do {
          index \<leftarrow> get_at 1 rest;
          term \<leftarrow> get_at (unat index) (d_terms dict);
          Some (pos + 2, out @ term) }
        else if tag = SMALL_ATOM_UTF8_EXT then do {
          len \<leftarrow> get_at 1 rest;
          atom \<leftarrow> get_range 0 (2 + unat len) rest;
          Some (pos + (2 + unat len), out @ atom) }
        else if tag = SMALL_TUPLE_EXT then do {
          arity \<leftarrow> get_at 1 rest;
          header \<leftarrow> get_range 0 2 rest;
          expand_many dict input (pos + 2) (unat arity) (out @ header) depth }
        else if tag = LARGE_TUPLE_EXT then do {
          arity \<leftarrow> u32_at rest 1;
          header \<leftarrow> get_range 0 5 rest;
          expand_many dict input (pos + 5) (unat arity) (out @ header) depth }
        else if tag = MAP_EXT then do {
          arity \<leftarrow> u32_at rest 1;
          header \<leftarrow> get_range 0 5 rest;
          expand_many dict input (pos + 5) (unat arity * 2) (out @ header) depth }
        else if tag = LIST_EXT then do {
          len \<leftarrow> u32_at rest 1;
          header \<leftarrow> get_range 0 5 rest;
          expand_many dict input (pos + 5) (unat len + 1) (out @ header) depth }
        else do {
          size \<leftarrow> leaf_size rest;
          leaf \<leftarrow> get_range 0 size rest;
          Some (pos + size, out @ leaf) } })"
| "expand_many dict input pos count out depth =
     (if count = 0 then Some (pos, out)
      else do {
        (pos', out') \<leftarrow> expand_term dict input pos out (depth + 1);
        expand_many dict input pos' (count - 1) out' depth })"
  by pat_completeness auto
termination
  by (relation "inv_image (less_than <*lex*> less_than) (\<lambda>x. case x of
      Inl (dict, input, pos, out, depth) \<Rightarrow> (2 * (130 - depth), 0)
    | Inr (dict, input, pos, count, out, depth) \<Rightarrow> (2 * (130 - depth) - 1, count))")
    (auto simp: MAX_DEPTH_def)

definition expand :: "bytes \<Rightarrow> bytes option" where
  "expand input = do {
     magic \<leftarrow> get_at 0 input;
     version \<leftarrow> get_at 1 input;
     let body = drop 2 input in
     if magic \<noteq> MAGIC then None
     else do {
       dict \<leftarrow> dictionary_of version;
       (used, out) \<leftarrow> expand_term dict body 0 [VERSION_MAGIC] 0;
       if used = length body then Some out else None } }"

definition compact :: "bytes \<Rightarrow> bytes option" where
  "compact input =
     (case input of
        [] \<Rightarrow> None
      | first # body \<Rightarrow>
          if first \<noteq> VERSION_MAGIC then None
          else do {
            (used, out) \<leftarrow> compact_term V1 body 0 [MAGIC, DICTIONARY_V1] 0;
            if used \<noteq> length body \<or> length out \<ge> length input then None
            else (case expand out of
                    Some expanded \<Rightarrow> if expanded = input then Some out else None
                  | None \<Rightarrow> None) })"

definition raft_command_compact :: "bytes \<Rightarrow> bytes option" where
  "raft_command_compact input = (if length input \<le> MAX_NIF_INPUT then compact input else None)"

definition raft_command_expand :: "bytes \<Rightarrow> bytes option" where
  "raft_command_expand input = (if length input \<le> MAX_NIF_INPUT then expand input else None)"

declare compact_term.simps [simp del] compact_many.simps [simp del]
  expand_term.simps [simp del] expand_many.simps [simp del]

section \<open>Expansion undoes compaction\<close>

definition undoes :: "dictionary \<Rightarrow> nat \<Rightarrow> bytes \<Rightarrow> bytes \<Rightarrow> bool" where
  "undoes dict depth enc src \<longleftrightarrow> (\<forall>pre post out.
     expand_term dict (pre @ enc @ post) (length pre) out depth = Some (length pre + length enc, out @ src))"

definition undoes_many :: "dictionary \<Rightarrow> nat \<Rightarrow> nat \<Rightarrow> bytes \<Rightarrow> bytes \<Rightarrow> bool" where
  "undoes_many dict depth count enc src \<longleftrightarrow> (\<forall>pre post out.
     expand_many dict (pre @ enc @ post) (length pre) count out depth = Some (length pre + length enc, out @ src))"

lemma undoesD:
  "undoes dict depth enc src \<Longrightarrow>
     expand_term dict (pre @ enc @ post) (length pre) out depth = Some (length pre + length enc, out @ src)"
  unfolding undoes_def by blast

lemma undoes_manyD:
  "undoes_many dict depth count enc src \<Longrightarrow>
     expand_many dict (pre @ enc @ post) (length pre) count out depth = Some (length pre + length enc, out @ src)"
  unfolding undoes_many_def by blast

lemma get_from_append [simp]: "get_from (length pre) (pre @ xs) = Some xs"
  by (simp add: get_from_def)

lemma get_at_Cons [simp]: "get_at 0 (x # xs) = Some x" "get_at (Suc 0) (x # y # xs) = Some y"
  by (simp_all add: get_at_def)

lemma undoes_many_0: "undoes_many dict depth 0 [] []"
  by (simp add: undoes_many_def expand_many.simps)

lemma undoes_many_Suc:
  assumes "undoes dict (Suc depth) e s" "undoes_many dict depth n es ss"
  shows "undoes_many dict depth (Suc n) (e @ es) (s @ ss)"
  unfolding undoes_many_def
proof (intro allI)
  fix pre post out
  have "expand_many dict (pre @ (e @ es) @ post) (length pre + length e) n (out @ s) depth
    = Some (length pre + length (e @ es), out @ s @ ss)"
    using undoes_manyD [OF assms(2), of "pre @ e" post "out @ s"] by simp
  moreover have "expand_term dict (pre @ (e @ es) @ post) (length pre) out (Suc depth)
    = Some (length pre + length e, out @ s)"
    using undoesD [OF assms(1), of pre "es @ post" out] by simp
  ultimately show "expand_many dict (pre @ (e @ es) @ post) (length pre) (Suc n) out depth =
      Some (length pre + length (e @ es), out @ s @ ss)"
    by (subst expand_many.simps) simp
qed

definition covers :: "bytes \<Rightarrow> nat \<Rightarrow> bytes \<Rightarrow> nat \<times> bytes \<Rightarrow> (bytes \<Rightarrow> bytes \<Rightarrow> bool) \<Rightarrow> bool" where
  "covers input pos out res und \<longleftrightarrow> (\<exists>enc. snd res = out @ enc \<and> pos \<le> fst res \<and> fst res \<le> length input
     \<and> und enc (seg pos (fst res) input))"

lemma compact_many_undone:
  assumes "\<And>pos out res. compact_term dict input pos out (Suc depth) = Some res \<Longrightarrow>
      covers input pos out res (undoes dict (Suc depth))"
    and "compact_many dict input pos count out depth = Some res" "pos \<le> length input"
  shows "covers input pos out res (undoes_many dict depth count)"
  using assms(2,3)
proof (induction count arbitrary: pos out)
  case 0
  then show ?case by (auto simp: covers_def compact_many.simps seg_def undoes_many_0)
next
  case (Suc count)
  then obtain pos1 out1 where t: "compact_term dict input pos out (Suc depth) = Some (pos1, out1)"
    and m: "compact_many dict input pos1 count out1 depth = Some res"
    by (auto simp: compact_many.simps [of _ _ _ "Suc count"] Option.bind_eq_Some_conv)
  from assms(1) [OF t] obtain e where e: "out1 = out @ e" "pos \<le> pos1" "pos1 \<le> length input"
    "undoes dict (Suc depth) e (seg pos pos1 input)"
    by (auto simp: covers_def)
  from Suc.IH [OF m e(3)] obtain es where es: "snd res = out1 @ es" "pos1 \<le> fst res" "fst res \<le> length input"
    "undoes_many dict depth count es (seg pos1 (fst res) input)"
    by (auto simp: covers_def)
  have "undoes_many dict depth (Suc count) (e @ es) (seg pos (fst res) input)"
    using undoes_many_Suc [OF e(4) es(4)] e(2) es(2) by (simp add: seg_join)
  with e es show ?case by (auto simp: covers_def)
qed

text \<open>The header of a term that holds other terms: its size, and how many terms follow.\<close>

definition nested_count :: "bytes \<Rightarrow> (nat \<times> nat) option" where
  "nested_count rest =
     (if rest = [] then None
      else if hd rest = SMALL_TUPLE_EXT then map_option (\<lambda>n. (2, unat n)) (get_at 1 rest)
      else if hd rest = LARGE_TUPLE_EXT then map_option (\<lambda>n. (5, unat n)) (u32_at rest 1)
      else if hd rest = MAP_EXT then map_option (\<lambda>n. (5, unat n * 2)) (u32_at rest 1)
      else if hd rest = LIST_EXT then map_option (\<lambda>n. (5, unat n + 1)) (u32_at rest 1)
      else None)"

lemma u32_at_Some: "u32_at bs i = Some n \<Longrightarrow> i + 4 \<le> length bs"
  by (auto simp: u32_at_def get_range_Some)

lemma get_at_take: "i < k \<Longrightarrow> k \<le> length bs \<Longrightarrow> get_at i (take k bs @ post) = get_at i bs"
  by (auto simp: get_at_def nth_append)

lemma get_range_take: "hi \<le> k \<Longrightarrow> k \<le> length bs \<Longrightarrow> get_range lo hi (take k bs @ post) = get_range lo hi bs"
  by (auto simp: get_range_def seg_append_take seg_take)

lemma u_at_take:
  "k \<le> length bs \<Longrightarrow> i + 4 \<le> k \<Longrightarrow> u32_at (take k bs @ post) i = u32_at bs i"
  "k \<le> length bs \<Longrightarrow> i + 2 \<le> k \<Longrightarrow> u16_at (take k bs @ post) i = u16_at bs i"
  by (simp_all add: u32_at_def u16_at_def get_range_take)

lemma hd_take: "0 < k \<Longrightarrow> bs \<noteq> [] \<Longrightarrow> hd (take k bs @ post) = hd bs"
  by (cases bs; cases k) auto

lemma nested_count_size: "nested_count rest = Some (k, n) \<Longrightarrow> 2 \<le> k \<and> k \<le> length rest \<and> rest \<noteq> []"
  by (auto simp: nested_count_def get_at_Some dest!: u32_at_Some split: if_splits)

lemma nested_count_take:
  assumes "nested_count rest = Some (k, n)"
  shows "nested_count (take k rest @ post) = Some (k, n)"
proof -
  note size = nested_count_size [OF assms]
  then have hd: "hd (take k rest @ post) = hd rest" by (simp add: hd_take)
  from assms size show ?thesis unfolding nested_count_def hd
    by (auto simp: get_at_take u_at_take split: if_splits)
qed

lemma get_at_0: "rest \<noteq> [] \<Longrightarrow> get_at 0 rest = Some (hd rest)"
  by (simp add: get_at_def hd_conv_nth)

lemma get_range_0: "k \<le> length rest \<Longrightarrow> get_range 0 k rest = Some (take k rest)"
  by (simp add: get_range_def seg_0_take)

lemma expand_term_nested:
  assumes "get_from pos input = Some rest" "nested_count rest = Some (k, n)" "depth \<le> MAX_DEPTH"
  shows "expand_term dict input pos out depth = expand_many dict input (pos + k) n (out @ take k rest) depth"
proof -
  note size = nested_count_size [OF assms(2)]
  with assms show ?thesis
    by (subst expand_term.simps)
      (auto simp: nested_count_def get_at_0 tag_defs get_range_0 split: if_splits)
qed

lemma compact_term_nested:
  assumes "get_from pos input = Some rest" "nested_count rest = Some (k, n)" "depth \<le> MAX_DEPTH"
    and "find_term rest (d_terms dict) 0 = None"
  shows "compact_term dict input pos out depth = compact_many dict input (pos + k) n (out @ take k rest) depth"
proof -
  note size = nested_count_size [OF assms(2)]
  with assms show ?thesis
    by (subst compact_term.simps)
      (auto simp: nested_count_def get_at_0 tag_defs get_range_0 split: if_splits)
qed

lemma undoes_nested:
  assumes "nested_count rest = Some (k, n)" "depth \<le> MAX_DEPTH" "undoes_many dict depth n enc src"
  shows "undoes dict depth (take k rest @ enc) (take k rest @ src)"
  unfolding undoes_def
proof (intro allI)
  fix pre post out
  have k: "k \<le> length rest" using nested_count_size [OF assms(1)] by simp
  have "expand_term dict (pre @ (take k rest @ enc) @ post) (length pre) out depth =
    expand_many dict ((pre @ take k rest) @ enc @ post) (length (pre @ take k rest)) n (out @ take k rest) depth"
    using expand_term_nested [OF _ nested_count_take [OF assms(1), of "enc @ post"] assms(2), of "length pre"] k by simp
  also have "\<dots> = Some (length (pre @ take k rest) + length enc, (out @ take k rest) @ src)"
    by (rule undoes_manyD [OF assms(3)])
  finally show "expand_term dict (pre @ (take k rest @ enc) @ post) (length pre) out depth =
      Some (length pre + length (take k rest @ enc), out @ take k rest @ src)"
    using k by simp
qed

lemma leaf_len_Some:
  "leaf_len tag rest = Some n \<Longrightarrow> 0 < n \<and> tag \<notin> {ATOM_REF, TERM_REF, WIDE_ATOM_REF}"
  by (auto simp: leaf_len_def tag_defs split: if_splits)

lemma if_Some_split:
  "(if b then x else y) = Some z \<Longrightarrow> (b \<Longrightarrow> x = Some z \<Longrightarrow> P) \<Longrightarrow> (\<not> b \<Longrightarrow> y = Some z \<Longrightarrow> P) \<Longrightarrow> P"
  by (cases b) auto

lemma leaf_len_take:
  "leaf_len tag rest = Some n \<Longrightarrow> n \<le> length rest \<Longrightarrow> leaf_len tag (take n rest @ post) = Some n"
  unfolding leaf_len_def
  by (elim if_Some_split; (simp only: simp_thms if_True if_False)?; auto simp: get_at_take u_at_take)

lemma leaf_size_Some:
  "leaf_size rest = Some n \<longleftrightarrow> rest \<noteq> [] \<and> leaf_len (hd rest) rest = Some n \<and> n \<le> length rest"
  by (cases "rest = []") (auto simp: leaf_size_def get_at_def hd_conv_nth Option.bind_eq_Some_conv)

lemma leaf_size_take: "leaf_size rest = Some n \<Longrightarrow> leaf_size (take n rest @ post) = Some n"
  using leaf_len_Some by (auto simp: leaf_size_Some hd_take leaf_len_take)

section \<open>Each kind of term is undone\<close>

definition dict_ok :: "dictionary \<Rightarrow> bool" where
  "dict_ok dict \<longleftrightarrow> length (d_atoms dict) \<le> 65536 \<and> length (d_terms dict) \<le> 256"

lemma undoes_leaf:
  assumes "leaf_size rest = Some n" "depth \<le> MAX_DEPTH"
    and "hd rest \<notin> {SMALL_ATOM_UTF8_EXT, SMALL_TUPLE_EXT, LARGE_TUPLE_EXT, MAP_EXT, LIST_EXT}"
  shows "undoes dict depth (take n rest) (take n rest)"
  unfolding undoes_def
proof (intro allI)
  fix pre post out
  let ?r = "take n rest @ post"
  have n: "rest \<noteq> []" "0 < n" "n \<le> length rest" "hd rest \<notin> {ATOM_REF, TERM_REF, WIDE_ATOM_REF}"
    using assms(1) leaf_len_Some by (auto simp: leaf_size_Some)
  then have tag: "get_at 0 ?r = Some (hd rest)" by (simp add: get_at_0 get_at_take)
  have leaf: "leaf_size ?r = Some n" by (rule leaf_size_take [OF assms(1)])
  have "get_range 0 n ?r = Some (take n rest)" using n by (simp add: get_range_take get_range_0)
  then show "expand_term dict (pre @ ?r) (length pre) out depth = Some (length pre + length (take n rest), out @ take n rest)"
    using assms(2,3) n tag leaf by (subst expand_term.simps) simp
qed

lemma undoes_atom:
  assumes "length name = unat len" "depth \<le> MAX_DEPTH"
  shows "undoes dict depth (SMALL_ATOM_UTF8_EXT # len # name) (SMALL_ATOM_UTF8_EXT # len # name)"
  unfolding undoes_def using assms
  by (intro allI, subst expand_term.simps) (simp add: tag_defs get_range_def seg_def)

lemma undoes_term_ref:
  assumes "index < length (d_terms dict)" "dict_ok dict" "depth \<le> MAX_DEPTH"
  shows "undoes dict depth [TERM_REF, word_of_nat index] (d_terms dict ! index)"
proof -
  have "unat (word_of_nat index :: u8) = index" using assms by (simp add: dict_ok_def unat_of_nat)
  with assms show ?thesis unfolding undoes_def
    by (intro allI, subst expand_term.simps) (simp add: tag_defs get_at_def)
qed

lemma undoes_atom_ref:
  assumes "dict_atom dict (unat index) = Some name" "depth \<le> MAX_DEPTH"
  shows "index < 256 \<Longrightarrow> undoes dict depth [ATOM_REF, ucast index]
           (SMALL_ATOM_UTF8_EXT # word_of_nat (length name) # name)"
    and "undoes dict depth (WIDE_ATOM_REF # be16 index)
           (SMALL_ATOM_UTF8_EXT # word_of_nat (length name) # name)"
proof -
  assume "index < 256"
  then have "unat (ucast index :: u8) = unat index"
    by (simp add: unsigned_ucast_eq word_less_nat_alt take_bit_eq_mod)
  with assms show "undoes dict depth [ATOM_REF, ucast index]
           (SMALL_ATOM_UTF8_EXT # word_of_nat (length name) # name)"
    unfolding undoes_def by (intro allI, subst expand_term.simps) (simp add: tag_defs)
next
  have "u16_at (WIDE_ATOM_REF # be16 index @ post) 1 = Some index" for post
    by (simp add: u16_at_def get_range_def seg_def)
  with assms show "undoes dict depth (WIDE_ATOM_REF # be16 index)
           (SMALL_ATOM_UTF8_EXT # word_of_nat (length name) # name)"
    unfolding undoes_def by (intro allI, subst expand_term.simps) (simp add: tag_defs)
qed

lemma atom_ref_Some:
  assumes "atom_ref dict name = Some index" "dict_ok dict"
  shows "dict_atom dict (unat index) = Some name"
proof -
  from map_of_SomeD [OF assms(1) [unfolded atom_ref_def]] obtain i
    where i: "i < length (d_atoms dict)" "d_atoms dict ! i = name" "word_of_nat i = index"
    by (auto simp: set_zip)
  then have "unat index = i" using assms(2) by (auto simp: dict_ok_def unat_of_nat)
  with i show ?thesis by (simp add: dict_atom_def get_at_def)
qed

lemma find_term_Some:
  "find_term rest terms n = Some (index, term) \<Longrightarrow>
     n \<le> index \<and> index - n < length terms \<and> terms ! (index - n) = term \<and> prefix term rest"
proof (induction terms arbitrary: n)
  case (Cons a terms)
  show ?case
  proof (cases "prefix a rest")
    case False
    with Cons.prems have "find_term rest terms (Suc n) = Some (index, term)" by simp
    from Cons.IH [OF this] show ?thesis by (auto simp: nth_Cons')
  qed (use Cons.prems in simp)
qed simp

lemma compact_term_leaf:
  assumes "get_from pos input = Some rest" "find_term rest (d_terms dict) 0 = None" "depth \<le> MAX_DEPTH"
    and "rest \<noteq> []" "nested_count rest = None" "hd rest \<noteq> SMALL_ATOM_UTF8_EXT"
    and "compact_term dict input pos out depth = Some res"
  obtains n where "leaf_size rest = Some n" "res = (pos + n, out @ take n rest)"
    "hd rest \<notin> {SMALL_ATOM_UTF8_EXT, SMALL_TUPLE_EXT, LARGE_TUPLE_EXT, MAP_EXT, LIST_EXT}"
proof -
  have tags: "hd rest \<notin> {SMALL_TUPLE_EXT, LARGE_TUPLE_EXT, MAP_EXT, LIST_EXT}"
  proof
    assume "hd rest \<in> {SMALL_TUPLE_EXT, LARGE_TUPLE_EXT, MAP_EXT, LIST_EXT}"
    then have "compact_term dict input pos out depth = None"
      using assms(1-5) by (subst compact_term.simps) (auto simp: nested_count_def get_at_0 tag_defs split: if_splits)
    with assms(7) show False by simp
  qed
  with assms have "do { size \<leftarrow> leaf_size rest; leaf \<leftarrow> get_range 0 size rest; Some (pos + size, out @ leaf) } = Some res"
    by (subst (asm) compact_term.simps) (simp add: get_at_0)
  then show thesis
    using that tags assms(6) by (auto simp: Option.bind_eq_Some_conv get_range_Some seg_0_take)
qed

lemma compact_term_atom:
  assumes "get_from pos input = Some rest" "find_term rest (d_terms dict) 0 = None" "depth \<le> MAX_DEPTH"
    and "rest \<noteq> []" "hd rest = SMALL_ATOM_UTF8_EXT" "dict_ok dict"
    and "compact_term dict input pos out depth = Some res"
  obtains n enc where "n \<le> length rest" "res = (pos + n, out @ enc)" "undoes dict depth enc (take n rest)"
proof -
  from assms(1-5,7) obtain len name atom where g: "get_at 1 rest = Some len" "get_range 2 (2 + unat len) rest = Some name"
    and atom: "(case atom_ref dict name of Some index \<Rightarrow> if index < 256 then Some [ATOM_REF, ucast index]
                                else Some (WIDE_ATOM_REF # be16 index)
               | None \<Rightarrow> get_range 0 (2 + unat len) rest) = Some atom"
    and res: "res = (pos + (2 + unat len), out @ atom)"
    by (subst (asm) compact_term.simps) (auto simp: get_at_0 Option.bind_eq_Some_conv)
  from g have name: "length name = unat len" "2 + unat len \<le> length rest"
    by (auto simp: get_range_Some seg_def)
  have "take (2 + unat len) rest = take 2 rest @ name"
    using g take_add [of 2 "unat len" rest] by (simp add: get_range_Some seg_def)
  moreover have "take 2 rest = [SMALL_ATOM_UTF8_EXT, len]"
    using g(1) assms(4,5) by (cases rest; cases "tl rest") (auto simp: get_at_Some)
  ultimately have src: "take (2 + unat len) rest = SMALL_ATOM_UTF8_EXT # len # name" by simp
  have "undoes dict depth atom (take (2 + unat len) rest)"
  proof (cases "atom_ref dict name")
    case None
    then show ?thesis using atom name assms(3) src by (simp add: get_range_0 undoes_atom)
  next
    case (Some index)
    from undoes_atom_ref [OF atom_ref_Some [OF Some assms(6)] assms(3)] atom Some src name(1)
    show ?thesis by (auto split: if_splits)
  qed
  with that name(2) res show thesis by blast
qed

lemma compact_term_undone:
  assumes "dict_ok dict" "compact_term dict input pos out depth = Some res"
  shows "covers input pos out res (undoes dict depth)"
  using assms(2)
proof (induction "129 - depth" arbitrary: depth pos out res rule: less_induct)
  case less
  from less.prems have d: "depth \<le> MAX_DEPTH" and pos: "pos \<le> length input"
    by (auto simp: compact_term.simps get_from_def split: if_splits)
  define rest where "rest = drop pos input"
  have rest: "get_from pos input = Some rest" using pos by (simp add: get_from_def rest_def)
  have seg: "seg pos (pos + n) input = take n rest" for n by (simp add: seg_def rest_def)
  have fits: "covers input pos out (pos + n, out @ enc) (undoes dict depth)"
    if "n \<le> length rest" "undoes dict depth enc (take n rest)" for n enc
    using that pos by (auto simp: covers_def seg rest_def)
  show ?case
  proof (cases "find_term rest (d_terms dict) 0")
    case (Some it)
    obtain i t where it: "it = (i, t)" by force
    note f = find_term_Some [OF Some [unfolded it]]
    have res: "res = (pos + length t, out @ [TERM_REF, word_of_nat i])"
      using less.prems d rest Some it by (simp add: compact_term.simps)
    have "take (length t) rest = d_terms dict ! i" using f by (auto simp: prefix_def)
    then show ?thesis unfolding res
      using f fits [of "length t"] undoes_term_ref [OF _ assms(1) d, of i] by (auto dest: prefix_length_le)
  next
    case None
    then have ne: "rest \<noteq> []"
      using less.prems d rest by (auto simp: compact_term.simps get_at_def)
    consider k n where "nested_count rest = Some (k, n)" | "nested_count rest = None" "hd rest = SMALL_ATOM_UTF8_EXT"
      | "nested_count rest = None" "hd rest \<noteq> SMALL_ATOM_UTF8_EXT" by (cases "nested_count rest") auto
    then show ?thesis
    proof cases
      case (1 k n)
      note size = nested_count_size [OF 1]
      have many: "compact_many dict input (pos + k) n (out @ take k rest) depth = Some res"
        using less.prems compact_term_nested [OF rest 1 d None] by simp
      have "covers input (pos + k) (out @ take k rest) res (undoes_many dict depth n)"
        by (rule compact_many_undone [OF _ many])
          (use d size pos in \<open>auto simp: rest_def MAX_DEPTH_def intro!: less.hyps\<close>)
      then obtain es where es: "snd res = (out @ take k rest) @ es" "pos + k \<le> fst res" "fst res \<le> length input"
        "undoes_many dict depth n es (seg (pos + k) (fst res) input)" by (auto simp: covers_def)
      from undoes_nested [OF 1 d es(4)] have "undoes dict depth (take k rest @ es) (seg pos (fst res) input)"
        using seg_join [of pos "pos + k" "fst res" input] es(2) by (simp add: seg)
      with es show ?thesis by (auto simp: covers_def)
    next
      case 2
      from compact_term_atom [OF rest None d ne 2(2) assms(1) less.prems] fits show ?thesis by metis
    next
      case 3
      from compact_term_leaf [OF rest None d ne 3 less.prems] obtain n where n: "leaf_size rest = Some n"
        "res = (pos + n, out @ take n rest)"
        "hd rest \<notin> {SMALL_ATOM_UTF8_EXT, SMALL_TUPLE_EXT, LARGE_TUPLE_EXT, MAP_EXT, LIST_EXT}" by blast
      from fits [OF _ undoes_leaf [OF n(1) d n(3)]] n show ?thesis by (simp add: leaf_size_Some)
    qed
  qed
qed

lemma V1_ok: "dict_ok V1"
  by (simp add: dict_ok_def V1_def dictionary_v1_sizes)

lemma compact_term_expand:
  assumes "compact_term V1 body 0 [MAGIC, DICTIONARY_V1] 0 = Some (length body, out)"
  shows "expand out = Some (VERSION_MAGIC # body)"
proof -
  from compact_term_undone [OF V1_ok assms] obtain enc where enc: "out = [MAGIC, DICTIONARY_V1] @ enc"
    "undoes V1 0 enc body" by (auto simp: covers_def)
  from undoesD [OF enc(2), of "[]" "[]" "[VERSION_MAGIC]"] enc(1) show ?thesis
    by (simp add: expand_def dictionary_of_def)
qed

lemma compact_iff:
  "compact input = Some out \<longleftrightarrow>
     (\<exists>body. input = VERSION_MAGIC # body \<and> length out < length input
        \<and> compact_term V1 body 0 [MAGIC, DICTIONARY_V1] 0 = Some (length body, out))"
proof (cases "\<exists>body used out'. input = VERSION_MAGIC # body \<and>
    compact_term V1 body 0 [MAGIC, DICTIONARY_V1] 0 = Some (used, out')")
  case True
  then obtain body used out' where c: "input = VERSION_MAGIC # body"
    "compact_term V1 body 0 [MAGIC, DICTIONARY_V1] 0 = Some (used, out')" by blast
  then show ?thesis
    using compact_term_expand [of body out'] by (auto simp: compact_def)
next
  case False
  then have "compact input = None"
    by (auto simp: compact_def split: list.splits Option.bind_splits)
  with False show ?thesis by auto
qed

lemma compact_Some:
  assumes "compact input = Some out"
  shows "expand out = Some input \<and> length out < length input"
proof -
  from assms obtain body where "input = VERSION_MAGIC # body" "length out < length input"
    "compact_term V1 body 0 [MAGIC, DICTIONARY_V1] 0 = Some (length body, out)"
    unfolding compact_iff by blast
  with compact_term_expand [of body out] show ?thesis by simp
qed

text \<open>C1. The comparison at the end of \<^verbatim>\<open>compact\<close> never rejects anything.  The compact form is
  produced exactly when the rewriting consumes the whole term and saves at least one byte;
  no command covered by the codec is kept in the plain form because expansion would differ.\<close>

theorem compact_self_check_redundant:
  "compact input = Some out \<longleftrightarrow>
     (\<exists>body. input = VERSION_MAGIC # body \<and> length out < length input
        \<and> compact_term V1 body 0 [MAGIC, DICTIONARY_V1] 0 = Some (length body, out))"
  by (rule compact_iff)


definition sample_command :: bytes where
  "sample_command = [131, 104, 2] @ hd TERMS_V1 @ [97, 5]"

lemma sample_compact: "compact sample_command = Some [252, 1, 104, 2, 2, 0, 97, 5]"
proof -
  obtain t where t: "TERMS_V1 = [104 # 24 # t]" "length t = 137" by (simp add: TERMS_V1_def)
  then have V: "d_terms V1 = [104 # 24 # t]" by (simp add: V1_def)
  define body where "body = 104 # 2 # 104 # 24 # t @ [97, 5]"
  have nested: "nested_count body = Some (2, 2)"
    by (simp add: nested_count_def body_def tag_defs get_at_def)
  have last: "drop 141 body = [97, 5]" using t by (simp add: body_def drop_Cons')
  have "compact_term V1 body 2 out (Suc 0) = Some (141, out @ [2, 0])" for out
    by (simp add: compact_term.simps MAX_DEPTH_def get_from_def body_def tag_defs V t(2))
  moreover have "compact_term V1 body 141 out (Suc 0) = Some (143, out @ [97, 5])" for out
    using last by (simp add: compact_term.simps MAX_DEPTH_def get_from_def tag_defs leaf_size_def leaf_len_def
        get_range_def seg_def V) (simp add: body_def t(2))
  ultimately have "compact_many V1 body 2 2 out 0 = Some (143, out @ [2, 0, 97, 5])" for out
    by (simp add: compact_many.simps [of V1 body])
  then have "compact_term V1 body 0 [MAGIC, DICTIONARY_V1] 0 = Some (length body, [252, 1, 104, 2, 2, 0, 97, 5])"
    using compact_term_nested [of 0 body body 2 2 0 V1] nested
    by (simp add: get_from_def MAX_DEPTH_def tag_defs V) (simp add: body_def t(2) flip: numeral_2_eq_2)
  moreover have "sample_command = VERSION_MAGIC # body"
    unfolding sample_command_def t(1) body_def by (simp add: tag_defs)
  moreover have "8 < length (VERSION_MAGIC # body)" by (simp add: body_def t(2))
  ultimately show ?thesis unfolding compact_iff by (intro exI [of _ body]) simp
qed


section \<open>The size of an expansion\<close>

text \<open>A two-byte reference stands for at most 139 bytes.\<close>

definition amplified :: "nat \<Rightarrow> bytes \<Rightarrow> nat \<times> bytes \<Rightarrow> bool" where
  "amplified pos out res \<longleftrightarrow> pos \<le> fst res \<and> length (snd res) + 70 * pos \<le> length out + 70 * fst res"

definition dict_small :: "dictionary \<Rightarrow> bool" where
  "dict_small dict \<longleftrightarrow> list_all (\<lambda>a. length a \<le> 138) (d_atoms dict) \<and> list_all (\<lambda>t. length t \<le> 140) (d_terms dict)"

lemma expand_many_amplified:
  assumes "\<And>pos out res. expand_term dict input pos out (Suc depth) = Some res \<Longrightarrow> amplified pos out res"
    and "expand_many dict input pos count out depth = Some res"
  shows "amplified pos out res"
  using assms(2)
proof (induction count arbitrary: pos out)
  case (Suc count)
  then obtain pos1 out1 where t: "expand_term dict input pos out (Suc depth) = Some (pos1, out1)"
    and m: "expand_many dict input pos1 count out1 depth = Some res"
    by (auto simp: expand_many.simps [of _ _ _ "Suc count"] Option.bind_eq_Some_conv)
  from assms(1) [OF t] Suc.IH [OF m] show ?case by (simp add: amplified_def)
qed (auto simp: amplified_def expand_many.simps)

lemma expand_term_amplified:
  assumes "dict_small dict" "expand_term dict input pos out depth = Some res"
  shows "amplified pos out res"
  using assms(2)
proof (induction "129 - depth" arbitrary: depth pos out res rule: less_induct)
  case less
  from less.prems have d: "depth \<le> MAX_DEPTH" and pos: "pos \<le> length input"
    by (auto simp: expand_term.simps get_from_def split: if_splits)
  define rest where "rest = drop pos input"
  have rest: "get_from pos input = Some rest" using pos by (simp add: get_from_def rest_def)
  show ?case
  proof (cases "nested_count rest")
    case (Some kn)
    obtain k n where kn: "nested_count rest = Some (k, n)" using Some by (cases kn) simp
    have "expand_many dict input (pos + k) n (out @ take k rest) depth = Some res"
      using less.prems expand_term_nested [OF rest kn d] by simp
    then have "amplified (pos + k) (out @ take k rest) res"
      by (rule expand_many_amplified [rotated]) (use d in \<open>auto simp: MAX_DEPTH_def intro!: less.hyps\<close>)
    then show ?thesis by (auto simp: amplified_def)
  next
    case None
    have atoms: "length a \<le> 138" if "dict_atom dict i = Some a" for i a
      using that assms(1) by (auto simp: dict_atom_def get_at_Some dict_small_def list_all_length)
    have terms: "length (d_terms dict ! i) \<le> 140" if "i < length (d_terms dict)" for i
      using that assms(1) by (auto simp: dict_small_def list_all_length)
    from less.prems d rest None show ?thesis
      by (subst (asm) expand_term.simps)
        (auto simp: Option.bind_eq_Some_conv amplified_def get_range_Some get_at_Some nested_count_def hd_conv_nth
          terms dest!: atoms split: if_splits)
  qed
qed

lemma V1_small: "dict_small V1"
  using dictionary_v1_bounds by (auto simp: dict_small_def V1_def list_all_iff)

text \<open>C22. A compact command cannot be used to exhaust memory: an accepted expansion is at most 70
  times as long as its input.\<close>

theorem expand_size_bound:
  assumes "expand input = Some out"
  shows "length out \<le> 70 * length input"
proof -
  from assms obtain used where "2 \<le> length input"
    "expand_term V1 (drop 2 input) 0 [VERSION_MAGIC] 0 = Some (used, out)" "used = length input - 2"
    by (auto simp: expand_def Option.bind_eq_Some_conv get_at_Some dictionary_of_def Let_def split: if_splits)
  with expand_term_amplified [OF V1_small] show ?thesis by (fastforce simp: amplified_def)
qed

theorem expand_size_bound_witness: "length sample_command \<le> 70 * 8"
  using expand_size_bound [of "[252, 1, 104, 2, 2, 0, 97, 5]" sample_command] compact_Some [OF sample_compact] by simp

end
