(* ===== verification/Lmdb.thy ===== *)
theory Lmdb
  imports Prelude "HOL-Library.List_Lexorder" "HOL-Library.Product_Lexorder" "HOL-Library.Sublist"
begin

text \<open>
  What the native code relies on of LMDB, which is not part of the sources: opening an
  environment and starting a read transaction succeed or fail, and a read transaction
  answers point reads and hands out cursors.  A cursor yields rows or errors.  Keys are
  ordered byte-wise.

  \<open>serves db rows\<close> is the documented behaviour of such a snapshot: keys are not empty, the
  rows are strictly ordered by key, point reads and cursors agree with them, and a cursor that meets an error
  has yielded only the rows before it.  Every call may still fail.
\<close>

type_synonym row = "bytes \<times> bytes"

datatype bound = Included bytes | Excluded bytes | Unbounded

type_synonym 'e cursor = "'e + ('e + row) list"

record 'e lmdb =
  db_open :: "'e + unit"
  db_txn :: "'e + unit"
  db_get :: "bytes \<Rightarrow> 'e + bytes option"
  db_prefix_iter :: "bytes \<Rightarrow> 'e cursor"
  db_rev_prefix_iter :: "bytes \<Rightarrow> 'e cursor"
  db_range :: "bound \<times> bound \<Rightarrow> 'e cursor"
  db_rev_range :: "bound \<times> bound \<Rightarrow> 'e cursor"

fun above :: "bound \<Rightarrow> bytes \<Rightarrow> bool" where
  "above (Included lo) k \<longleftrightarrow> lo \<le> k"
| "above (Excluded lo) k \<longleftrightarrow> lo < k"
| "above Unbounded k \<longleftrightarrow> True"

fun below :: "bound \<Rightarrow> bytes \<Rightarrow> bool" where
  "below (Included hi) k \<longleftrightarrow> k \<le> hi"
| "below (Excluded hi) k \<longleftrightarrow> k < hi"
| "below Unbounded k \<longleftrightarrow> True"

fun ok_rows :: "('e + row) list \<Rightarrow> row list" where
  "ok_rows [] = []"
| "ok_rows (Inl _ # _) = []"
| "ok_rows (Inr r # items) = r # ok_rows items"

text \<open>A cursor over \<open>rows\<close>: all of them, or some of the first ones and then an error.\<close>

fun honest_items :: "('e + row) list \<Rightarrow> row list \<Rightarrow> bool" where
  "honest_items [] rows \<longleftrightarrow> rows = []"
| "honest_items (Inl _ # _) rows \<longleftrightarrow> True"
| "honest_items (Inr r # items) rows \<longleftrightarrow> rows \<noteq> [] \<and> hd rows = r \<and> honest_items items (tl rows)"

definition honest :: "'e cursor \<Rightarrow> row list \<Rightarrow> bool" where
  "honest c rows \<longleftrightarrow> (case c of Inl _ \<Rightarrow> True | Inr items \<Rightarrow> honest_items items rows)"

definition with_prefix :: "bytes \<Rightarrow> row list \<Rightarrow> row list" where
  "with_prefix p rows = filter (\<lambda>r. prefix p (fst r)) rows"

definition between :: "bound \<Rightarrow> bound \<Rightarrow> row list \<Rightarrow> row list" where
  "between lo hi rows = filter (\<lambda>r. above lo (fst r) \<and> below hi (fst r)) rows"

definition serves :: "'e lmdb \<Rightarrow> row list \<Rightarrow> bool" where
  "serves db rows \<longleftrightarrow> sorted_wrt (<) (map fst rows) \<and> [] \<notin> fst ` set rows
     \<and> (\<forall>k v. db_get db k = Inr v \<longrightarrow> v = map_of rows k)
     \<and> (\<forall>p. honest (db_prefix_iter db p) (with_prefix p rows))
     \<and> (\<forall>p. honest (db_rev_prefix_iter db p) (rev (with_prefix p rows)))
     \<and> (\<forall>lo hi. honest (db_range db (lo, hi)) (between lo hi rows))
     \<and> (\<forall>lo hi. honest (db_rev_range db (lo, hi)) (rev (between lo hi rows)))"

lemma servesD:
  assumes "serves db rows"
  shows serves_sorted: "sorted_wrt (<) (map fst rows)"
    and serves_keys: "r \<in> set rows \<Longrightarrow> fst r \<noteq> []"
    and serves_get: "db_get db k = Inr v \<Longrightarrow> v = map_of rows k"
    and serves_prefix: "db_prefix_iter db p = Inr items \<Longrightarrow> honest_items items (with_prefix p rows)"
    and serves_rev_prefix: "db_rev_prefix_iter db p = Inr items \<Longrightarrow> honest_items items (rev (with_prefix p rows))"
    and serves_range: "db_range db (lo, hi) = Inr items \<Longrightarrow> honest_items items (between lo hi rows)"
    and serves_rev_range: "db_rev_range db (lo, hi) = Inr items \<Longrightarrow> honest_items items (rev (between lo hi rows))"
  using assms unfolding serves_def honest_def by (auto split: sum.splits simp: image_iff)

text \<open>A snapshot that never fails.\<close>

definition ideal_lmdb :: "row list \<Rightarrow> unit lmdb" where
  "ideal_lmdb rows =
     \<lparr>db_open = Inr (), db_txn = Inr (), db_get = (\<lambda>k. Inr (map_of rows k)),
      db_prefix_iter = (\<lambda>p. Inr (map Inr (with_prefix p rows))),
      db_rev_prefix_iter = (\<lambda>p. Inr (map Inr (rev (with_prefix p rows)))),
      db_range = (\<lambda>(lo, hi). Inr (map Inr (between lo hi rows))),
      db_rev_range = (\<lambda>(lo, hi). Inr (map Inr (rev (between lo hi rows))))\<rparr>"

lemma honest_items_map [simp]: "honest_items (map Inr rows) rows"
  by (induction rows) auto

lemma ideal_serves: "sorted_wrt (<) (map fst rows) \<Longrightarrow> [] \<notin> fst ` set rows \<Longrightarrow> serves (ideal_lmdb rows) rows"
  unfolding serves_def ideal_lmdb_def honest_def
  by (simp only: lmdb.simps sum.case sum.inject prod.case honest_items_map) simp

lemma ok_rows_map [simp]: "ok_rows (map Inr rows) = rows"
  by (induction rows) auto

lemma honest_ok_rows: "honest_items items rows \<Longrightarrow> prefix (ok_rows items) rows"
proof (induction items rows rule: honest_items.induct)
  case (3 r items rows)
  then show ?case by (cases rows) auto
qed auto

lemma honest_items_take: "honest_items items rows \<Longrightarrow> honest_items (take n items) (take n rows)"
proof (induction items rows arbitrary: n rule: honest_items.induct)
  case (2 e items rows)
  then show ?case by (cases n) auto
next
  case (3 r items rows)
  then show ?case by (cases n; cases rows) auto
qed auto

section \<open>Ordered rows\<close>

lemma sorted_filter_rows: "sorted_wrt (<) (map fst rows) \<Longrightarrow> sorted_wrt (<) (map fst (filter P rows))"
  by (induction rows) auto

lemma rows_after_sorted:
  fixes xs ys :: "row list"
  assumes "sorted_wrt (<) (map fst (xs @ r # ys))"
  shows "filter (\<lambda>s. fst r < fst s) (xs @ r # ys) = ys"
  using assms by (auto simp: sorted_wrt_append filter_empty_conv filter_id_conv dest: less_asym)

text \<open>Keys with a common prefix are adjacent: once past them, no later key has it.\<close>

lemma prefix_lex:
  fixes a b c :: bytes
  assumes "prefix p a" "a \<le> b" "b \<le> c" "prefix p c"
  shows "prefix p b"
  using assms
proof (induction p arbitrary: a b c)
  case (Cons x p)
  from Cons.prems(1) obtain a' where a: "a = x # a'" "prefix p a'" by (cases a) auto
  from Cons.prems(4) obtain c' where c: "c = x # c'" "prefix p c'" by (cases c) auto
  from Cons.prems(2) obtain y b' where b: "b = y # b'" by (cases b) (simp_all add: a(1))
  have le: "x < y \<or> x = y \<and> a' \<le> b'" "y < x \<or> y = x \<and> b' \<le> c'"
    using Cons.prems(2,3) by (simp_all add: a(1) b c(1))
  then have "y = x" "a' \<le> b'" "b' \<le> c'" using less_asym by blast+
  with Cons.IH [OF a(2) _ _ c(2)] b show ?case by simp
qed simp

end
