(* ===== verification/Prefix_Merge.thy ===== *)
theory Prefix_Merge
  imports Lmdb "HOL-Library.Multiset"
begin

text \<open>
  Merging one prefix over several LMDB stores (\<^verbatim>\<open>src/prefix_merge.rs\<close> and the NIF body
  \<^verbatim>\<open>lmdb_prefix_merge_entries\<close> of \<^verbatim>\<open>src/sections/part_04.rs\<close>).  The bounded selection heap is
  represented by its elements in ascending order, so that its largest element is the last.

  The lemmas show that the early exit and the per-source cap lose nothing: the selection is
  the globally smallest rows, whatever the order of the sources.
\<close>

type_synonym candidate = "bytes \<times> nat \<times> bytes"

section \<open>The selection heap\<close>

definition heap_push :: "candidate \<Rightarrow> candidate list \<Rightarrow> candidate list" where
  "heap_push c h = insort c h"

definition heap_peek :: "candidate list \<Rightarrow> candidate" where
  "heap_peek h = last h"

definition heap_pop :: "candidate list \<Rightarrow> candidate list" where
  "heap_pop h = butlast h"

fun scan_items ::
  "nat \<Rightarrow> nat \<Rightarrow> ('e + row) list \<Rightarrow> nat \<Rightarrow> candidate list \<Rightarrow> ('e + nat) \<times> candidate list" where
  "scan_items source cap [] scanned selected = (Inr scanned, selected)"
| "scan_items source cap (Inl e # items) scanned selected = (Inl e, selected)"
| "scan_items source cap (Inr (key, val) # items) scanned selected =
     (let scanned' = saturating_add64 scanned 1; candidate = (key, source, val) in
      if length selected < cap then scan_items source cap items scanned' (heap_push candidate selected)
      else
        let largest = heap_peek selected in
        if key > fst largest then (Inr scanned', selected)
        else if candidate < largest then
          scan_items source cap items scanned' (heap_push candidate (heap_pop selected))
        else scan_items source cap items scanned' selected)"

definition scan_source :: "candidate list \<Rightarrow> nat \<Rightarrow> nat \<Rightarrow> ('e + row) list \<Rightarrow> ('e + nat) \<times> candidate list" where
  "scan_source selected source cap items =
     (if cap = 0 then (Inr 0, selected) else scan_items source cap (take cap items) 0 selected)"

fun sum_bytes :: "candidate list \<Rightarrow> nat \<Rightarrow> nat option" where
  "sum_bytes [] bytes = Some bytes"
| "sum_bytes ((key, _, val) # cs) bytes =
     (case checked_add64 bytes (length key) of
        None \<Rightarrow> None
      | Some b \<Rightarrow> (case checked_add64 b (length val) of None \<Rightarrow> None | Some b' \<Rightarrow> sum_bytes cs b'))"

definition within_byte_cap :: "candidate list \<Rightarrow> nat \<Rightarrow> bool" where
  "within_byte_cap selected byte_cap =
     (case sum_bytes selected 0 of None \<Rightarrow> False | Some bytes \<Rightarrow> bytes \<le> byte_cap)"

section \<open>The merge over stores\<close>

datatype 'e merge_error = InvalidPrefixMerge | StoreError 'e | ByteBudgetExceeded

definition MAX_PATHS :: nat where "MAX_PATHS = 1024"
definition MAX_PREFIX_BYTES :: nat where "MAX_PREFIX_BYTES = 511"
definition MAX_LIMIT :: nat where "MAX_LIMIT = 100000"
definition MAX_MERGE_BYTES :: nat where "MAX_MERGE_BYTES = 64 * 1024 * 1024"

fun first_error :: "('e + unit) list \<Rightarrow> 'e option" where
  "first_error [] = None"
| "first_error (Inl e # _) = Some e"
| "first_error (Inr _ # rs) = first_error rs"

fun merge_sources ::
  "bytes \<Rightarrow> nat \<Rightarrow> nat \<Rightarrow> 'e lmdb list \<Rightarrow> nat \<Rightarrow> candidate list \<Rightarrow> 'e + (nat \<times> candidate list)" where
  "merge_sources pre cap source [] scanned selected = Inr (scanned, selected)"
| "merge_sources pre cap source (s # ss) scanned selected =
     (case db_prefix_iter s pre of
        Inl e \<Rightarrow> Inl e
      | Inr items \<Rightarrow>
          (case scan_source selected source cap items of
             (Inl e, _) \<Rightarrow> Inl e
           | (Inr n, selected') \<Rightarrow> merge_sources pre cap (Suc source) ss (saturating_add64 scanned n) selected'))"

definition lmdb_prefix_merge_entries ::
  "'e lmdb list \<Rightarrow> bytes \<Rightarrow> nat \<Rightarrow> nat \<Rightarrow> 'e merge_error + (candidate list \<times> nat)" where
  "lmdb_prefix_merge_entries sources pre limit max_bytes =
     (if sources = [] \<or> length sources > MAX_PATHS \<or> pre = [] \<or> length pre > MAX_PREFIX_BYTES
         \<or> limit > MAX_LIMIT \<or> max_bytes = 0 \<or> max_bytes > MAX_MERGE_BYTES
      then Inl InvalidPrefixMerge
      else if limit = 0 then Inr ([], 0)
      else case first_error (map db_open sources) of
        Some e \<Rightarrow> Inl (StoreError e)
      | None \<Rightarrow>
          (case first_error (map db_txn sources) of
             Some e \<Rightarrow> Inl (StoreError e)
           | None \<Rightarrow>
               (case merge_sources pre limit 0 sources 0 [] of
                  Inl e \<Rightarrow> Inl (StoreError e)
                | Inr (scanned, selected) \<Rightarrow>
                    if within_byte_cap selected max_bytes then Inr (selected, scanned)
                    else Inl ByteBudgetExceeded)))"

section \<open>Keeping the smallest\<close>

lemma take_constant: "set (take m ys) \<subseteq> {x} \<Longrightarrow> m \<le> length ys \<Longrightarrow> take m (x # ys) = take m ys"
proof (induction m arbitrary: ys)
  case (Suc m)
  then obtain z zs where "ys = z # zs" by (cases ys) auto
  with Suc show ?case by auto
qed simp

lemma take_insort_ge:
  fixes x :: "'a::linorder"
  shows "sorted l \<Longrightarrow> n \<le> length l \<Longrightarrow> set (take n l) \<subseteq> {..x} \<Longrightarrow> take n (insort x l) = take n l"
proof (induction l arbitrary: n)
  case (Cons y ys)
  show ?case
  proof (cases n)
    case (Suc m)
    show ?thesis
    proof (cases "x \<le> y")
      case True
      with Cons.prems Suc have "y = x" by auto
      moreover have "set (take m ys) \<subseteq> {x}"
      proof
        fix z assume z: "z \<in> set (take m ys)"
        have "z \<le> x" using Cons.prems(3) Suc z by auto
        moreover have "x \<le> z" using Cons.prems(1) \<open>y = x\<close> in_set_takeD [OF z] by auto
        ultimately show "z \<in> {x}" by simp
      qed
      ultimately show ?thesis using Suc Cons.prems True take_constant [of m ys x] by simp
    next
      case False
      then show ?thesis using Cons Suc by auto
    qed
  qed simp
qed simp

text \<open>Elements at least as large as \<open>n\<close> others do not change the \<open>n\<close> smallest.\<close>

lemma take_sort_append_large:
  fixes a d :: "'a::linorder list"
  assumes "sorted a" "n \<le> length a" "\<forall>x\<in>set d. set (take n a) \<subseteq> {..x}"
  shows "take n (sort (a @ d)) = take n a"
  using assms(3)
proof (induction d)
  case Nil
  then show ?case using assms(1) by (simp add: sorted_sort_id)
next
  case (Cons x d)
  have "sort (a @ x # d) = insort x (sort (a @ d))"
    by (rule properties_for_sort) (simp_all add: sorted_insort)
  moreover have "take n (insort x (sort (a @ d))) = take n (sort (a @ d))"
    using Cons assms(2) by (intro take_insort_ge) auto
  ultimately show ?case using Cons by simp
qed

lemma sort_append_sort: "sort (sort a @ b) = sort (a @ b)"
  by (rule properties_for_sort) simp_all

lemma smallest_le:
  fixes x :: "'a::linorder"
  shows "sorted l \<Longrightarrow> n \<le> length (filter (\<lambda>y. y \<le> x) l) \<Longrightarrow> set (take n l) \<subseteq> {..x}"
proof (induction l arbitrary: n)
  case (Cons y ys)
  show ?case
  proof (cases "y \<le> x")
    case True
    then show ?thesis using Cons by (cases n) auto
  next
    case False
    then have "filter (\<lambda>y. y \<le> x) (y # ys) = []" using Cons.prems(1) by (auto simp: filter_empty_conv)
    with Cons.prems(2) show ?thesis by simp
  qed
qed simp

lemma take_sort_take:
  fixes a b :: "'a::linorder list"
  shows "take n (sort (take n (sort a) @ b)) = take n (sort (a @ b))"
proof (cases "n \<le> length a")
  case True
  define d where "d = drop n (sort a)"
  let ?s = "sort (take n (sort a) @ b)"
  have small: "set (take n ?s) \<subseteq> {..x}" if "x \<in> set d" for x
  proof (rule smallest_le)
    have "\<forall>y\<in>set (take n (sort a)). y \<le> x"
      using that sorted_append [of "take n (sort a)" d] unfolding d_def by auto
    then have "filter (\<lambda>y. y \<le> x) (take n (sort a)) = take n (sort a)" by (simp add: filter_id_conv)
    then show "n \<le> length (filter (\<lambda>y. y \<le> x) ?s)" using True by (simp add: filter_sort)
  qed simp
  have "take n (sort (?s @ d)) = take n ?s"
    using True small by (intro take_sort_append_large) auto
  moreover have "mset (take n (sort a)) + mset d = mset a"
    unfolding d_def by (metis append_take_drop_id mset_append mset_sort)
  then have "sort (?s @ d) = sort (a @ b)"
    by (intro properties_for_sort) (simp_all add: ac_simps)
  ultimately show ?thesis by simp
next
  case False
  then show ?thesis by (simp add: sort_append_sort)
qed

section \<open>Scanning keeps the smallest\<close>

definition candidates :: "nat \<Rightarrow> row list \<Rightarrow> candidate list" where
  "candidates source rows = map (\<lambda>(k, v). (k, source, v)) rows"

lemma candidates_simps [simp]:
  "candidates source [] = []" "candidates source ((k, v) # rows) = (k, source, v) # candidates source rows"
  "candidates source (take n rows) = take n (candidates source rows)"
  by (simp_all add: candidates_def take_map)

definition smallest :: "nat \<Rightarrow> candidate list \<Rightarrow> candidate list" where
  "smallest cap cs = take cap (sort cs)"

lemma smallest_step: "smallest cap (smallest cap (h @ [c]) @ cs) = smallest cap (h @ c # cs)"
  using take_sort_take [of cap "h @ [c]" cs] by (simp add: smallest_def)

lemma smallest_room: "length h < cap \<Longrightarrow> sorted h \<Longrightarrow> smallest cap (h @ [c]) = insort c h"
  using properties_for_sort [of "insort c h" "h @ [c]"] by (simp add: smallest_def sorted_insort)

lemma last_largest:
  fixes h :: "'a::linorder list"
  shows "sorted h \<Longrightarrow> x \<in> set h \<Longrightarrow> x \<le> last h"
  by (induction h) auto

lemma take_le_large:
  fixes h :: "'a::linorder list"
  assumes "sorted h" "\<forall>c\<in>set cs. h \<noteq> [] \<longrightarrow> last h \<le> c"
  shows "\<forall>c\<in>set cs. set (take n h) \<subseteq> {..c}"
  using assms last_largest [OF assms(1)] by (cases "h = []") (auto dest!: in_set_takeD intro: order_trans)

lemma smallest_large:
  assumes "sorted h" "length h = cap" "\<forall>c\<in>set cs. h \<noteq> [] \<longrightarrow> last h \<le> c"
  shows "smallest cap (h @ cs) = h"
proof -
  have "take cap (sort (h @ cs)) = take cap h"
    using assms(2) by (intro take_sort_append_large [OF assms(1) _ take_le_large [OF assms(1,3)]]) simp
  with assms(2) show ?thesis by (simp add: smallest_def)
qed

lemma insort_butlast: "sorted h \<Longrightarrow> h \<noteq> [] \<Longrightarrow> c < last h \<Longrightarrow> insort c h = insort c (butlast h) @ [last h]"
  by (induction h) auto

lemma smallest_replace:
  assumes "sorted h" "length h = cap" "h \<noteq> []" "c < last h"
  shows "smallest cap (h @ [c]) = insort c (butlast h)"
proof -
  have "sort (h @ [c]) = insort c h"
    using assms(1) by (intro properties_for_sort) (simp_all add: sorted_insort)
  then show ?thesis
    using assms(2,3) insort_butlast [OF assms(1,3,4)] by (cases cap) (simp_all add: smallest_def)
qed

lemma candidates_ge:
  assumes "sorted (map fst ((k, v) # rows))" "fst largest < k" "c \<in> set (candidates source ((k, v) # rows))"
  shows "largest \<le> c"
  using assms by (cases largest; cases c) (auto simp: candidates_def less_eq_prod_def)

lemma scan_items_smallest:
  "scan_items source cap items n h = (Inr n', h') \<Longrightarrow> honest_items items rows \<Longrightarrow> 0 < cap \<Longrightarrow> sorted h \<Longrightarrow>
     length h \<le> cap \<Longrightarrow> sorted (map fst rows) \<Longrightarrow> h' = smallest cap (h @ candidates source rows)"
proof (induction source cap items n h arbitrary: rows rule: scan_items.induct)
  case (1 source cap n h)
  then show ?case by (simp add: smallest_def sorted_sort_id)
next
  case (2 source cap e items n h)
  then show ?case by simp
next
  case (3 source cap k v items n h)
  let ?c = "(k, source, v)"
  from "3.prems"(2) obtain rs where rows: "rows = (k, v) # rs" and hon: "honest_items items rs"
    by (cases rows) auto
  have srt: "sorted (map fst rs)" using "3.prems"(6) rows by simp
  show ?case
  proof (cases "length h < cap")
    case True
    with "3.IH"(1) [OF refl refl True _ hon] "3.prems" srt
    have "h' = smallest cap (insort ?c h @ candidates source rs)"
      by (simp add: Let_def heap_push_def sorted_insort)
    then show ?thesis unfolding rows
      using smallest_step [of cap h ?c] smallest_room [OF True "3.prems"(4), of ?c] by simp
  next
    case False
    then have len: "length h = cap" "h \<noteq> []" using "3.prems"(3,5) by auto
    show ?thesis
    proof (cases "k > fst (last h)")
      case True
      then have "h' = h" using "3.prems"(1) False by (simp add: Let_def heap_peek_def)
      moreover have "smallest cap (h @ candidates source ((k, v) # rs)) = h"
        using "3.prems"(4,6) rows len True candidates_ge by (intro smallest_large) auto
      ultimately show ?thesis using rows by simp
    next
      case stay: False
      show ?thesis
      proof (cases "?c < last h")
        case True
        have "h' = smallest cap (insort ?c (butlast h) @ candidates source rs)"
          using "3.IH"(2) [OF refl refl False refl _ _ _ hon] "3.prems" srt stay False True len
          by (simp add: Let_def heap_peek_def heap_push_def heap_pop_def sorted_insort sorted_butlast)
        then show ?thesis unfolding rows
          using smallest_step [of cap h ?c] smallest_replace [OF "3.prems"(4) len True] by simp
      next
        case c: False
        have "h' = smallest cap (h @ candidates source rs)"
          using "3.IH"(3) [OF refl refl False refl _ _ _ hon] "3.prems" srt stay False c
          by (simp add: Let_def heap_peek_def)
        moreover have "smallest cap (h @ [?c]) = h"
          using "3.prems"(4) len c by (intro smallest_large) auto
        ultimately show ?thesis unfolding rows using smallest_step [of cap h ?c] by simp
      qed
    qed
  qed
qed

lemma sorted_candidates: "sorted_wrt (<) (map fst rows) \<Longrightarrow> sorted (candidates source rows)"
  by (induction rows) (auto simp: candidates_def less_eq_prod_def)

lemma strict_imp_sorted: "sorted_wrt (<) ks \<Longrightarrow> sorted (ks :: bytes list)"
  by (rule sorted_wrt_mono_rel [of _ "(<)"]) simp_all

lemma scan_source_smallest:
  assumes "scan_source h source cap items = (Inr n', h')" "honest_items items rows" "0 < cap" "sorted h"
    and "length h \<le> cap" "sorted_wrt (<) (map fst rows)"
  shows "h' = smallest cap (h @ take cap (candidates source rows))"
  using assms scan_items_smallest [of source cap "take cap items" 0 h n' h' "take cap rows"]
  by (simp add: scan_source_def honest_items_take strict_imp_sorted sorted_wrt_take flip: take_map)

text \<open>The rows of all stores, numbered by store.\<close>

fun all_candidates :: "nat \<Rightarrow> row list list \<Rightarrow> candidate list" where
  "all_candidates source [] = []"
| "all_candidates source (rows # rest) = candidates source rows @ all_candidates (Suc source) rest"

lemma smallest_capped:
  assumes "sorted cs"
  shows "smallest cap (smallest cap (h @ take cap cs) @ ds) = smallest cap (h @ cs @ ds)"
proof -
  have "take cap (sort ((h @ take cap cs) @ ds)) = take cap (sort (take cap (sort cs) @ h @ ds))"
    using assms by (intro arg_cong [where f = "take cap"] properties_for_sort [symmetric])
      (simp_all add: sorted_sort_id ac_simps)
  also have "\<dots> = take cap (sort (h @ cs @ ds))"
    unfolding take_sort_take by (intro arg_cong [where f = "take cap"] properties_for_sort) (simp_all add: ac_simps)
  finally show ?thesis
    using take_sort_take [of cap "h @ take cap cs" ds] by (simp add: smallest_def)
qed

lemma merge_sources_smallest:
  "list_all2 serves ss rss \<Longrightarrow> merge_sources pre cap source ss n h = Inr (n', h') \<Longrightarrow> 0 < cap \<Longrightarrow> sorted h \<Longrightarrow>
     length h \<le> cap \<Longrightarrow> h' = smallest cap (h @ all_candidates source (map (with_prefix pre) rss))"
proof (induction ss rss arbitrary: source n h rule: list_all2_induct)
  case Nil
  then show ?case by (simp add: smallest_def sorted_sort_id)
next
  case (Cons s ss rs rss)
  from Cons.prems(1) obtain items m h1 where it: "db_prefix_iter s pre = Inr items"
    and sc: "scan_source h source cap items = (Inr m, h1)"
    and ms: "merge_sources pre cap (Suc source) ss (saturating_add64 n m) h1 = Inr (n', h')"
    by (auto split: sum.splits prod.splits)
  have srt: "sorted_wrt (<) (map fst (with_prefix pre rs))"
    unfolding with_prefix_def by (rule sorted_filter_rows [OF serves_sorted [OF Cons.hyps(1)]])
  have h1: "h1 = smallest cap (h @ take cap (candidates source (with_prefix pre rs)))"
    by (rule scan_source_smallest [OF sc serves_prefix [OF Cons.hyps(1) it] Cons.prems(2-4) srt])
  then have "sorted h1" "length h1 \<le> cap" by (simp_all add: smallest_def)
  from Cons.IH [OF ms Cons.prems(2) this]
  have "h' = smallest cap (h1 @ all_candidates (Suc source) (map (with_prefix pre) rss))" .
  then show ?case
    unfolding h1 smallest_capped [OF sorted_candidates [OF srt]] by simp
qed

lemma sum_bytes_Some:
  "sum_bytes cs n = Some b \<Longrightarrow> b = n + sum_list (map (\<lambda>(k, _, v). length k + length v) cs)"
  by (induction cs n rule: sum_bytes.induct) (auto simp: checked_add64_Some split: option.splits)

text \<open>C1. A prefix merge returns the globally smallest rows.  Whatever store or cursor fails, a
  merge that succeeds is exactly the first \<open>limit\<close> of the rows with the prefix of all stores
  together, ordered by key, then store, then value: neither the early exit, nor the per-store
  cap, nor the order in which stores are visited drops or adds a row.  The rows fit the byte
  budget.\<close>

theorem merge_is_globally_smallest:
  assumes "list_all2 serves sources rowss"
    and "lmdb_prefix_merge_entries sources pre limit max_bytes = Inr (selected, scanned)"
  shows "selected = take limit (sort (all_candidates 0 (map (with_prefix pre) rowss)))
    \<and> sum_list (map (\<lambda>(k, _, v). length k + length v) selected) \<le> max_bytes"
proof (cases "limit = 0")
  case False
  from assms(2) False have "merge_sources pre limit 0 sources 0 [] = Inr (scanned, selected)"
    and wb: "within_byte_cap selected max_bytes"
    by (auto simp: lmdb_prefix_merge_entries_def split: if_splits option.splits sum.splits)
  from merge_sources_smallest [OF assms(1) this(1)] False
  have "selected = take limit (sort (all_candidates 0 (map (with_prefix pre) rowss)))"
    by (simp add: smallest_def)
  with wb sum_bytes_Some [of selected 0] show ?thesis
    by (auto simp: within_byte_cap_def split: option.splits)
qed (use assms(2) in \<open>auto simp: lmdb_prefix_merge_entries_def split: if_splits\<close>)

theorem merge_is_globally_smallest_witness:
  "[([1, 1], 0, [9]), ([1, 1], 1, [8])] = take 2 (sort (all_candidates 0
     (map (with_prefix [1]) [[([1, 1], [9]), ([1, 3], []), ([2], [])], [([1, 1], [8]), ([1, 2], [])]])))"
proof -
  let ?rs = "[([1, 1], [9]), ([1, 3], []), ([2], [])]" and ?rs' = "[([1, 1], [8]), ([1, 2], [])]"
  have "lmdb_prefix_merge_entries [ideal_lmdb ?rs, ideal_lmdb ?rs'] [1] 2 100 =
      Inr ([([1, 1], 0, [9]), ([1, 1], 1, [8])], 4)"
    by (simp add: lmdb_prefix_merge_entries_def ideal_lmdb_def with_prefix_def scan_source_def Let_def heap_push_def
      heap_peek_def heap_pop_def within_byte_cap_def checked_add64_def saturating_add64_def U64_MAX_def MAX_PATHS_def
      MAX_PREFIX_BYTES_def MAX_LIMIT_def MAX_MERGE_BYTES_def)
  moreover have "list_all2 serves [ideal_lmdb ?rs, ideal_lmdb ?rs'] [?rs, ?rs']"
    by (simp add: ideal_serves)
  ultimately show ?thesis using merge_is_globally_smallest [of "[ideal_lmdb ?rs, ideal_lmdb ?rs']" "[?rs, ?rs']" "[1]" 2 100] by blast
qed

end
