(* ===== verification/Flow_Composite.thy ===== *)
theory Flow_Composite
  imports Prelude "HOL-Library.Monad_Syntax" "HOL-Library.Sublist"
begin

text \<open>
  Entries of the Flow composite index (\<^verbatim>\<open>src/flow_composite_codec.rs\<close>) and the physical form of
  state keys (\<^verbatim>\<open>src/flow_physical_key.rs\<close>).  CRC-32 and SHA-256 are parameters.

  The lemmas show that the decoder accepts exactly the entries of a reference encoder: the
  checksum, the lengths, the owner of the state key and the digest at the end of the index
  key all have to agree.
\<close>

section \<open>Decoding\<close>

definition CHECKED_PREFIX_BYTES :: nat where [simp]: "CHECKED_PREFIX_BYTES = 5"
definition PLAIN_BODY_HEADER_BYTES :: nat where [simp]: "PLAIN_BODY_HEADER_BYTES = 20"
definition COVERING_BODY_HEADER_BYTES :: nat where [simp]: "COVERING_BODY_HEADER_BYTES = 28"
definition MAX_COVERING_BYTES :: nat where "MAX_COVERING_BYTES = 64 * 1024"
definition MAX_COMPONENT_BYTES :: nat where "MAX_COMPONENT_BYTES = 65535"
definition MAX_RUN_ID_BYTES :: nat where "MAX_RUN_ID_BYTES = MAX_COMPONENT_BYTES - 52"
definition MAX_EXACT_INTEGER :: u64 where "MAX_EXACT_INTEGER = 9007199254740991"
definition LMDB_MAX_KEY_BYTES :: nat where "LMDB_MAX_KEY_BYTES = 511"

record decoded_entry =
  de_id :: bytes
  de_state_key :: bytes
  de_record_version :: u64
  de_expire_at_ms :: u64
  de_covering :: "bytes option"

definition is_ascii_digit :: "u8 \<Rightarrow> bool" where
  "is_ascii_digit b \<longleftrightarrow> 48 \<le> b \<and> b \<le> 57"

definition is_ascii_alphanumeric :: "u8 \<Rightarrow> bool" where
  "is_ascii_alphanumeric b \<longleftrightarrow> is_ascii_digit b \<or> 65 \<le> b \<and> b \<le> 90 \<or> 97 \<le> b \<and> b \<le> 122"

definition strip_prefix :: "bytes \<Rightarrow> bytes \<Rightarrow> bytes option" where
  "strip_prefix p bs = (if prefix p bs then Some (drop (length p) bs) else None)"

definition saturating_mul16 :: "nat \<Rightarrow> nat \<Rightarrow> nat" where
  "saturating_mul16 a b = min (a * b) 65535"

definition saturating_add16 :: "nat \<Rightarrow> nat \<Rightarrow> nat" where
  "saturating_add16 a b = min (a + b) 65535"

definition bucket_number :: "bytes \<Rightarrow> nat" where
  "bucket_number bucket =
     foldl (\<lambda>n digit. saturating_add16 (saturating_mul16 n 10) (unat (digit - 48))) 0 bucket"

definition valid_bucket :: "bytes \<Rightarrow> bool" where
  "valid_bucket bucket \<longleftrightarrow>
     bucket \<noteq> [] \<and> (length bucket = 1 \<or> hd bucket \<noteq> 48) \<and> list_all is_ascii_digit bucket
       \<and> bucket_number bucket \<le> 255"

definition base64url :: "u8 \<Rightarrow> bool" where
  "base64url b \<longleftrightarrow> is_ascii_alphanumeric b \<or> b = 45 \<or> b = 95"

definition valid_digest :: "bytes \<Rightarrow> bool" where
  "valid_digest digest \<longleftrightarrow>
     (if length digest = 22 then
        list_all base64url (take 21 digest) \<and> digest ! 21 \<in> set (as_bytes ''AQgw'')
      else
        length digest = 43 \<and> list_all base64url (take 42 digest)
          \<and> digest ! 42 \<in> set (as_bytes ''AEIMQUYcgkosw048''))"

definition valid_flow_tag :: "bytes \<Rightarrow> bool" where
  "valid_flow_tag tag =
     (if tag = as_bytes ''f'' then True
      else case strip_prefix (as_bytes ''fa:'') tag of
        Some bucket \<Rightarrow> valid_bucket bucket
      | None \<Rightarrow>
          (case strip_prefix (as_bytes ''f:'') tag of
             None \<Rightarrow> False
           | Some digest \<Rightarrow> valid_digest digest))"

fun find_marker :: "bytes \<Rightarrow> bytes \<Rightarrow> nat option" where
  "find_marker m [] = (if m = [] then Some 0 else None)"
| "find_marker m (b # bs) = (if prefix m (b # bs) then Some 0 else map_option Suc (find_marker m bs))"

definition MARKER :: bytes where "MARKER = as_bytes ''}:s:''"

definition state_key_owns_id :: "bytes \<Rightarrow> bytes \<Rightarrow> bool" where
  "state_key_owns_id state_key run_id =
     (if \<not> prefix (as_bytes ''f:{'') state_key then False
      else case find_marker MARKER (drop 3 state_key) of
        None \<Rightarrow> False
      | Some position \<Rightarrow>
          valid_flow_tag (seg 3 (3 + position) state_key)
            \<and> drop (3 + position + length MARKER) state_key = run_id)"

definition checked_body :: "(bytes \<Rightarrow> u32) \<Rightarrow> bytes \<Rightarrow> bytes option" where
  "checked_body crc val =
     (if length val \<le> CHECKED_PREFIX_BYTES then None
      else
        let expected = of_be32 (seg 1 CHECKED_PREFIX_BYTES val); body = drop CHECKED_PREFIX_BYTES val in
        if crc body = expected then Some body else None)"

definition decode_plain_value :: "(bytes \<Rightarrow> u32) \<Rightarrow> bytes \<Rightarrow> decoded_entry option" where
  "decode_plain_value crc val = do {
     body \<leftarrow> checked_body crc val;
     if length body \<le> PLAIN_BODY_HEADER_BYTES then None
     else
       let id_len = unat (of_be32 (seg 0 4 body)) in
       if id_len = 0 \<or> id_len > MAX_RUN_ID_BYTES \<or> PLAIN_BODY_HEADER_BYTES + id_len \<ge> length body then None
       else Some
         \<lparr>de_id = seg PLAIN_BODY_HEADER_BYTES (PLAIN_BODY_HEADER_BYTES + id_len) body,
          de_state_key = drop (PLAIN_BODY_HEADER_BYTES + id_len) body,
          de_record_version = of_be64 (seg 4 12 body), de_expire_at_ms = of_be64 (seg 12 20 body),
          de_covering = None\<rparr> }"

definition decode_covering_value :: "(bytes \<Rightarrow> u32) \<Rightarrow> bytes \<Rightarrow> decoded_entry option" where
  "decode_covering_value crc val = do {
     body \<leftarrow> checked_body crc val;
     if length body \<le> COVERING_BODY_HEADER_BYTES then None
     else
       let id_len = unat (of_be32 (seg 0 4 body)); state_key_len = unat (of_be32 (seg 4 8 body));
           covering_len = unat (of_be32 (seg 24 28 body)) in
       do {
         n \<leftarrow> checked_add64 id_len state_key_len;
         payload_len \<leftarrow> checked_add64 n covering_len;
         total \<leftarrow> checked_add64 COVERING_BODY_HEADER_BYTES payload_len;
         if id_len = 0 \<or> id_len > MAX_RUN_ID_BYTES \<or> state_key_len = 0 \<or> state_key_len > MAX_COMPONENT_BYTES
             \<or> covering_len = 0 \<or> covering_len > MAX_COVERING_BYTES \<or> length body \<noteq> total
         then None
         else
           let id_start = COVERING_BODY_HEADER_BYTES; state_key_start = id_start + id_len;
               covering_start = state_key_start + state_key_len in
           Some
             \<lparr>de_id = seg id_start state_key_start body, de_state_key = seg state_key_start covering_start body,
              de_record_version = of_be64 (seg 8 16 body), de_expire_at_ms = of_be64 (seg 16 24 body),
              de_covering = Some (drop covering_start body)\<rparr> } }"

definition decode_entry ::
  "(bytes \<Rightarrow> u32) \<Rightarrow> (bytes \<Rightarrow> bytes) \<Rightarrow> bytes \<Rightarrow> bytes \<Rightarrow> decoded_entry option" where
  "decode_entry crc sha key val =
     (if length key > LMDB_MAX_KEY_BYTES \<or> val = [] then None
      else do {
        e \<leftarrow> (if hd val = 1 then decode_plain_value crc val
              else if hd val = 2 then decode_covering_value crc val
              else None);
        if de_record_version e > MAX_EXACT_INTEGER then None
        else if length (de_state_key e) > MAX_COMPONENT_BYTES \<or> \<not> state_key_owns_id (de_state_key e) (de_id e) then None
        else if length key < 33 \<or> key ! (length key - 33) \<noteq> 96 then None
        else if drop (length key - 32) key \<noteq> sha (de_id e) then None
        else Some e })"

section \<open>Physical state keys\<close>

definition MAX_DIRECT_STATE_KEY_BYTES :: nat where "MAX_DIRECT_STATE_KEY_BYTES = 511"
definition PHYSICAL_STATE_KEY_PREFIX :: bytes where "PHYSICAL_STATE_KEY_PREFIX = 0 # as_bytes ''flsk:1:''"

definition physical_state_key :: "(bytes \<Rightarrow> bytes) \<Rightarrow> bytes \<Rightarrow> bytes" where
  "physical_state_key sha logical_state_key =
     (if length logical_state_key \<le> MAX_DIRECT_STATE_KEY_BYTES then logical_state_key
      else PHYSICAL_STATE_KEY_PREFIX @ sha logical_state_key)"

section \<open>The tag grammar\<close>

function decimal :: "nat \<Rightarrow> bytes" where
  "decimal n = (if n < 10 then [48 + word_of_nat n] else decimal (n div 10) @ [48 + word_of_nat (n mod 10)])"
  by pat_completeness auto
termination by (relation "measure id") auto

declare decimal.simps [simp del]

definition digits_number :: "bytes \<Rightarrow> nat" where
  "digits_number bucket = foldl (\<lambda>n digit. n * 10 + unat (digit - 48)) 0 bucket"

lemma digits_number_snoc: "digits_number (ds @ [d]) = digits_number ds * 10 + unat (d - 48)"
  by (simp add: digits_number_def)

lemma bucket_number_snoc:
  "bucket_number (ds @ [d]) = saturating_add16 (saturating_mul16 (bucket_number ds) 10) (unat (d - 48))"
  by (simp add: bucket_number_def)

lemma bucket_number_saturates: "bucket_number ds = min (digits_number ds) 65535"
proof (induction ds rule: rev_induct)
  case Nil
  then show ?case by (simp add: bucket_number_def digits_number_def)
next
  case (snoc d ds)
  then show ?case
    by (auto simp: digits_number_snoc bucket_number_snoc saturating_add16_def saturating_mul16_def min_def)
qed

lemma digit_cases:
  assumes "is_ascii_digit d"
  obtains n where "n < 10" "d = 48 + word_of_nat n" "unat (d - 48) = n"
proof -
  have "unat (d - 48) = unat d - 48" using assms by (simp add: is_ascii_digit_def unat_sub word_le_nat_alt)
  moreover have "48 \<le> unat d" "unat d \<le> 57" using assms by (simp_all add: is_ascii_digit_def word_le_nat_alt)
  ultimately show thesis
    by (intro that [of "unat d - 48"]) (simp_all add: of_nat_diff)
qed

lemma digit_of: "n < 10 \<Longrightarrow> is_ascii_digit (48 + word_of_nat n) \<and> unat (48 + word_of_nat n - 48 :: u8) = n"
  by (simp add: is_ascii_digit_def word_le_nat_alt unat_word_ariths unat_of_nat)

definition canonical :: "bytes \<Rightarrow> bool" where
  "canonical ds \<longleftrightarrow> ds \<noteq> [] \<and> (length ds = 1 \<or> hd ds \<noteq> 48) \<and> list_all is_ascii_digit ds"

lemma canonical_decimal: "canonical (decimal n) \<and> digits_number (decimal n) = n \<and> (0 < n \<longrightarrow> hd (decimal n) \<noteq> 48)"
proof (induction n rule: decimal.induct)
  case (1 n)
  show ?case
  proof (cases "n < 10")
    case True
    moreover have "(48 :: u8) + word_of_nat n \<noteq> 48" if "0 < n"
      using digit_of [OF True] that by (metis diff_self unat_0 less_irrefl)
    ultimately show ?thesis using digit_of [OF True]
      by (simp add: decimal.simps [of n] canonical_def digits_number_def)
  next
    case False
    then have "0 < n div 10" by (simp add: div_greater_zero_iff)
    with 1 [OF False] have "canonical (decimal (n div 10))" "digits_number (decimal (n div 10)) = n div 10"
      "hd (decimal (n div 10)) \<noteq> 48" by simp_all
    then show ?thesis using False digit_of [of "n mod 10"]
      by (simp add: decimal.simps [of n] canonical_def digits_number_snoc)
  qed
qed

lemma canonical_is_decimal: "canonical ds \<Longrightarrow> ds = decimal (digits_number ds)"
proof (induction ds rule: rev_induct)
  case (snoc d ds)
  have dd: "is_ascii_digit d" using snoc.prems by (simp add: canonical_def)
  then obtain m where m: "m < 10" "d = 48 + word_of_nat m" "unat (d - 48) = m" by (rule digit_cases)
  show ?case
  proof (cases "ds = []")
    case True
    then show ?thesis using m by (simp add: digits_number_def decimal.simps)
  next
    case False
    with snoc.prems have can: "canonical ds" and "hd ds \<noteq> 48" by (auto simp: canonical_def)
    then have pos: "0 < digits_number ds"
      using canonical_decimal [of 0] snoc.IH [OF can] by (cases "digits_number ds") (auto simp: decimal.simps [of 0])
    have "digits_number (ds @ [d]) = digits_number ds * 10 + m" using m by (simp add: digits_number_snoc)
    with pos m snoc.IH [OF can] show ?thesis
      by (subst decimal.simps) simp
  qed
qed (simp add: canonical_def)

lemma valid_bucket_iff: "valid_bucket bucket \<longleftrightarrow> (\<exists>n \<le> 255. bucket = decimal n)"
proof
  assume "valid_bucket bucket"
  then have "canonical bucket" "digits_number bucket \<le> 255"
    by (auto simp: valid_bucket_def canonical_def bucket_number_saturates)
  then show "\<exists>n \<le> 255. bucket = decimal n" using canonical_is_decimal by blast
next
  assume "\<exists>n \<le> 255. bucket = decimal n"
  then show "valid_bucket bucket" using canonical_decimal
    by (auto simp: valid_bucket_def canonical_def bucket_number_saturates)
qed


section \<open>Who owns a state key\<close>

lemma tag_iff:
  "valid_flow_tag tag \<longleftrightarrow> tag = as_bytes ''f''
     \<or> (\<exists>b. tag = as_bytes ''fa:'' @ b \<and> valid_bucket b) \<or> (\<exists>d. tag = as_bytes ''f:'' @ d \<and> valid_digest d)"
  by (auto simp: valid_flow_tag_def strip_prefix_def prefix_def as_bytes_def)

lemma no_brace_ascii: "is_ascii_digit b \<Longrightarrow> b \<noteq> 125" "base64url b \<Longrightarrow> b \<noteq> 125"
  by (auto simp: is_ascii_digit_def base64url_def is_ascii_alphanumeric_def)

lemma digest_no_brace: "valid_digest d \<Longrightarrow> 125 \<notin> set d"
proof
  assume v: "valid_digest d" and "125 \<in> set d"
  then obtain i where i: "i < length d" "d ! i = 125" by (auto simp: in_set_conv_nth)
  show False
  proof (cases "length d = 22")
    case True
    then show False using v i no_brace_ascii(2)
      by (cases "i = 21") (auto simp: valid_digest_def list_all_length as_bytes_def)
  next
    case False
    then show False using v i no_brace_ascii(2)
      by (cases "i = 42") (auto simp: valid_digest_def list_all_length as_bytes_def)
  qed
qed

lemma bucket_no_brace: "valid_bucket b \<Longrightarrow> 125 \<notin> set b"
  by (auto simp: valid_bucket_def list_all_iff dest!: bspec [of _ _ 125]) (simp_all add: is_ascii_digit_def)

lemma tag_no_brace: "valid_flow_tag tag \<Longrightarrow> 125 \<notin> set tag"
  using digest_no_brace by (auto simp: tag_iff as_bytes_def dest: bucket_no_brace)

lemma MARKER_simps [simp]: "MARKER = [125, 58, 115, 58]"
  by (simp add: MARKER_def as_bytes_def)

lemma MARKER_length: "length MARKER = 4" by simp

lemma find_marker_clean: "125 \<notin> set tag \<Longrightarrow> find_marker MARKER (tag @ MARKER @ rest) = Some (length tag)"
  by (induction tag) auto

lemma find_marker_Some: "find_marker m bs = Some n \<Longrightarrow> n \<le> length bs \<and> prefix m (drop n bs)"
proof (induction m bs arbitrary: n rule: find_marker.induct)
  case (2 m b bs)
  then show ?case by (cases n) (auto split: if_splits)
qed (auto split: if_splits)

lemma state_key_owns_iff:
  "state_key_owns_id sk run_id \<longleftrightarrow> (\<exists>tag. valid_flow_tag tag \<and> sk = as_bytes ''f:{'' @ tag @ MARKER @ run_id)"
proof
  assume owns: "state_key_owns_id sk run_id"
  then obtain r where r: "sk = as_bytes ''f:{'' @ r" by (auto simp: state_key_owns_id_def prefix_def split: if_splits)
  have three: "length (as_bytes ''f:{'') = 3" by simp
  from owns r obtain n where n: "find_marker MARKER r = Some n" "valid_flow_tag (take n r)" "drop (4 + n) r = run_id"
    by (auto simp: state_key_owns_id_def seg_def three MARKER_length split: if_splits option.splits simp del: MARKER_simps)
  from find_marker_Some [OF n(1)] obtain r' where r': "drop n r = MARKER @ r'" by (auto simp: prefix_def simp del: MARKER_simps)
  have "run_id = drop 4 (drop n r)" using n(3) by simp
  then have "r' = run_id" unfolding r' by simp
  then have "r = take n r @ MARKER @ run_id" using append_take_drop_id [of n r] unfolding r' by simp
  then have "sk = as_bytes ''f:{'' @ take n r @ MARKER @ run_id" using r by simp
  with n(2) show "\<exists>tag. valid_flow_tag tag \<and> sk = as_bytes ''f:{'' @ tag @ MARKER @ run_id" by blast
next
  assume "\<exists>tag. valid_flow_tag tag \<and> sk = as_bytes ''f:{'' @ tag @ MARKER @ run_id"
  then obtain tag where t: "valid_flow_tag tag" "sk = as_bytes ''f:{'' @ tag @ MARKER @ run_id" by blast
  have "find_marker MARKER (drop 3 sk) = Some (length tag)"
    using t find_marker_clean [OF tag_no_brace [OF t(1)], of run_id] by (simp add: as_bytes_def)
  moreover have "drop (7 + length tag) sk = run_id"
  proof -
    define p where "p = as_bytes ''f:{'' @ tag @ MARKER"
    have "length p = 7 + length tag" "sk = p @ run_id" by (simp_all add: p_def t(2))
    then show ?thesis by (metis append_eq_conv_conj)
  qed
  ultimately show "state_key_owns_id sk run_id"
    using t by (simp add: state_key_owns_id_def seg_def as_bytes_def)
qed

section \<open>The decoder accepts exactly encoded entries\<close>

definition plain_body :: "decoded_entry \<Rightarrow> bytes" where
  "plain_body e = be32 (word_of_nat (length (de_id e))) @ be64 (de_record_version e)
     @ be64 (de_expire_at_ms e) @ de_id e @ de_state_key e"

definition covering_body :: "decoded_entry \<Rightarrow> bytes \<Rightarrow> bytes" where
  "covering_body e c = be32 (word_of_nat (length (de_id e))) @ be32 (word_of_nat (length (de_state_key e)))
     @ be64 (de_record_version e) @ be64 (de_expire_at_ms e) @ be32 (word_of_nat (length c))
     @ de_id e @ de_state_key e @ c"

definition checked_value :: "(bytes \<Rightarrow> u32) \<Rightarrow> u8 \<Rightarrow> bytes \<Rightarrow> bytes" where
  "checked_value crc version body = version # be32 (crc body) @ body"

definition entry_value :: "(bytes \<Rightarrow> u32) \<Rightarrow> decoded_entry \<Rightarrow> bytes" where
  "entry_value crc e =
     (case de_covering e of
        None \<Rightarrow> checked_value crc 1 (plain_body e)
      | Some c \<Rightarrow> checked_value crc 2 (covering_body e c))"

definition sizes_ok :: "decoded_entry \<Rightarrow> bool" where
  "sizes_ok e \<longleftrightarrow> de_id e \<noteq> [] \<and> length (de_id e) \<le> MAX_RUN_ID_BYTES \<and> de_state_key e \<noteq> []
     \<and> (case de_covering e of None \<Rightarrow> True
        | Some c \<Rightarrow> c \<noteq> [] \<and> length c \<le> MAX_COVERING_BYTES \<and> length (de_state_key e) \<le> MAX_COMPONENT_BYTES)"

definition entry_ok :: "decoded_entry \<Rightarrow> bool" where
  "entry_ok e \<longleftrightarrow> sizes_ok e \<and> length (de_state_key e) \<le> MAX_COMPONENT_BYTES
     \<and> de_record_version e \<le> MAX_EXACT_INTEGER
     \<and> (\<exists>tag. valid_flow_tag tag \<and> de_state_key e = as_bytes ''f:{'' @ tag @ MARKER @ de_id e)"

lemma checked_body_iff:
  "checked_body crc val = Some body \<longleftrightarrow> body \<noteq> [] \<and> val \<noteq> [] \<and> val = checked_value crc (hd val) body"
proof
  assume c: "checked_body crc val = Some body"
  then have len: "5 < length val" and body: "body = drop 5 val" and crc: "crc body = of_be32 (seg 1 5 val)"
    by (auto simp: checked_body_def Let_def split: if_splits)
  have "val = hd val # seg 1 5 val @ drop 5 val"
    using len by (cases val) (simp_all add: seg_def)
  with crc body len show "body \<noteq> [] \<and> val \<noteq> [] \<and> val = checked_value crc (hd val) body"
    by (auto simp: checked_value_def be_of_be)
next
  assume "body \<noteq> [] \<and> val \<noteq> [] \<and> val = checked_value crc (hd val) body"
  then obtain t where "val = t # be32 (crc body) @ body" "body \<noteq> []" by (auto simp: checked_value_def)
  then show "checked_body crc val = Some body" by (simp add: checked_body_def seg_def)
qed

lemma plain_body_fields:
  "seg 0 4 (plain_body e) = be32 (word_of_nat (length (de_id e)))" "seg 4 12 (plain_body e) = be64 (de_record_version e)"
  "seg 12 20 (plain_body e) = be64 (de_expire_at_ms e)" "drop 20 (plain_body e) = de_id e @ de_state_key e"
  by (simp_all add: plain_body_def seg_def)

lemma covering_body_fields:
  "seg 0 4 (covering_body e c) = be32 (word_of_nat (length (de_id e)))"
  "seg 4 8 (covering_body e c) = be32 (word_of_nat (length (de_state_key e)))"
  "seg 8 16 (covering_body e c) = be64 (de_record_version e)" "seg 16 24 (covering_body e c) = be64 (de_expire_at_ms e)"
  "seg 24 28 (covering_body e c) = be32 (word_of_nat (length c))"
  "drop 28 (covering_body e c) = de_id e @ de_state_key e @ c"
  by (simp_all add: covering_body_def seg_def)

lemma decode_plain_iff:
  "decode_plain_value crc val = Some e \<longleftrightarrow>
     val \<noteq> [] \<and> val = checked_value crc (hd val) (plain_body e) \<and> de_covering e = None \<and> sizes_ok e"
proof
  assume d: "decode_plain_value crc val = Some e"
  then obtain body where b: "checked_body crc val = Some body" "20 < length body"
    by (auto simp: decode_plain_value_def Option.bind_eq_Some_conv split: if_splits)
  define n where "n = unat (of_be32 (seg 0 4 body))"
  from d b have n: "0 < n" "n \<le> MAX_RUN_ID_BYTES" "20 + n < length body"
    and e: "e = \<lparr>de_id = seg 20 (20 + n) body, de_state_key = drop (20 + n) body, de_record_version = of_be64 (seg 4 12 body),
          de_expire_at_ms = of_be64 (seg 12 20 body), de_covering = None\<rparr>"
    by (auto simp: decode_plain_value_def Let_def n_def split: if_splits)
  have split: "body = seg 0 4 body @ seg 4 12 body @ seg 12 20 body @ seg 20 (20 + n) body @ drop (20 + n) body"
    using n(3) by (simp add: seg_join seg_to_end)
  have "length (seg 20 (20 + n) body) = n" using n(3) by simp
  then have "plain_body e = body"
    using n(3) by (subst split) (simp add: plain_body_def e n_def be_of_be)
  moreover have "sizes_ok e" using n by (auto simp: sizes_ok_def e seg_def)
  ultimately show "val \<noteq> [] \<and> val = checked_value crc (hd val) (plain_body e) \<and> de_covering e = None \<and> sizes_ok e"
    using b(1) e by (simp add: checked_body_iff)
next
  assume r: "val \<noteq> [] \<and> val = checked_value crc (hd val) (plain_body e) \<and> de_covering e = None \<and> sizes_ok e"
  have len: "length (plain_body e) = 20 + length (de_id e) + length (de_state_key e)" by (simp add: plain_body_def)
  then have cb: "checked_body crc val = Some (plain_body e)"
    using r unfolding checked_body_iff by (auto simp: sizes_ok_def)
  have "unat (word_of_nat (length (de_id e)) :: u32) = length (de_id e)"
    using r by (simp add: sizes_ok_def MAX_RUN_ID_BYTES_def MAX_COMPONENT_BYTES_def unat_of_nat_32)
  moreover have "seg 20 (20 + m) (plain_body e) = take m (drop 20 (plain_body e))"
    "drop (20 + m) (plain_body e) = drop m (drop 20 (plain_body e))" for m
    by (simp_all add: seg_def add.commute)
  ultimately show "decode_plain_value crc val = Some e"
    using r len cb by (cases e) (simp add: decode_plain_value_def plain_body_fields sizes_ok_def)
qed

lemma covering_split:
  fixes body :: bytes
  assumes "length body = 28 + n + m + k"
  shows "body = seg 0 4 body @ seg 4 8 body @ seg 8 16 body @ seg 16 24 body @ seg 24 28 body
      @ seg 28 (28 + n) body @ seg (28 + n) (28 + n + m) body @ drop (28 + n + m) body"
  using assms by (simp add: seg_join seg_to_end)

lemma unat_small_32: "n \<le> 65536 \<Longrightarrow> unat (word_of_nat n :: u32) = n"
  by (simp add: unat_of_nat_32)

lemma decode_covering_sound:
  assumes "decode_covering_value crc val = Some e"
  shows "\<exists>c. val \<noteq> [] \<and> val = checked_value crc (hd val) (covering_body e c) \<and> de_covering e = Some c \<and> sizes_ok e"
proof -
  from assms obtain body where b: "checked_body crc val = Some body" "28 < length body"
    by (auto simp: decode_covering_value_def Option.bind_eq_Some_conv split: if_splits)
  define n m k where nmk: "n = unat (of_be32 (seg 0 4 body))" "m = unat (of_be32 (seg 4 8 body))"
    "k = unat (of_be32 (seg 24 28 body))"
  from assms b have ok: "0 < n" "n \<le> MAX_RUN_ID_BYTES" "0 < m" "m \<le> MAX_COMPONENT_BYTES" "0 < k"
    "k \<le> MAX_COVERING_BYTES" "length body = 28 + n + m + k"
    and e: "e = \<lparr>de_id = seg 28 (28 + n) body, de_state_key = seg (28 + n) (28 + n + m) body,
      de_record_version = of_be64 (seg 8 16 body), de_expire_at_ms = of_be64 (seg 16 24 body),
      de_covering = Some (drop (28 + n + m) body)\<rparr>"
    by (auto simp: decode_covering_value_def Let_def nmk Option.bind_eq_Some_conv checked_add64_Some split: if_splits)
  have lens: "length (de_id e) = n" "length (de_state_key e) = m" "length (drop (28 + n + m) body) = k"
    using ok(7) by (simp_all add: e)
  have hdr: "be32 (word_of_nat n) = seg 0 4 body" "be32 (word_of_nat m) = seg 4 8 body" "be32 (word_of_nat k) = seg 24 28 body"
    "be64 (of_be64 (seg 8 16 body)) = seg 8 16 body" "be64 (of_be64 (seg 16 24 body)) = seg 16 24 body"
    using b(2) by (simp_all add: nmk be_of_be)
  have "covering_body e (drop (28 + n + m) body) = body"
    unfolding covering_body_def lens
    by (subst (2) covering_split [OF ok(7)]) (simp only: e decoded_entry.simps hdr)
  moreover have cov: "de_covering e = Some (drop (28 + n + m) body)" by (simp only: e decoded_entry.simps)
  moreover have "sizes_ok e"
    unfolding sizes_ok_def cov option.case lens
    using ok(1-6) lens by (auto simp only: length_greater_0_conv)
  ultimately show ?thesis using b(1) unfolding checked_body_iff by metis
qed

lemma decode_covering_complete:
  assumes "val \<noteq> []" "val = checked_value crc (hd val) (covering_body e c)" "de_covering e = Some c" "sizes_ok e"
  shows "decode_covering_value crc val = Some e"
proof -
  let ?b = "covering_body e c"
  have len: "length ?b = 28 + length (de_id e) + length (de_state_key e) + length c" by (simp add: covering_body_def)
  have cb: "checked_body crc val = Some ?b"
    using assms len unfolding checked_body_iff by (auto simp: sizes_ok_def)
  have sz: "length (de_id e) \<le> 65535" "length (de_state_key e) \<le> 65535" "length c \<le> 65536"
    using assms(3,4) by (simp_all add: sizes_ok_def MAX_RUN_ID_BYTES_def MAX_COMPONENT_BYTES_def MAX_COVERING_BYTES_def)
  then have u: "unat (word_of_nat (length (de_id e)) :: u32) = length (de_id e)"
    "unat (word_of_nat (length (de_state_key e)) :: u32) = length (de_state_key e)"
    "unat (word_of_nat (length c) :: u32) = length c"
    by (simp_all add: unat_small_32)
  have parts: "seg 28 (28 + i) ?b = take i (drop 28 ?b)" "seg (28 + i) (28 + i + j) ?b = take j (drop i (drop 28 ?b))"
    "drop (28 + i + j) ?b = drop (i + j) (drop 28 ?b)" for i j
    by (simp_all add: seg_def ac_simps)
  have ne: "de_id e \<noteq> []" "de_state_key e \<noteq> []" "c \<noteq> []"
    and max: "length (de_id e) \<le> MAX_RUN_ID_BYTES" "length (de_state_key e) \<le> MAX_COMPONENT_BYTES" "length c \<le> MAX_COVERING_BYTES"
    using assms(3,4) by (simp_all add: sizes_ok_def)
  have "\<not> length ?b \<le> 28" using ne by (simp add: len)
  with cb have "decode_covering_value crc val = Some \<lparr>de_id = de_id e, de_state_key = de_state_key e,
      de_record_version = de_record_version e, de_expire_at_ms = de_expire_at_ms e, de_covering = Some c\<rparr>"
    using ne max sz
    by (simp add: decode_covering_value_def covering_body_fields u parts checked_add64_def U64_MAX_def len Let_def)
  then show ?thesis using assms(3) by (cases e) simp
qed

lemma decode_value_iff:
  "(if hd val = 1 then decode_plain_value crc val else if hd val = 2 then decode_covering_value crc val else None) = Some e
     \<and> val \<noteq> [] \<longleftrightarrow> val = entry_value crc e \<and> sizes_ok e"
proof (cases "de_covering e")
  case None
  then show ?thesis
    using decode_covering_sound [of crc val e]
    by (auto simp: decode_plain_iff entry_value_def) (simp_all add: checked_value_def)
next
  case (Some c)
  then show ?thesis
    using decode_covering_sound [of crc val e] decode_covering_complete [of val crc e c]
    by (auto simp: decode_plain_iff entry_value_def) (simp_all add: checked_value_def)
qed

lemma key_tail:
  fixes key :: bytes
  assumes "length d = 32"
  shows "33 \<le> length key \<and> key ! (length key - 33) = 96 \<and> drop (length key - 32) key = d \<longleftrightarrow> (\<exists>p. key = p @ 96 # d)"
proof
  assume k: "33 \<le> length key \<and> key ! (length key - 33) = 96 \<and> drop (length key - 32) key = d"
  then have "Suc (length key - 33) = length key - 32" by arith
  with k have "drop (length key - 33) key = 96 # d"
    using Cons_nth_drop_Suc [of "length key - 33" key] by simp
  then show "\<exists>p. key = p @ 96 # d" by (metis append_take_drop_id)
qed (use assms in \<open>auto simp: nth_append\<close>)

lemma decode_entry_guards:
  "decode_entry crc sha key val = Some e \<longleftrightarrow>
     ((if hd val = 1 then decode_plain_value crc val else if hd val = 2 then decode_covering_value crc val else None) = Some e
        \<and> val \<noteq> [])
     \<and> length key \<le> LMDB_MAX_KEY_BYTES
     \<and> de_record_version e \<le> MAX_EXACT_INTEGER \<and> length (de_state_key e) \<le> MAX_COMPONENT_BYTES
     \<and> state_key_owns_id (de_state_key e) (de_id e)
     \<and> (33 \<le> length key \<and> key ! (length key - 33) = 96 \<and> drop (length key - 32) key = sha (de_id e))"
proof -
  define dv where "dv = (if hd val = 1 then decode_plain_value crc val
    else if hd val = 2 then decode_covering_value crc val else None)"
  show ?thesis unfolding decode_entry_def dv_def [symmetric]
    by (cases dv) (auto simp: not_less not_le)
qed

text \<open>C32. The composite-index decoder accepts exactly well-formed entries.  It returns an entry if
  and only if the value is the encoding of that entry with a correct checksum, all sizes are
  within their limits, the state key is the state key of that very run under a valid routing
  tag, and the index key ends with the separator and the digest of the run's identifier.\<close>

theorem composite_decode_exact:
  assumes "\<And>x. length (sha x) = 32"
  shows "decode_entry crc sha key val = Some e \<longleftrightarrow>
     val = entry_value crc e \<and> entry_ok e \<and> length key \<le> LMDB_MAX_KEY_BYTES \<and> (\<exists>p. key = p @ 96 # sha (de_id e))"
  unfolding decode_entry_guards decode_value_iff key_tail [OF assms] state_key_owns_iff entry_ok_def by blast

definition sample_entry :: decoded_entry where
  "sample_entry = \<lparr>de_id = [97], de_state_key = as_bytes ''f:{f}:s:a'', de_record_version = 3,
     de_expire_at_ms = 0, de_covering = None\<rparr>"

lemma sample_entry_ok: "entry_ok sample_entry"
proof -
  have "valid_flow_tag (as_bytes ''f'')" by (simp add: valid_flow_tag_def)
  then show ?thesis
    by (auto simp: entry_ok_def sizes_ok_def sample_entry_def MAX_RUN_ID_BYTES_def MAX_COMPONENT_BYTES_def
        MAX_EXACT_INTEGER_def as_bytes_def intro!: exI [of _ "as_bytes ''f''"])
qed

lemma sample_decode:
  "decode_entry (\<lambda>b. 7) (\<lambda>x. replicate 32 1) (5 # 96 # replicate 32 1) (entry_value (\<lambda>b. 7) sample_entry) = Some sample_entry"
proof -
  have "\<exists>p. 5 # 96 # replicate 32 1 = p @ 96 # replicate 32 (1 :: u8)" by (rule exI [of _ "[5]"]) simp
  then show ?thesis
    unfolding decode_entry_guards decode_value_iff
    using sample_entry_ok key_tail [of "replicate 32 1" "5 # 96 # replicate 32 1"]
    by (simp add: entry_ok_def state_key_owns_iff LMDB_MAX_KEY_BYTES_def)
qed

theorem composite_decode_exact_witness:
  "decode_entry (\<lambda>b. 7) (\<lambda>x. replicate 32 1) (5 # 96 # replicate 32 1) (entry_value (\<lambda>b. 7) sample_entry) = Some sample_entry"
  by (subst composite_decode_exact) (auto simp: sample_entry_ok LMDB_MAX_KEY_BYTES_def intro!: exI [of _ "[5]"])

section \<open>Physical keys\<close>

text \<open>C33. Storing a state key under its physical key is safe: physical keys fit the LMDB key limit,
  and two run state keys share a physical key only if they are equal or SHA-256 maps both,
  which are then both too long to be stored directly, to the same digest.\<close>

theorem physical_key_safe:
  assumes "\<And>x. length (sha x) = 32"
    and "prefix (as_bytes ''f:{'') a" "prefix (as_bytes ''f:{'') b"
  shows "length (physical_state_key sha a) \<le> LMDB_MAX_KEY_BYTES
    \<and> (physical_state_key sha a = physical_state_key sha b \<longleftrightarrow>
         a = b \<or> MAX_DIRECT_STATE_KEY_BYTES < length a \<and> MAX_DIRECT_STATE_KEY_BYTES < length b \<and> sha a = sha b)"
  using assms
  by (auto simp: physical_state_key_def PHYSICAL_STATE_KEY_PREFIX_def LMDB_MAX_KEY_BYTES_def MAX_DIRECT_STATE_KEY_BYTES_def
      as_bytes_def prefix_def)

theorem physical_key_safe_witness:
  "physical_state_key (\<lambda>x. replicate 32 9) (as_bytes ''f:{f}:s:a'')
     \<noteq> physical_state_key (\<lambda>x. replicate 32 9) (as_bytes ''f:{f}:s:'' @ replicate 600 97)"
  using physical_key_safe [of "\<lambda>x. replicate 32 9" "as_bytes ''f:{f}:s:a''" "as_bytes ''f:{f}:s:'' @ replicate 600 97"]
  by (auto simp: as_bytes_def MAX_DIRECT_STATE_KEY_BYTES_def dest!: arg_cong [of "[97]" _ length])

end
