(* ===== verification/Lmdb_Pages.thy ===== *)
theory Lmdb_Pages
  imports Lmdb Flow_Composite
begin

text \<open>
  The paging NIF bodies over LMDB (\<^verbatim>\<open>src/sections/part_04.rs\<close>): entries and keys with a prefix,
  forwards from a key, backwards from a key, bounded by rows and bytes, ranges with an
  exhaustion flag, composite-index ranges joined with query rows, and bounded multi-gets.

  The lemmas show that each page is exactly the expected run of rows of the snapshot and that
  resuming at the last returned key continues without gap or overlap.
\<close>

datatype 'e page_error =
    PageStore 'e
  | RangeEntryTooLarge
  | InvalidCompositeEntry
  | BatchKeyBudgetExceeded
  | BatchValueBudgetExceeded
  | BadArg

section \<open>Pages of rows\<close>

definition reading :: "'e lmdb \<Rightarrow> 'e page_error + 'a \<Rightarrow> 'e page_error + 'a" where
  "reading db k =
     (case db_open db of
        Inl e \<Rightarrow> Inl (PageStore e)
      | Inr _ \<Rightarrow> (case db_txn db of Inl e \<Rightarrow> Inl (PageStore e) | Inr _ \<Rightarrow> k))"

definition with_cursor :: "'e cursor \<Rightarrow> (('e + row) list \<Rightarrow> 'e page_error + 'a) \<Rightarrow> 'e page_error + 'a" where
  "with_cursor c k = (case c of Inl e \<Rightarrow> Inl (PageStore e) | Inr items \<Rightarrow> k items)"

fun collect :: "('e + row) list \<Rightarrow> row list \<Rightarrow> 'e page_error + row list" where
  "collect [] entries = Inr entries"
| "collect (Inl e # items) entries = Inl (PageStore e)"
| "collect (Inr r # items) entries = collect items (entries @ [r])"

fun entries_loop :: "bytes \<Rightarrow> nat \<Rightarrow> ('e + row) list \<Rightarrow> row list \<Rightarrow> 'e page_error + row list" where
  "entries_loop pre limit [] entries = Inr entries"
| "entries_loop pre limit (item # items) entries =
     (if length entries \<ge> limit then Inr entries
      else case item of
        Inl e \<Rightarrow> Inl (PageStore e)
      | Inr (key, val) \<Rightarrow>
          if \<not> prefix pre key then Inr entries
          else entries_loop pre limit items (entries @ [(key, val)]))"

definition lmdb_prefix_entries :: "'e lmdb \<Rightarrow> bytes \<Rightarrow> nat \<Rightarrow> 'e page_error + row list" where
  "lmdb_prefix_entries db pre limit =
     reading db (with_cursor (db_prefix_iter db pre) (\<lambda>items. collect (take limit items) []))"

definition lmdb_prefix_entries_after :: "'e lmdb \<Rightarrow> bytes \<Rightarrow> bytes \<Rightarrow> nat \<Rightarrow> 'e page_error + row list" where
  "lmdb_prefix_entries_after db pre after_key limit =
     reading db
       (if after_key = [] then with_cursor (db_prefix_iter db pre) (\<lambda>items. collect (take limit items) [])
        else with_cursor (db_range db (Excluded after_key, Unbounded)) (\<lambda>items. entries_loop pre limit items []))"

definition lmdb_prefix_entries_reverse :: "'e lmdb \<Rightarrow> bytes \<Rightarrow> nat \<Rightarrow> 'e page_error + row list" where
  "lmdb_prefix_entries_reverse db pre limit =
     reading db (with_cursor (db_rev_prefix_iter db pre) (\<lambda>items. collect (take limit items) []))"

definition lmdb_prefix_entries_reverse_before :: "'e lmdb \<Rightarrow> bytes \<Rightarrow> bytes \<Rightarrow> nat \<Rightarrow> 'e page_error + row list" where
  "lmdb_prefix_entries_reverse_before db pre before_key limit =
     reading db
       (if before_key = [] then with_cursor (db_rev_prefix_iter db pre) (\<lambda>items. collect (take limit items) [])
        else with_cursor (db_rev_range db (Unbounded, Excluded before_key)) (\<lambda>items. entries_loop pre limit items []))"

fun count_items :: "('e + row) list \<Rightarrow> nat \<Rightarrow> 'e page_error + nat" where
  "count_items [] n = Inr n"
| "count_items (Inl e # items) n = Inl (PageStore e)"
| "count_items (Inr _ # items) n = count_items items (Suc n)"

definition lmdb_prefix_count :: "'e lmdb \<Rightarrow> bytes \<Rightarrow> 'e page_error + nat" where
  "lmdb_prefix_count db pre = reading db (with_cursor (db_prefix_iter db pre) (\<lambda>items. count_items items 0))"

section \<open>Pages bounded by bytes\<close>

definition row_size :: "row \<Rightarrow> nat" where
  "row_size r = length (fst r) + length (snd r)"

fun bounded_prefix_loop :: "nat \<Rightarrow> nat \<Rightarrow> ('e + row) list \<Rightarrow> row list \<Rightarrow> nat \<Rightarrow> 'e page_error + row list" where
  "bounded_prefix_loop item_cap byte_cap [] entries entry_bytes = Inr entries"
| "bounded_prefix_loop item_cap byte_cap (item # items) entries entry_bytes =
     (if length entries \<ge> item_cap then Inr entries
      else case item of
        Inl e \<Rightarrow> Inl (PageStore e)
      | Inr (key, val) \<Rightarrow>
          let row_bytes = saturating_add64 (length key) (length val) in
          if row_bytes > byte_cap \<and> entries = [] then Inl RangeEntryTooLarge
          else
            let next_bytes = saturating_add64 entry_bytes row_bytes in
            if next_bytes > byte_cap then Inr entries
            else bounded_prefix_loop item_cap byte_cap items (entries @ [(key, val)]) next_bytes)"

fun bounded_range_loop ::
  "bytes \<Rightarrow> nat \<Rightarrow> nat \<Rightarrow> ('e + row) list \<Rightarrow> row list \<Rightarrow> nat \<Rightarrow> 'e page_error + row list" where
  "bounded_range_loop pre item_cap byte_cap [] entries entry_bytes = Inr entries"
| "bounded_range_loop pre item_cap byte_cap (item # items) entries entry_bytes =
     (if length entries \<ge> item_cap then Inr entries
      else case item of
        Inl e \<Rightarrow> Inl (PageStore e)
      | Inr (key, val) \<Rightarrow>
          if \<not> prefix pre key then Inr entries
          else
            let row_bytes = saturating_add64 (length key) (length val) in
            if row_bytes > byte_cap \<and> entries = [] then Inl RangeEntryTooLarge
            else
              let next_bytes = saturating_add64 entry_bytes row_bytes in
              if next_bytes > byte_cap then Inr entries
              else bounded_range_loop pre item_cap byte_cap items (entries @ [(key, val)]) next_bytes)"

definition lmdb_prefix_entries_after_bounded ::
  "'e lmdb \<Rightarrow> bytes \<Rightarrow> bytes \<Rightarrow> nat \<Rightarrow> nat \<Rightarrow> 'e page_error + row list" where
  "lmdb_prefix_entries_after_bounded db pre after_key max_items max_bytes =
     reading db
       (if max_items = 0 then Inr []
        else if after_key = [] then
          with_cursor (db_prefix_iter db pre) (\<lambda>items. bounded_prefix_loop max_items max_bytes items [] 0)
        else
          with_cursor (db_range db (Excluded after_key, Unbounded))
            (\<lambda>items. bounded_range_loop pre max_items max_bytes items [] 0))"

fun keys_loop :: "bytes \<Rightarrow> nat \<Rightarrow> nat \<Rightarrow> ('e + row) list \<Rightarrow> bytes list \<Rightarrow> nat \<Rightarrow> 'e page_error + bytes list" where
  "keys_loop pre item_cap byte_cap [] keys key_bytes = Inr keys"
| "keys_loop pre item_cap byte_cap (item # items) keys key_bytes =
     (if length keys \<ge> item_cap then Inr keys
      else case item of
        Inl e \<Rightarrow> Inl (PageStore e)
      | Inr (key, val) \<Rightarrow>
          if \<not> prefix pre key then Inr keys
          else if length key > byte_cap \<and> keys = [] then Inl RangeEntryTooLarge
          else
            let next_bytes = saturating_add64 key_bytes (length key) in
            if next_bytes > byte_cap then Inr keys
            else keys_loop pre item_cap byte_cap items (keys @ [key]) next_bytes)"

definition start_bound :: "bytes \<Rightarrow> bytes \<Rightarrow> bound" where
  "start_bound pre after_key = (if after_key = [] then Included pre else Excluded after_key)"

definition end_bound :: "bytes \<Rightarrow> bound" where
  "end_bound before_key = (if before_key = [] then Unbounded else Excluded before_key)"

definition lmdb_prefix_keys_after_bounded ::
  "'e lmdb \<Rightarrow> bytes \<Rightarrow> bytes \<Rightarrow> nat \<Rightarrow> nat \<Rightarrow> 'e page_error + bytes list" where
  "lmdb_prefix_keys_after_bounded db pre after_key max_items max_bytes =
     reading db
       (if max_items = 0 then Inr []
        else with_cursor (db_range db (start_bound pre after_key, Unbounded))
               (\<lambda>items. keys_loop pre max_items max_bytes items [] 0))"

fun range_loop ::
  "bytes \<Rightarrow> nat \<Rightarrow> nat \<Rightarrow> ('e + row) list \<Rightarrow> row list \<Rightarrow> nat \<Rightarrow> 'e page_error + (row list \<times> bool \<times> nat)" where
  "range_loop pre item_cap byte_cap [] entries entry_bytes = Inr (entries, True, entry_bytes)"
| "range_loop pre item_cap byte_cap (Inl e # items) entries entry_bytes = Inl (PageStore e)"
| "range_loop pre item_cap byte_cap (Inr (key, val) # items) entries entry_bytes =
     (if \<not> prefix pre key then Inr (entries, True, entry_bytes)
      else if length entries \<ge> item_cap then Inr (entries, False, entry_bytes)
      else
        let row_bytes = saturating_add64 (length key) (length val) in
        if row_bytes > byte_cap \<and> entries = [] then Inl RangeEntryTooLarge
        else
          let next_bytes = saturating_add64 entry_bytes row_bytes in
          if next_bytes > byte_cap then Inr (entries, False, entry_bytes)
          else range_loop pre item_cap byte_cap items (entries @ [(key, val)]) next_bytes)"

definition lmdb_range_entries_bounded ::
  "'e lmdb \<Rightarrow> bytes \<Rightarrow> bytes \<Rightarrow> bytes \<Rightarrow> nat \<Rightarrow> nat \<Rightarrow> 'e page_error + (row list \<times> bool \<times> nat)" where
  "lmdb_range_entries_bounded db pre after_key before_key max_items max_bytes =
     reading db
       (with_cursor (db_range db (start_bound pre after_key, end_bound before_key))
          (\<lambda>items. range_loop pre max_items max_bytes items [] 0))"

section \<open>Composite ranges\<close>

record composite_row =
  cr_key :: bytes
  cr_entry :: decoded_entry
  cr_storage_bytes :: nat
  cr_query_row :: "bytes option"

record composite_page =
  cp_entries :: "composite_row list"
  cp_exhausted :: bool
  cp_scanned_bytes :: nat
  cp_query_row_bytes :: nat

fun composite_loop ::
  "(bytes \<Rightarrow> u32) \<Rightarrow> (bytes \<Rightarrow> bytes) \<Rightarrow> 'e lmdb \<Rightarrow> bool \<Rightarrow> bytes \<Rightarrow> bytes \<Rightarrow> nat \<Rightarrow> nat \<Rightarrow> nat
     \<Rightarrow> ('e + row) list \<Rightarrow> composite_page \<Rightarrow> 'e page_error + composite_page" where
  "composite_loop crc sha db include_rows pre state_key_prefix item_cap scan_cap query_cap [] page = Inr page"
| "composite_loop crc sha db include_rows pre state_key_prefix item_cap scan_cap query_cap (Inl e # items) page =
     Inl (PageStore e)"
| "composite_loop crc sha db include_rows pre state_key_prefix item_cap scan_cap query_cap (Inr (key, val) # items) page =
     (if \<not> prefix pre key then Inr page
      else if length (cp_entries page) \<ge> item_cap then Inr (page\<lparr>cp_exhausted := False\<rparr>)
      else
        let storage_bytes = saturating_add64 (length key) (length val) in
        if storage_bytes > scan_cap \<and> cp_entries page = [] then Inl RangeEntryTooLarge
        else if saturating_add64 (cp_scanned_bytes page) storage_bytes > scan_cap then
          Inr (page\<lparr>cp_exhausted := False\<rparr>)
        else
          (case decode_entry crc sha key val of
             None \<Rightarrow> Inl InvalidCompositeEntry
           | Some entry \<Rightarrow>
               if include_rows \<and> strip_prefix state_key_prefix (de_state_key entry) \<noteq> Some (de_id entry) then
                 Inl InvalidCompositeEntry
               else
                 (case (if include_rows then db_get db (physical_state_key sha (de_state_key entry)) else Inr None) of
                    Inl e \<Rightarrow> Inl (PageStore e)
                  | Inr query_row \<Rightarrow>
                      (case checked_add64 (cp_query_row_bytes page) (case query_row of None \<Rightarrow> 0 | Some row \<Rightarrow> length row) of
                         None \<Rightarrow> Inl BatchValueBudgetExceeded
                       | Some next_query_row_bytes \<Rightarrow>
                           if next_query_row_bytes > query_cap then
                             (if cp_entries page = [] then Inl BatchValueBudgetExceeded
                              else Inr (page\<lparr>cp_exhausted := False\<rparr>))
                           else
                             composite_loop crc sha db include_rows pre state_key_prefix item_cap scan_cap query_cap items
                               (page\<lparr>cp_entries := cp_entries page @
                                        [\<lparr>cr_key = key, cr_entry = entry, cr_storage_bytes = storage_bytes,
                                          cr_query_row = query_row\<rparr>],
                                     cp_scanned_bytes := saturating_add64 (cp_scanned_bytes page) storage_bytes,
                                     cp_query_row_bytes := next_query_row_bytes\<rparr>)))))"

definition empty_page :: composite_page where
  "empty_page = \<lparr>cp_entries = [], cp_exhausted = True, cp_scanned_bytes = 0, cp_query_row_bytes = 0\<rparr>"

definition lmdb_composite_range_bounded_impl ::
  "(bytes \<Rightarrow> u32) \<Rightarrow> (bytes \<Rightarrow> bytes) \<Rightarrow> bool \<Rightarrow> 'e lmdb \<Rightarrow> bytes \<Rightarrow> bytes \<Rightarrow> bytes \<Rightarrow> bytes \<Rightarrow> nat \<Rightarrow> nat \<Rightarrow> nat
     \<Rightarrow> 'e page_error + composite_page" where
  "lmdb_composite_range_bounded_impl crc sha include_rows db pre after_key before_key state_key_prefix
       max_items max_scan_bytes max_query_row_bytes =
     reading db
       (with_cursor (db_range db (start_bound pre after_key, end_bound before_key))
          (\<lambda>items. composite_loop crc sha db include_rows pre state_key_prefix max_items max_scan_bytes
                     max_query_row_bytes items empty_page))"

definition lmdb_composite_range_entries_bounded ::
  "(bytes \<Rightarrow> u32) \<Rightarrow> (bytes \<Rightarrow> bytes) \<Rightarrow> 'e lmdb \<Rightarrow> bytes \<Rightarrow> bytes \<Rightarrow> bytes \<Rightarrow> nat \<Rightarrow> nat \<Rightarrow> 'e page_error + composite_page" where
  "lmdb_composite_range_entries_bounded crc sha db pre after_key before_key max_items max_bytes =
     lmdb_composite_range_bounded_impl crc sha False db pre after_key before_key [] max_items max_bytes 0"

definition lmdb_composite_range_query_rows_bounded ::
  "(bytes \<Rightarrow> u32) \<Rightarrow> (bytes \<Rightarrow> bytes) \<Rightarrow> 'e lmdb \<Rightarrow> bytes \<Rightarrow> bytes \<Rightarrow> bytes \<Rightarrow> bytes \<Rightarrow> nat \<Rightarrow> nat \<Rightarrow> nat
     \<Rightarrow> 'e page_error + composite_page" where
  "lmdb_composite_range_query_rows_bounded crc sha db pre state_key_prefix after_key before_key
       max_items max_scan_bytes max_query_row_bytes =
     (if state_key_prefix = [] \<or> length state_key_prefix > LMDB_MAX_KEY_BYTES then Inl BadArg
      else lmdb_composite_range_bounded_impl crc sha True db pre after_key before_key state_key_prefix
             max_items max_scan_bytes max_query_row_bytes)"

section \<open>Multi-gets\<close>

definition MAX_KEYS :: nat where "MAX_KEYS = 4096"
definition MAX_KEY_BYTES :: nat where "MAX_KEY_BYTES = 8 * 1024 * 1024"

fun lmdb_get_many_loop :: "'e lmdb \<Rightarrow> bytes list \<Rightarrow> 'e page_error + bytes option list" where
  "lmdb_get_many_loop db [] = Inr []"
| "lmdb_get_many_loop db (key # keys) =
     (case db_get db key of
        Inl e \<Rightarrow> Inl (PageStore e)
      | Inr v \<Rightarrow> bind_res (lmdb_get_many_loop db keys) (\<lambda>vs. Inr (v # vs)))"

definition lmdb_get_many :: "'e lmdb \<Rightarrow> bytes list \<Rightarrow> 'e page_error + bytes option list" where
  "lmdb_get_many db keys = reading db (lmdb_get_many_loop db keys)"

fun key_budget :: "bytes list \<Rightarrow> nat \<Rightarrow> bool" where
  "key_budget [] key_bytes = True"
| "key_budget (key # keys) key_bytes =
     (case checked_add64 key_bytes (length key) of
        None \<Rightarrow> False
      | Some next_key_bytes \<Rightarrow> if next_key_bytes > MAX_KEY_BYTES then False else key_budget keys next_key_bytes)"

fun get_bounded_loop ::
  "'e lmdb \<Rightarrow> bool \<Rightarrow> nat \<Rightarrow> bytes list \<Rightarrow> bytes option list \<Rightarrow> nat \<Rightarrow> 'e page_error + (bytes option list \<times> nat \<times> bool)" where
  "get_bounded_loop db allow_prefix max_bytes [] values total_bytes = Inr (values, total_bytes, True)"
| "get_bounded_loop db allow_prefix max_bytes (key # keys) values total_bytes =
     (case db_get db key of
        Inl e \<Rightarrow> Inl (PageStore e)
      | Inr None \<Rightarrow> get_bounded_loop db allow_prefix max_bytes keys (values @ [None]) total_bytes
      | Inr (Some v) \<Rightarrow>
          (case checked_add64 total_bytes (length v) of
             None \<Rightarrow>
               if allow_prefix \<and> values \<noteq> [] then Inr (values, total_bytes, False) else Inl BatchValueBudgetExceeded
           | Some next_total \<Rightarrow>
               if next_total > max_bytes then
                 (if allow_prefix \<and> values \<noteq> [] then Inr (values, total_bytes, False) else Inl BatchValueBudgetExceeded)
               else get_bounded_loop db allow_prefix max_bytes keys (values @ [Some v]) next_total))"

definition lmdb_get_many_bounded_impl ::
  "'e lmdb \<Rightarrow> bytes list \<Rightarrow> nat \<Rightarrow> bool \<Rightarrow> 'e page_error + (bytes option list \<times> nat \<times> bool)" where
  "lmdb_get_many_bounded_impl db keys max_bytes allow_prefix =
     (if length keys > MAX_KEYS then Inl BatchKeyBudgetExceeded
      else if \<not> key_budget keys 0 then Inl BatchKeyBudgetExceeded
      else reading db (get_bounded_loop db allow_prefix max_bytes keys [] 0))"

section \<open>The rows a page is taken from\<close>

text \<open>The rows with a prefix strictly between two keys, where an empty key means no bound.\<close>

definition remaining :: "bytes \<Rightarrow> bytes \<Rightarrow> bytes \<Rightarrow> row list \<Rightarrow> row list" where
  "remaining pre after_key before_key rows =
     filter (\<lambda>r. prefix pre (fst r) \<and> (after_key = [] \<or> after_key < fst r) \<and> (before_key = [] \<or> fst r < before_key)) rows"

text \<open>As many rows from the front as fit both budgets.\<close>

fun fitting :: "nat \<Rightarrow> nat \<Rightarrow> (row \<Rightarrow> nat) \<Rightarrow> row list \<Rightarrow> row list" where
  "fitting items bytes sz [] = []"
| "fitting items bytes sz (r # rs) =
     (if items = 0 \<or> sz r > bytes then [] else r # fitting (items - 1) (bytes - sz r) sz rs)"

lemma fitting_prefix: "prefix (fitting n b sz rs) rs"
  by (induction rs arbitrary: n b) auto

lemma fitting_length: "length (fitting n b sz rs) \<le> n"
proof (induction rs arbitrary: n b)
  case (Cons r rs)
  show ?case using Cons.IH [of "n - 1" "b - sz r"] by (cases n) auto
qed simp

lemma fitting_bytes: "sum_list (map sz (fitting n b sz rs)) \<le> b"
proof (induction rs arbitrary: n b)
  case (Cons r rs)
  show ?case
  proof (cases "n = 0 \<or> sz r > b")
    case False
    with Cons.IH [of "n - 1" "b - sz r"] show ?thesis by simp linarith
  qed simp
qed simp

lemma prefix_le: "prefix p (k :: bytes) \<Longrightarrow> p \<le> k"
proof (induction p arbitrary: k)
  case (Cons a p)
  then obtain k' where "k = a # k'" "prefix p k'" by (cases k) auto
  with Cons.IH show ?case by simp
qed simp

lemma takeWhile_prefix:
  fixes rs :: "row list"
  assumes "sorted_wrt (<) (map fst rs)" "\<forall>r\<in>set rs. a \<le> fst r" "prefix p a"
  shows "takeWhile (\<lambda>r. prefix p (fst r)) rs = filter (\<lambda>r. prefix p (fst r)) rs"
  using assms(1,2)
proof (induction rs)
  case (Cons x rs)
  show ?case
  proof (cases "prefix p (fst x)")
    case False
    have "\<not> prefix p (fst y)" if "y \<in> set rs" for y
      using prefix_lex [OF assms(3), of "fst x" "fst y"] False that Cons.prems by (auto intro: less_imp_le)
    then show ?thesis using False by simp
  qed (use Cons in simp)
qed simp

lemma takeWhile_remaining:
  assumes "sorted_wrt (<) (map fst rows)" "after_key = [] \<or> prefix pre after_key"
  shows "takeWhile (\<lambda>r. prefix pre (fst r)) (between (start_bound pre after_key) (end_bound before_key) rows)
    = remaining pre after_key before_key rows"
proof -
  let ?b = "between (start_bound pre after_key) (end_bound before_key) rows"
  define a where "a = (if after_key = [] then pre else after_key)"
  have "prefix pre a" using assms(2) by (auto simp: a_def)
  moreover have "\<forall>r\<in>set ?b. a \<le> fst r" by (auto simp: between_def start_bound_def a_def)
  ultimately have "takeWhile (\<lambda>r. prefix pre (fst r)) ?b = filter (\<lambda>r. prefix pre (fst r)) ?b"
    using takeWhile_prefix [of ?b a pre] sorted_filter_rows [OF assms(1)] by (simp add: between_def)
  also have "\<dots> = remaining pre after_key before_key rows"
    unfolding between_def remaining_def filter_filter
    by (rule filter_cong) (auto simp: start_bound_def end_bound_def prefix_le)
  finally show ?thesis .
qed

lemma remaining_none: "with_prefix pre rows = remaining pre [] [] rows"
  by (simp add: with_prefix_def remaining_def)

text \<open>Resuming after a row of a page leaves exactly the rows behind it.\<close>

lemma remaining_resume:
  assumes "sorted_wrt (<) (map fst rows)" "remaining pre after_key before_key rows = xs @ r # ys" "fst r \<noteq> []"
  shows "remaining pre (fst r) before_key rows = ys"
proof -
  let ?rem = "remaining pre after_key before_key rows"
  have "sorted_wrt (<) (map fst (xs @ r # ys))"
    unfolding assms(2) [symmetric] remaining_def by (rule sorted_filter_rows [OF assms(1)])
  then have "filter (\<lambda>s. fst r < fst s) (xs @ r # ys) = ys" by (rule rows_after_sorted)
  moreover have "r \<in> set ?rem" using assms(2) by simp
  then have after: "after_key = [] \<or> after_key < fst r" by (simp add: remaining_def)
  have "(prefix pre (fst s) \<and> (after_key = [] \<or> after_key < fst s) \<and> (before_key = [] \<or> fst s < before_key))
        \<and> fst r < fst s \<longleftrightarrow>
      prefix pre (fst s) \<and> (fst r = [] \<or> fst r < fst s) \<and> (before_key = [] \<or> fst s < before_key)" for s :: row
    using after less_trans [of after_key "fst r" "fst s"] assms(3) by blast
  then have "filter (\<lambda>s. fst r < fst s) ?rem = remaining pre (fst r) before_key rows"
    unfolding remaining_def filter_filter by (simp only:)
  ultimately show ?thesis unfolding assms(2) by (simp only:)
qed

section \<open>Bounded loops take fitting rows\<close>

abbreviation has_prefix :: "bytes \<Rightarrow> row \<Rightarrow> bool" where
  "has_prefix pre r \<equiv> prefix pre (fst r)"

lemma range_loop_honest:
  "honest_items items rows \<Longrightarrow>
     (\<exists>e. range_loop pre cap bcap items es b = Inl (PageStore e))
     \<or> range_loop pre cap bcap items es b = range_loop pre cap bcap (map Inr rows) es b"
proof (induction items rows arbitrary: es b rule: honest_items.induct)
  case (3 r items rows)
  then obtain rs where "rows = r # rs" "honest_items items rs" by (cases rows) auto
  with 3 show ?case by (cases r) (simp add: Let_def)
qed auto

text \<open>Below the largest budget, saturating sums compare like exact ones.\<close>

lemma saturating_budget:
  assumes "bcap < U64_MAX"
  shows "saturating_add64 x y > bcap \<longleftrightarrow> x + y > bcap"
    and "\<not> x + y > bcap \<Longrightarrow> saturating_add64 x y = x + y"
    and "saturating_add64 b (saturating_add64 x y) > bcap \<longleftrightarrow> b + (x + y) > bcap"
    and "\<not> b + (x + y) > bcap \<Longrightarrow> saturating_add64 b (saturating_add64 x y) = b + (x + y)"
  using assms by (auto simp: saturating_add64_def)

lemma range_loop_rows:
  assumes "bcap < U64_MAX"
  shows "b \<le> bcap \<Longrightarrow> range_loop pre cap bcap (map Inr rows :: ('e + row) list) es b =
     (let rem = takeWhile (has_prefix pre) rows; fs = fitting (cap - length es) (bcap - b) row_size rem in
      if es = [] \<and> 0 < cap \<and> rem \<noteq> [] \<and> row_size (hd rem) > bcap then Inl RangeEntryTooLarge
      else Inr (es @ fs, fs = rem, b + sum_list (map row_size fs)))"
proof (induction rows arbitrary: es b)
  case (Cons r rows)
  obtain k v where r: "r = (k, v)" by force
  have sz: "length k + length v = row_size r" by (simp add: row_size_def r)
  note sat = saturating_budget(1) [OF assms, of "length k" "length v", unfolded sz]
    saturating_budget(3,4) [OF assms, of b "length k" "length v", unfolded sz]
  show ?case
  proof (cases "prefix pre k \<and> length es < cap \<and> b + row_size r \<le> bcap")
    case True
    then have "range_loop pre cap bcap (map Inr rows :: ('e + row) list) (es @ [r]) (b + row_size r) =
      (let rem = takeWhile (has_prefix pre) rows; fs = fitting (cap - Suc (length es)) (bcap - (b + row_size r)) row_size rem in
       Inr (es @ r # fs, fs = rem, b + row_size r + sum_list (map row_size fs)))"
      using Cons.IH [of "b + row_size r" "es @ [r]"] by (simp add: Let_def)
    with True sat show ?thesis by (auto simp: r Let_def)
  next
    case False
    with sat Cons.prems show ?thesis by (auto simp: r Let_def)
  qed
qed simp

lemma bounded_range_rows:
  "bounded_range_loop pre cap bcap (map Inr rows) es b = map_sum id fst (range_loop pre cap bcap (map Inr rows) es b)"
proof (induction rows arbitrary: es b)
  case (Cons r rows)
  then show ?case by (cases r) (simp add: Let_def)
qed simp

lemma bounded_prefix_rows:
  "list_all (has_prefix pre) rows \<Longrightarrow>
     bounded_prefix_loop cap bcap (map Inr rows) es b = bounded_range_loop pre cap bcap (map Inr rows) es b"
proof (induction rows arbitrary: es b)
  case (Cons r rows)
  then show ?case by (cases r) (simp add: Let_def)
qed simp

lemma bounded_loops_honest:
  assumes "honest_items items rows"
  shows "bounded_range_loop pre cap bcap items es b = Inr out \<Longrightarrow>
      bounded_range_loop pre cap bcap (map Inr rows) es b = Inr out"
    and "bounded_prefix_loop cap bcap items es b = Inr out \<Longrightarrow>
      bounded_prefix_loop cap bcap (map Inr rows) es b = Inr out"
  using assms
proof (induction items rows arbitrary: es b rule: honest_items.induct)
  case (2 e items rows)
  {
    case 1
    then show ?case by (cases rows) (auto split: if_splits)
  next
    case 2
    then show ?case by (cases rows) (auto split: if_splits)
  }
next
  case (3 r items rows)
  {
    case 1
    then obtain rs where "rows = r # rs" "honest_items items rs" by (cases rows) auto
    with 1 3 show ?case by (cases r) (auto simp: Let_def split: if_splits)
  next
    case 2
    then obtain rs where "rows = r # rs" "honest_items items rs" by (cases rows) auto
    with 2 3 show ?case by (cases r) (auto simp: Let_def split: if_splits)
  }
qed auto

lemma keys_loop_honest:
  "honest_items items rows \<Longrightarrow> keys_loop pre cap bcap items ks b = Inr out \<Longrightarrow>
     keys_loop pre cap bcap (map Inr rows) ks b = Inr out"
proof (induction items rows arbitrary: ks b rule: honest_items.induct)
  case (2 e items rows)
  then show ?case by (cases rows) (auto split: if_splits)
next
  case (3 r items rows)
  then obtain rs where "rows = r # rs" "honest_items items rs" by (cases rows) auto
  with 3 show ?case by (cases r) (auto simp: Let_def split: if_splits)
qed auto

lemma keys_loop_rows:
  assumes "bcap < U64_MAX"
  shows "b \<le> bcap \<Longrightarrow> keys_loop pre cap bcap (map Inr rows :: ('e + row) list) ks b =
     (let rem = takeWhile (has_prefix pre) rows; fs = fitting (cap - length ks) (bcap - b) (\<lambda>r. length (fst r)) rem in
      if ks = [] \<and> 0 < cap \<and> rem \<noteq> [] \<and> length (fst (hd rem)) > bcap then Inl RangeEntryTooLarge
      else Inr (ks @ map fst fs))"
proof (induction rows arbitrary: ks b)
  case (Cons r rows)
  obtain k v where r: "r = (k, v)" by force
  note sat = saturating_budget(1,2) [OF assms, of b "length k"]
  show ?case
  proof (cases "prefix pre k \<and> length ks < cap \<and> b + length k \<le> bcap")
    case True
    then have "keys_loop pre cap bcap (map Inr rows :: ('e + row) list) (ks @ [k]) (b + length k) =
      (let rem = takeWhile (has_prefix pre) rows; fs = fitting (cap - Suc (length ks)) (bcap - (b + length k)) (\<lambda>r. length (fst r)) rem in
       Inr (ks @ k # map fst fs))"
      using Cons.IH [of "b + length k" "ks @ [k]"] by (simp add: Let_def)
    with True sat show ?thesis by (auto simp: r Let_def)
  next
    case False
    with sat Cons.prems show ?thesis by (auto simp: r Let_def)
  qed
qed simp

section \<open>Pages tile the snapshot\<close>

lemma page_resume:
  assumes "serves db rows" "prefix es (remaining pre after_key before_key rows)" "es \<noteq> []"
  shows "remaining pre (fst (last es)) before_key rows = drop (length es) (remaining pre after_key before_key rows)"
proof -
  let ?rem = "remaining pre after_key before_key rows"
  obtain rest where rest: "?rem = es @ rest" using assms(2) by (auto simp: prefix_def)
  then have split: "?rem = butlast es @ last es # rest" using assms(3) by simp
  then have "last es \<in> set ?rem" by (simp only: set_append) simp
  then have "last es \<in> set rows" by (simp add: remaining_def)
  then have "fst (last es) \<noteq> []" by (rule serves_keys [OF assms(1)])
  from remaining_resume [OF serves_sorted [OF assms(1)] split this] rest show ?thesis by simp
qed

lemma reading_Inr: "reading db k = Inr x \<longleftrightarrow> is_ok (db_open db) \<and> is_ok (db_txn db) \<and> k = Inr x"
  by (auto simp: reading_def split: sum.splits)

lemma with_cursor_Inr: "with_cursor c k = Inr x \<longleftrightarrow> (\<exists>items. c = Inr items \<and> k items = Inr x)"
  by (auto simp: with_cursor_def split: sum.splits)

lemma fitting_nonempty: "0 < n \<Longrightarrow> rs \<noteq> [] \<Longrightarrow> sz (hd rs) \<le> b \<Longrightarrow> fitting n b sz rs \<noteq> []"
  by (cases rs) auto

lemma range_page:
  fixes db :: "'e lmdb"
  assumes "serves db rows" "after_key = [] \<or> prefix pre after_key" "max_bytes < U64_MAX"
    and "lmdb_range_entries_bounded db pre after_key before_key max_items max_bytes = Inr (es, exhausted, n)"
  defines "rem \<equiv> remaining pre after_key before_key rows"
  shows "es = fitting max_items max_bytes row_size rem" "exhausted \<longleftrightarrow> es = rem" "n = sum_list (map row_size es)"
    "0 < max_items \<Longrightarrow> rem \<noteq> [] \<Longrightarrow> es \<noteq> []"
proof -
  from assms(4) obtain items where it: "db_range db (start_bound pre after_key, end_bound before_key) = Inr items"
    and lp: "range_loop pre max_items max_bytes items [] 0 = Inr (es, exhausted, n)"
    by (auto simp: lmdb_range_entries_bounded_def reading_Inr with_cursor_Inr)
  note rows = takeWhile_remaining [OF serves_sorted [OF assms(1)] assms(2), of before_key, folded rem_def]
  from range_loop_honest [OF serves_range [OF assms(1) it], of pre max_items max_bytes "[]" 0] lp
  have "range_loop pre max_items max_bytes
      (map Inr (between (start_bound pre after_key) (end_bound before_key) rows) :: ('e + row) list) [] 0
    = Inr (es, exhausted, n)" by auto
  with range_loop_rows [where 'e = 'e, OF assms(3), of 0 pre max_items
      "between (start_bound pre after_key) (end_bound before_key) rows" "[]"] rows
  show "es = fitting max_items max_bytes row_size rem" "exhausted \<longleftrightarrow> es = rem" "n = sum_list (map row_size es)"
    "0 < max_items \<Longrightarrow> rem \<noteq> [] \<Longrightarrow> es \<noteq> []"
    using fitting_nonempty [of max_items rem row_size max_bytes] by (auto simp: Let_def split: if_splits)
qed

text \<open>C29. Ranges page through a snapshot without gap or overlap.  A page is exactly the longest run of
  the remaining rows that fits the row and byte budgets, its flag says exactly whether nothing
  remains, its byte count is exact, it is not empty while rows remain, and resuming after its
  last key leaves exactly the rows it did not return.\<close>

theorem range_page_exact:
  assumes "serves db rows" "after_key = [] \<or> prefix pre after_key" "0 < max_items" "max_bytes < U64_MAX"
    and "lmdb_range_entries_bounded db pre after_key before_key max_items max_bytes = Inr (es, exhausted, n)"
  defines "rem \<equiv> remaining pre after_key before_key rows"
  shows "es = fitting max_items max_bytes row_size rem \<and> n = sum_list (map row_size es)
    \<and> (exhausted \<longleftrightarrow> es = rem)
    \<and> (if es = [] then rem = [] else remaining pre (fst (last es)) before_key rows = drop (length es) rem)"
  using range_page [OF assms(1,2,4,5)] assms(3) page_resume [OF assms(1), of es pre after_key before_key]
    fitting_prefix [of max_items max_bytes row_size rem]
  unfolding rem_def by auto

lemma sample_rows_serve: "serves (ideal_lmdb [([1, 1], [5]), ([1, 2], [6]), ([2], [])]) [([1, 1], [5]), ([1, 2], [6]), ([2], [])]"
  by (rule ideal_serves) simp_all

lemma sample_range_page:
  "lmdb_range_entries_bounded (ideal_lmdb [([1, 1], [5]), ([1, 2], [6]), ([2], [])]) [1] [] [] 1 100
     = Inr ([([1, 1], [5])], False, 3)"
  by (simp add: lmdb_range_entries_bounded_def reading_def with_cursor_def ideal_lmdb_def between_def start_bound_def
      end_bound_def saturating_add64_def U64_MAX_def)

theorem range_page_exact_witness:
  "remaining [1] [1, 1] [] [([1, 1], [5]), ([1, 2], [6]), ([2], [])] = [([1, 2], [6])]"
  using range_page_exact [OF sample_rows_serve _ _ _ sample_range_page]
  by (simp add: U64_MAX_def remaining_def)

text \<open>C30. The key-only page follows the same contract with the byte budget counted over keys alone.\<close>

theorem keys_page_exact:
  fixes db :: "'e lmdb"
  assumes "serves db rows" "after_key = [] \<or> prefix pre after_key" "max_bytes < U64_MAX"
    and "lmdb_prefix_keys_after_bounded db pre after_key max_items max_bytes = Inr ks"
  defines "rem \<equiv> remaining pre after_key [] rows"
  shows "ks = map fst (fitting max_items max_bytes (\<lambda>r. length (fst r)) rem)
    \<and> (if 0 < max_items \<and> rem \<noteq> []
       then ks \<noteq> [] \<and> remaining pre (last ks) [] rows = drop (length ks) rem else ks = [])"
proof (cases "max_items = 0")
  case True
  then have "ks = []" using assms(4) by (simp add: lmdb_prefix_keys_after_bounded_def reading_Inr)
  with True show ?thesis by (cases rem) auto
next
  case False
  let ?fs = "fitting max_items max_bytes (\<lambda>r. length (fst r)) rem"
  let ?b = "between (start_bound pre after_key) (end_bound []) rows"
  from assms(4) False obtain items where it: "db_range db (start_bound pre after_key, Unbounded) = Inr items"
    and lp: "keys_loop pre max_items max_bytes items [] 0 = Inr ks"
    by (auto simp: lmdb_prefix_keys_after_bounded_def reading_Inr with_cursor_Inr)
  have rows: "takeWhile (has_prefix pre) ?b = rem"
    unfolding rem_def by (rule takeWhile_remaining [OF serves_sorted [OF assms(1)] assms(2)])
  have "keys_loop pre max_items max_bytes (map Inr ?b :: ('e + row) list) [] 0 = Inr ks"
    using keys_loop_honest [OF serves_range [OF assms(1) it] lp] by (simp add: end_bound_def)
  with keys_loop_rows [where 'e = 'e, OF assms(3), of 0 pre max_items ?b "[]"] rows False
  have ks: "ks = map fst ?fs" and ne: "rem \<noteq> [] \<Longrightarrow> ?fs \<noteq> []"
    using fitting_nonempty [of max_items rem "\<lambda>r. length (fst r)" max_bytes] by (auto simp: Let_def split: if_splits)
  have "remaining pre (last ks) [] rows = drop (length ks) rem" if "rem \<noteq> []"
    using page_resume [OF assms(1) fitting_prefix [of max_items max_bytes "\<lambda>r. length (fst r)" rem, unfolded rem_def]] ne [OF that]
    by (simp add: ks last_map rem_def)
  with ks ne False show ?thesis by auto
qed

lemma sample_keys_page:
  "lmdb_prefix_keys_after_bounded (ideal_lmdb [([1, 1], [5]), ([1, 2], [6]), ([2], [])]) [1] [1, 1] 5 100 = Inr [[1, 2]]"
  by (simp add: lmdb_prefix_keys_after_bounded_def reading_def with_cursor_def ideal_lmdb_def between_def start_bound_def
      saturating_add64_def U64_MAX_def)

theorem keys_page_exact_witness:
  "remaining [1] [1, 2] [] [([1, 1], [5]), ([1, 2], [6]), ([2], [])] = []"
  using keys_page_exact [OF sample_rows_serve _ _ sample_keys_page]
  by (simp add: U64_MAX_def remaining_def)

section \<open>Unbounded pages and reverse pages\<close>

lemma collect_honest: "honest_items items rows \<Longrightarrow> collect items es = Inr out \<Longrightarrow> out = es @ rows"
proof (induction items rows arbitrary: es rule: honest_items.induct)
  case (3 r items rows)
  then obtain rs where "rows = r # rs" "honest_items items rs" by (cases rows) auto
  with "3.IH" [of "es @ [r]"] "3.prems"(2) show ?case by simp
qed auto

lemma entries_loop_honest:
  "honest_items items rows \<Longrightarrow> entries_loop pre limit items es = Inr out \<Longrightarrow>
     out = es @ take (limit - length es) (takeWhile (has_prefix pre) rows)"
proof (induction items rows arbitrary: es rule: honest_items.induct)
  case (2 e items rows)
  then show ?case by (auto split: if_splits)
next
  case (3 r items rows)
  then obtain rs where rs: "rows = r # rs" "honest_items items rs" by (cases rows) auto
  obtain k v where r: "r = (k, v)" by force
  show ?case
  proof (cases "length es < limit \<and> prefix pre k")
    case True
    with "3.prems"(2) r have "entries_loop pre limit items (es @ [r]) = Inr out" by simp
    from "3.IH" [of "es @ [r]"] rs this True r show ?thesis by (simp add: take_Cons')
  next
    case False
    then show ?thesis using "3.prems"(2) rs r by (auto split: if_splits)
  qed
qed (simp split: if_splits)

lemma collect_take: "honest_items items rows \<Longrightarrow> collect (take n items) [] = Inr out \<Longrightarrow> out = take n rows"
  using collect_honest [OF honest_items_take] by fastforce

lemma takeWhile_prefix_rev:
  fixes rs :: "row list"
  assumes "sorted_wrt (<) (map fst rs)" "\<forall>r\<in>set rs. fst r \<le> a" "prefix p a"
  shows "takeWhile (has_prefix p) (rev rs) = filter (has_prefix p) (rev rs)"
  using assms(1,2)
proof (induction rs rule: rev_induct)
  case (snoc x rs)
  have srt: "sorted_wrt (<) (map fst rs)" and lt: "\<forall>y\<in>set rs. fst y < fst x" and le: "fst x \<le> a"
    using snoc.prems by (auto simp: sorted_wrt_append)
  show ?case
  proof (cases "prefix p (fst x)")
    case False
    have "\<not> prefix p (fst y)" if "y \<in> set rs" for y
      using prefix_lex [of p "fst y" "fst x" a] False that lt le assms(3) less_imp_le by blast
    then show ?thesis using False by simp
  next
    case True
    moreover have "\<forall>r\<in>set rs. fst r \<le> a" using lt le less_imp_le order_trans by blast
    ultimately show ?thesis using snoc.IH [OF srt] by simp
  qed
qed simp

lemma takeWhile_remaining_rev:
  assumes "sorted_wrt (<) (map fst rows)" "prefix pre before_key" "before_key \<noteq> []"
  shows "takeWhile (has_prefix pre) (rev (between Unbounded (Excluded before_key) rows)) = rev (remaining pre [] before_key rows)"
proof -
  let ?b = "between Unbounded (Excluded before_key) rows"
  have below: "\<forall>r\<in>set ?b. fst r \<le> before_key" by (auto simp: between_def)
  have "sorted_wrt (<) (map fst ?b)" unfolding between_def by (rule sorted_filter_rows [OF assms(1)])
  then have "takeWhile (has_prefix pre) (rev ?b) = filter (has_prefix pre) (rev ?b)"
    using takeWhile_prefix_rev [OF _ below assms(2)] by simp
  also have "\<dots> = rev (remaining pre [] before_key rows)"
    using assms(3) by (simp add: rev_filter between_def remaining_def conj_commute)
  finally show ?thesis .
qed

lemma entries_after_page:
  assumes "serves db rows" "after_key = [] \<or> prefix pre after_key"
    and "lmdb_prefix_entries_after db pre after_key limit = Inr es"
  shows "es = take limit (remaining pre after_key [] rows)"
proof (cases "after_key = []")
  case True
  with assms(3) obtain items where it: "db_prefix_iter db pre = Inr items" "collect (take limit items) [] = Inr es"
    by (auto simp: lmdb_prefix_entries_after_def reading_Inr with_cursor_Inr)
  from collect_take [OF serves_prefix [OF assms(1) it(1)] it(2)] True show ?thesis by (simp add: remaining_none)
next
  case False
  with assms(3) obtain items where it: "db_range db (Excluded after_key, Unbounded) = Inr items"
    "entries_loop pre limit items [] = Inr es"
    by (auto simp: lmdb_prefix_entries_after_def reading_Inr with_cursor_Inr)
  from entries_loop_honest [OF serves_range [OF assms(1) it(1)] it(2)]
    takeWhile_remaining [OF serves_sorted [OF assms(1)] assms(2), of "[]"] False
  show ?thesis by (simp add: start_bound_def end_bound_def)
qed

lemma entries_before_page:
  assumes "serves db rows" "before_key = [] \<or> prefix pre before_key"
    and "lmdb_prefix_entries_reverse_before db pre before_key limit = Inr es"
  shows "es = take limit (rev (remaining pre [] before_key rows))"
proof (cases "before_key = []")
  case True
  with assms(3) obtain items where it: "db_rev_prefix_iter db pre = Inr items" "collect (take limit items) [] = Inr es"
    by (auto simp: lmdb_prefix_entries_reverse_before_def reading_Inr with_cursor_Inr)
  from collect_take [OF serves_rev_prefix [OF assms(1) it(1)] it(2)] True show ?thesis by (simp add: remaining_none)
next
  case False
  with assms(3) obtain items where it: "db_rev_range db (Unbounded, Excluded before_key) = Inr items"
    "entries_loop pre limit items [] = Inr es"
    by (auto simp: lmdb_prefix_entries_reverse_before_def reading_Inr with_cursor_Inr)
  from entries_loop_honest [OF serves_rev_range [OF assms(1) it(1)] it(2)]
    takeWhile_remaining_rev [OF serves_sorted [OF assms(1)] _ False] assms(2) False
  show ?thesis by simp
qed


lemma sample_listings:
  "lmdb_prefix_entries_after (ideal_lmdb [([1, 1], [5]), ([1, 2], [6]), ([2], [])]) [1] [1, 1, 9] 7 = Inr [([1, 2], [6])]"
  "lmdb_prefix_entries_reverse_before (ideal_lmdb [([1, 1], [5]), ([1, 2], [6]), ([2], [])]) [1] [1, 1, 9] 7 = Inr [([1, 1], [5])]"
  by (simp_all add: lmdb_prefix_entries_after_def lmdb_prefix_entries_reverse_before_def reading_def with_cursor_def
      ideal_lmdb_def between_def)


section \<open>Composite pages\<close>

definition joins :: "(bytes \<Rightarrow> u32) \<Rightarrow> (bytes \<Rightarrow> bytes) \<Rightarrow> row list \<Rightarrow> bool \<Rightarrow> bytes \<Rightarrow> row \<Rightarrow> composite_row \<Rightarrow> bool" where
  "joins crc sha rows include_rows state_key_prefix r c \<longleftrightarrow>
     cr_key c = fst r \<and> decode_entry crc sha (fst r) (snd r) = Some (cr_entry c) \<and> cr_storage_bytes c = row_size r
     \<and> (if include_rows then de_state_key (cr_entry c) = state_key_prefix @ de_id (cr_entry c)
          \<and> cr_query_row c = map_of rows (physical_state_key sha (de_state_key (cr_entry c)))
        else cr_query_row c = None)"

definition query_size :: "composite_row \<Rightarrow> nat" where
  "query_size c = (case cr_query_row c of None \<Rightarrow> 0 | Some row \<Rightarrow> length row)"

definition page_ok ::
  "(bytes \<Rightarrow> u32) \<Rightarrow> (bytes \<Rightarrow> bytes) \<Rightarrow> row list \<Rightarrow> bool \<Rightarrow> bytes \<Rightarrow> nat \<Rightarrow> nat \<Rightarrow> nat \<Rightarrow> row list \<Rightarrow> composite_page \<Rightarrow> bool" where
  "page_ok crc sha rows include_rows skp item_cap scan_cap query_cap rs page \<longleftrightarrow>
     list_all2 (joins crc sha rows include_rows skp) rs (cp_entries page)
     \<and> length rs \<le> item_cap \<and> cp_scanned_bytes page = sum_list (map row_size rs) \<and> cp_scanned_bytes page \<le> scan_cap
     \<and> cp_query_row_bytes page = sum_list (map query_size (cp_entries page)) \<and> cp_query_row_bytes page \<le> query_cap"

lemma page_ok_snoc:
  assumes "page_ok crc sha rows inc skp icap scap qcap rs page" "joins crc sha rows inc skp r c"
    and "length rs < icap" "cp_scanned_bytes page + row_size r \<le> scap" "cp_query_row_bytes page + query_size c \<le> qcap"
  shows "page_ok crc sha rows inc skp icap scap qcap (rs @ [r])
     (page\<lparr>cp_entries := cp_entries page @ [c], cp_scanned_bytes := cp_scanned_bytes page + row_size r,
           cp_query_row_bytes := cp_query_row_bytes page + query_size c\<rparr>)"
  using assms by (simp add: page_ok_def list_all2_appendI)

lemma page_ok_flag [simp]:
  "page_ok crc sha rows inc skp icap scap qcap rs (page\<lparr>cp_exhausted := b\<rparr>) = page_ok crc sha rows inc skp icap scap qcap rs page"
  by (simp add: page_ok_def)

lemma strip_prefix_Some: "strip_prefix p bs = Some r \<longleftrightarrow> bs = p @ r"
  by (auto simp: strip_prefix_def prefix_def)

lemma composite_step:
  assumes "serves db rows" "scap < U64_MAX"
    and run: "composite_loop crc sha db inc pre skp icap scap qcap (Inr (k, v) # items) page = Inr out"
  obtains (stop) "\<not> prefix pre k" "out = page"
    | (full) "prefix pre k" "out = page\<lparr>cp_exhausted := False\<rparr>"
    | (row) c where "prefix pre k" "length (cp_entries page) < icap" "cp_scanned_bytes page + row_size (k, v) \<le> scap"
        "cp_query_row_bytes page + query_size c \<le> qcap" "joins crc sha rows inc skp (k, v) c"
        "composite_loop crc sha db inc pre skp icap scap qcap items
           (page\<lparr>cp_entries := cp_entries page @ [c], cp_scanned_bytes := cp_scanned_bytes page + row_size (k, v),
                 cp_query_row_bytes := cp_query_row_bytes page + query_size c\<rparr>) = Inr out"
proof -
  let ?sz = "saturating_add64 (length k) (length v)" and ?b = "cp_scanned_bytes page"
  have sz: "length k + length v = row_size (k, v)" by (simp add: row_size_def)
  note sat = saturating_budget [OF assms(2)]
  consider "\<not> prefix pre k" | "prefix pre k" "length (cp_entries page) \<ge> icap \<or> saturating_add64 ?b ?sz > scap"
    | "prefix pre k" "length (cp_entries page) < icap" "\<not> saturating_add64 ?b ?sz > scap" by fastforce
  then show thesis
  proof cases
    case 1
    then show thesis using run stop by simp
  next
    case 2
    then show thesis using run full by (auto simp: Let_def split: if_splits)
  next
    case 3
    have fit: "?b + row_size (k, v) \<le> scap" "saturating_add64 ?b ?sz = ?b + row_size (k, v)" "?sz = row_size (k, v)"
      "\<not> ?sz > scap"
      using 3(3) sat(1) [of "length k" "length v"] sat(2) [of "length k" "length v"]
        sat(3,4) [of ?b "length k" "length v"] unfolding sz by auto
    obtain entry where de: "decode_entry crc sha k v = Some entry"
      using run 3 fit by (cases "decode_entry crc sha k v") (auto simp: Let_def)
    define query where "query = (if inc then db_get db (physical_state_key sha (de_state_key entry)) else Inr None)"
    have owns: "inc \<Longrightarrow> de_state_key entry = skp @ de_id entry"
      using run 3 fit de by (auto simp: Let_def strip_prefix_Some split: if_splits)
    obtain q where q: "query = Inr q"
      using run 3 fit de owns unfolding query_def
      by (cases "db_get db (physical_state_key sha (de_state_key entry))") (auto simp: Let_def strip_prefix_Some split: if_splits)
    define c where "c = \<lparr>cr_key = k, cr_entry = entry, cr_storage_bytes = row_size (k, v), cr_query_row = q\<rparr>"
    have "q = (if inc then map_of rows (physical_state_key sha (de_state_key entry)) else None)"
      using q serves_get [OF assms(1)] by (auto simp: query_def split: if_splits)
    then have j: "joins crc sha rows inc skp (k, v) c" using de owns by (auto simp: joins_def c_def)
    have nb: "(inc \<and> strip_prefix skp (de_state_key entry) \<noteq> Some (de_id entry)) = False"
      using owns by (auto simp: strip_prefix_Some)
    note qq = q [unfolded query_def]
    have "composite_loop crc sha db inc pre skp icap scap qcap (Inr (k, v) # items) page =
      (case checked_add64 (cp_query_row_bytes page) (query_size c) of
        None \<Rightarrow> Inl BatchValueBudgetExceeded
      | Some n \<Rightarrow> if n > qcap then (if cp_entries page = [] then Inl BatchValueBudgetExceeded else Inr (page\<lparr>cp_exhausted := False\<rparr>))
          else composite_loop crc sha db inc pre skp icap scap qcap items
            (page\<lparr>cp_entries := cp_entries page @ [c], cp_scanned_bytes := ?b + row_size (k, v), cp_query_row_bytes := n\<rparr>))"
      using 3 fit by (simp add: Let_def de nb qq c_def query_size_def cong: option.case_cong if_cong split del: if_split)
    with run have "(case checked_add64 (cp_query_row_bytes page) (query_size c) of
        None \<Rightarrow> Inl BatchValueBudgetExceeded
      | Some n \<Rightarrow> if n > qcap then (if cp_entries page = [] then Inl BatchValueBudgetExceeded else Inr (page\<lparr>cp_exhausted := False\<rparr>))
          else composite_loop crc sha db inc pre skp icap scap qcap items
            (page\<lparr>cp_entries := cp_entries page @ [c], cp_scanned_bytes := ?b + row_size (k, v), cp_query_row_bytes := n\<rparr>)) = Inr out"
      by simp
    then show thesis
      using full [OF 3(1)] row [OF 3(1,2) fit(1) _ j]
      by (auto simp: checked_add64_Some not_less split: option.splits if_splits)
  qed
qed

lemma composite_loop_ok:
  assumes "serves db rows" "scap < U64_MAX"
  shows "honest_items items rs \<Longrightarrow> composite_loop crc sha db inc pre skp icap scap qcap items page = Inr out \<Longrightarrow>
     page_ok crc sha rows inc skp icap scap qcap xs page \<Longrightarrow> cp_exhausted page \<Longrightarrow>
     \<exists>k. k \<le> length (takeWhile (has_prefix pre) rs) \<and>
       page_ok crc sha rows inc skp icap scap qcap (xs @ take k (takeWhile (has_prefix pre) rs)) out \<and>
       (cp_exhausted out \<longleftrightarrow> k = length (takeWhile (has_prefix pre) rs))"
proof (induction items rs arbitrary: page xs rule: honest_items.induct)
  case (1 rs)
  then show ?case by auto
next
  case (2 e items rs)
  then show ?case by simp
next
  case (3 r items rs)
  obtain k v where r: "r = (k, v)" by force
  from "3.prems"(1) obtain rs' where rs: "rs = (k, v) # rs'" and hon: "honest_items items rs'"
    unfolding r by (cases rs) auto
  from assms "3.prems"(2) [unfolded r] show ?case
  proof (cases rule: composite_step)
    case stop
    then show ?thesis using "3.prems"(3,4) rs by (intro exI [of _ 0]) simp
  next
    case full
    then show ?thesis using "3.prems"(3) rs by (intro exI [of _ 0]) simp
  next
    case (row c)
    let ?p = "page\<lparr>cp_entries := cp_entries page @ [c], cp_scanned_bytes := cp_scanned_bytes page + row_size (k, v),
                 cp_query_row_bytes := cp_query_row_bytes page + query_size c\<rparr>"
    have len: "length xs < icap"
      using row(2) "3.prems"(3) list_all2_lengthD by (fastforce simp: page_ok_def)
    have "page_ok crc sha rows inc skp icap scap qcap (xs @ [(k, v)]) ?p"
      by (rule page_ok_snoc [OF "3.prems"(3) row(5) len row(3,4)])
    with "3.IH" [of ?p "xs @ [(k, v)]"] hon row(6) "3.prems"(4) rs
    obtain n where n: "n \<le> length (takeWhile (has_prefix pre) rs')"
      "page_ok crc sha rows inc skp icap scap qcap ((xs @ [(k, v)]) @ take n (takeWhile (has_prefix pre) rs')) out"
      "cp_exhausted out \<longleftrightarrow> n = length (takeWhile (has_prefix pre) rs')" by auto
    with row(1) rs show ?thesis by (intro exI [of _ "Suc n"]) simp
  qed
qed

text \<open>C28. A composite-index page joins exactly what it claims.  Every returned row is a valid entry of
  a consecutive run of the remaining index rows, starting at the cursor; with query rows, the
  state key is the requested prefix followed by the entry's own identifier, and the query row is
  the snapshot's current value of that state key's physical key.  Row, scan-byte and query-byte
  budgets hold with exact counts, and the page says it is exhausted exactly when no index row
  remains.\<close>

theorem composite_page_exact:
  assumes "serves db rows" "after_key = [] \<or> prefix pre after_key" "max_scan < U64_MAX"
    and "lmdb_composite_range_bounded_impl crc sha include_rows db pre after_key before_key skp max_items max_scan max_query = Inr page"
  shows "\<exists>k. k \<le> length (remaining pre after_key before_key rows)
    \<and> page_ok crc sha rows include_rows skp max_items max_scan max_query (take k (remaining pre after_key before_key rows)) page
    \<and> (cp_exhausted page \<longleftrightarrow> k = length (remaining pre after_key before_key rows))"
proof -
  let ?b = "between (start_bound pre after_key) (end_bound before_key) rows"
  from assms(4) obtain items where it: "db_range db (start_bound pre after_key, end_bound before_key) = Inr items"
    and lp: "composite_loop crc sha db include_rows pre skp max_items max_scan max_query items empty_page = Inr page"
    by (auto simp: lmdb_composite_range_bounded_impl_def reading_Inr with_cursor_Inr)
  have "page_ok crc sha rows include_rows skp max_items max_scan max_query [] empty_page" "cp_exhausted empty_page"
    by (simp_all add: page_ok_def empty_page_def)
  from composite_loop_ok [OF assms(1,3) serves_range [OF assms(1) it] lp this]
  show ?thesis using takeWhile_remaining [OF serves_sorted [OF assms(1)] assms(2), of before_key] by simp
qed

definition sample_index :: "row list" where
  "sample_index = [(5 # 96 # replicate 32 1, entry_value (\<lambda>b. 7) sample_entry), (as_bytes ''f:{f}:s:a'', [4])]"

lemma sample_index_serves: "serves (ideal_lmdb sample_index) sample_index"
  by (rule ideal_serves) (simp_all add: sample_index_def as_bytes_def)

lemma sample_page_run:
  "composite_loop (\<lambda>b. 7) (\<lambda>x. replicate 32 1) (ideal_lmdb sample_index) True [5] (as_bytes ''f:{f}:s:'') 10 1000 100
     (map Inr sample_index) empty_page =
   Inr \<lparr>cp_entries = [\<lparr>cr_key = 5 # 96 # replicate 32 1, cr_entry = sample_entry, cr_storage_bytes = 69, cr_query_row = Some [4]\<rparr>],
        cp_exhausted = True, cp_scanned_bytes = 69, cp_query_row_bytes = 1\<rparr>"
proof -
  have len: "length (entry_value (\<lambda>b. 7) sample_entry) = 35"
    by (simp add: entry_value_def sample_entry_def checked_value_def plain_body_def as_bytes_def)
  have sk: "de_state_key sample_entry = as_bytes ''f:{f}:s:'' @ de_id sample_entry"
    by (simp add: sample_entry_def as_bytes_def)
  have get: "db_get (ideal_lmdb sample_index) (physical_state_key (\<lambda>x. replicate 32 1) (de_state_key sample_entry)) = Inr (Some [4])"
    by (simp add: ideal_lmdb_def sample_index_def physical_state_key_def sample_entry_def MAX_DIRECT_STATE_KEY_BYTES_def as_bytes_def)
  have "strip_prefix (as_bytes ''f:{f}:s:'') (de_state_key sample_entry) = Some (de_id sample_entry)"
    by (simp add: strip_prefix_Some sk)
  moreover have "\<not> prefix [5] (as_bytes ''f:{f}:s:a'')" by (simp add: as_bytes_def)
  moreover have "map Inr sample_index = [Inr (5 # 96 # replicate 32 1, entry_value (\<lambda>b. 7) sample_entry),
      Inr (as_bytes ''f:{f}:s:a'', [4]) :: unit + row]"
    by (simp add: sample_index_def)
  ultimately show ?thesis
    using get len sample_decode
    by (simp add: saturating_add64_def U64_MAX_def empty_page_def checked_add64_def)
qed

theorem composite_page_exact_witness:
  "\<exists>page k. lmdb_composite_range_bounded_impl (\<lambda>b. 7) (\<lambda>x. replicate 32 1) True (ideal_lmdb sample_index)
       [5] [] [] (as_bytes ''f:{f}:s:'') 10 1000 100 = Inr page
     \<and> map cr_query_row (cp_entries page) = [Some [4]]
     \<and> page_ok (\<lambda>b. 7) (\<lambda>x. replicate 32 1) sample_index True (as_bytes ''f:{f}:s:'') 10 1000 100
         (take k (remaining [5] [] [] sample_index)) page"
proof -
  let ?db = "ideal_lmdb sample_index"
  have "db_range ?db (start_bound [5] [], end_bound []) = Inr (map Inr sample_index)"
    by (simp add: ideal_lmdb_def start_bound_def end_bound_def between_def sample_index_def as_bytes_def)
  moreover have "is_ok (db_open ?db)" "is_ok (db_txn ?db)" by (simp_all add: ideal_lmdb_def)
  ultimately obtain page where run: "lmdb_composite_range_bounded_impl (\<lambda>b. 7) (\<lambda>x. replicate 32 1) True ?db
       [5] [] [] (as_bytes ''f:{f}:s:'') 10 1000 100 = Inr page" and "map cr_query_row (cp_entries page) = [Some [4]]"
    by (simp add: lmdb_composite_range_bounded_impl_def reading_Inr with_cursor_Inr sample_page_run)
  then show ?thesis
    using composite_page_exact [OF sample_index_serves _ _ run] by (auto simp: U64_MAX_def)
qed

end
