(* ===== verification/Lmdb_Batch.thy ===== *)
theory Lmdb_Batch
  imports Lmdb "HOL-Library.Multiset"
begin

text \<open>
  The write NIFs over LMDB (\<^verbatim>\<open>sections/part_04.rs\<close>): \<^verbatim>\<open>lmdb_write_batch_impl\<close>, which runs a list
  of puts, deletes and comparisons in one write transaction, and its callers
  \<^verbatim>\<open>lmdb_put\<close>, \<^verbatim>\<open>lmdb_delete\<close>, \<^verbatim>\<open>lmdb_write_batch\<close>, \<^verbatim>\<open>lmdb_write_batch_with_originals\<close> and \<^verbatim>\<open>lmdb_clear\<close>.

  LMDB's write transactions are a parameter: a record of calls over an environment \<open>'s\<close> and a
  transaction \<open>'t\<close>, each of which may fail.  \<open>transacts\<close> is their documented behaviour: a
  transaction starts from the committed contents and sees its own writes, a successful commit
  publishes them, and a failed one, like a transaction that is dropped, publishes nothing.

  The specification is a batch run on a finite map in the order it was submitted, although
  the code sorts batches whose keys are all different.
\<close>

section \<open>The parameter\<close>

record ('s, 't, 'e) lmdb_rw =
  rw_open :: "'s \<Rightarrow> 'e + unit"
  rw_begin :: "'s \<Rightarrow> 'e + 't"
  rw_get :: "'t \<Rightarrow> bytes \<Rightarrow> 'e + bytes option"
  rw_put :: "'t \<Rightarrow> bytes \<Rightarrow> bytes \<Rightarrow> 'e + 't"
  rw_delete :: "'t \<Rightarrow> bytes \<Rightarrow> 'e + 't"
  rw_clear :: "'t \<Rightarrow> 'e + 't"
  rw_commit :: "'s \<Rightarrow> 't \<Rightarrow> ('e + unit) \<times> 's"

type_synonym contents = "bytes \<rightharpoonup> bytes"

definition transacts :: "('s, 't, 'e) lmdb_rw \<Rightarrow> ('s \<Rightarrow> contents) \<Rightarrow> ('t \<Rightarrow> contents) \<Rightarrow> bool" where
  "transacts db committed pending \<longleftrightarrow>
     (\<forall>s t. rw_begin db s = Inr t \<longrightarrow> pending t = committed s)
     \<and> (\<forall>t k v. rw_get db t k = Inr v \<longrightarrow> v = pending t k)
     \<and> (\<forall>t k v t'. rw_put db t k v = Inr t' \<longrightarrow> pending t' = (pending t)(k \<mapsto> v))
     \<and> (\<forall>t k t'. rw_delete db t k = Inr t' \<longrightarrow> pending t' = (pending t)(k := None))
     \<and> (\<forall>t t'. rw_clear db t = Inr t' \<longrightarrow> pending t' = Map.empty)
     \<and> (\<forall>s t r s'. rw_commit db s t = (r, s') \<longrightarrow>
          committed s' = (case r of Inl _ \<Rightarrow> committed s | Inr _ \<Rightarrow> pending t))"

lemma transactsD:
  assumes "transacts db committed pending"
  shows transacts_begin: "rw_begin db s = Inr t \<Longrightarrow> pending t = committed s"
    and transacts_get: "rw_get db t k = Inr v \<Longrightarrow> v = pending t k"
    and transacts_put: "rw_put db t k x = Inr t' \<Longrightarrow> pending t' = (pending t)(k \<mapsto> x)"
    and transacts_delete: "rw_delete db t k = Inr t' \<Longrightarrow> pending t' = (pending t)(k := None)"
    and transacts_clear: "rw_clear db t = Inr t' \<Longrightarrow> pending t' = Map.empty"
    and transacts_commit: "rw_commit db s t = (Inr u, s') \<Longrightarrow> committed s' = pending t"
    and transacts_commit_failed: "rw_commit db s t = (Inl e, s') \<Longrightarrow> committed s' = committed s"
  using assms unfolding transacts_def by (blast, blast, blast, blast, blast, force, force)

section \<open>The batch\<close>

datatype lmdb_batch_write =
    Put bytes bytes
  | PutNew bytes bytes
  | Delete bytes
  | Compare bytes bytes
  | CompareAny bytes "bytes list"
  | CompareMissing bytes

datatype 'e batch_error = BatchStore 'e | CompareFailed bytes

fun lmdb_record_key :: "lmdb_batch_write \<Rightarrow> bytes" where
  "lmdb_record_key (Put key _) = key"
| "lmdb_record_key (PutNew key _) = key"
| "lmdb_record_key (Delete key) = key"
| "lmdb_record_key (Compare key _) = key"
| "lmdb_record_key (CompareAny key _) = key"
| "lmdb_record_key (CompareMissing key) = key"

fun keys_unseen :: "bytes set \<Rightarrow> lmdb_batch_write list \<Rightarrow> bool" where
  "keys_unseen seen [] = True"
| "keys_unseen seen (record # records) =
     (if lmdb_record_key record \<in> seen then False
      else keys_unseen (insert (lmdb_record_key record) seen) records)"

definition lmdb_record_keys_are_unique :: "lmdb_batch_write list \<Rightarrow> bool" where
  "lmdb_record_keys_are_unique records = keys_unseen {} records"

definition store_result :: "'e + 'a \<Rightarrow> 'e batch_error + 'a" where
  "store_result r = (case r of Inl e \<Rightarrow> Inl (BatchStore e) | Inr x \<Rightarrow> Inr x)"

fun run_record :: "('s, 't, 'e) lmdb_rw \<Rightarrow> lmdb_batch_write \<Rightarrow> 't \<Rightarrow> 'e batch_error + 't" where
  "run_record db (Put key val) t = store_result (rw_put db t key val)"
| "run_record db (PutNew key val) t =
     bind_res (store_result (rw_get db t key)) (\<lambda>current. case current of
       Some _ \<Rightarrow> Inr t
     | None \<Rightarrow> store_result (rw_put db t key val))"
| "run_record db (Delete key) t = store_result (rw_delete db t key)"
| "run_record db (Compare key expected) t =
     bind_res (store_result (rw_get db t key)) (\<lambda>current. case current of
       Some found \<Rightarrow> if found = expected then Inr t else Inl (CompareFailed key)
     | None \<Rightarrow> Inl (CompareFailed key))"
| "run_record db (CompareAny key expected) t =
     bind_res (store_result (rw_get db t key)) (\<lambda>current. case current of
       Some found \<Rightarrow> if found \<in> set expected then Inr t else Inl (CompareFailed key)
     | None \<Rightarrow> Inl (CompareFailed key))"
| "run_record db (CompareMissing key) t =
     bind_res (store_result (rw_get db t key)) (\<lambda>current. case current of
       None \<Rightarrow> Inr t
     | Some _ \<Rightarrow> Inl (CompareFailed key))"

type_synonym original = "bytes \<times> bytes option"

fun run_records ::
  "('s, 't, 'e) lmdb_rw \<Rightarrow> bool \<Rightarrow> lmdb_batch_write list \<Rightarrow> bytes set \<Rightarrow> original list \<Rightarrow> 't
     \<Rightarrow> 'e batch_error + ('t \<times> original list)" where
  "run_records db return_originals [] seen originals t = Inr (t, originals)"
| "run_records db return_originals (record # records) seen originals t =
     (let key = lmdb_record_key record in
      bind_res
        (if return_originals \<and> key \<notin> seen then
           bind_res (store_result (rw_get db t key)) (\<lambda>v. Inr (originals @ [(key, v)]))
         else Inr originals) (\<lambda>originals.
      bind_res (run_record db record t) (\<lambda>t.
      run_records db return_originals records (insert key seen) originals t)))"

definition executed :: "lmdb_batch_write list \<Rightarrow> lmdb_batch_write list" where
  "executed records =
     (if length records > 1 \<and> lmdb_record_keys_are_unique records
      then sort_key lmdb_record_key records else records)"

definition lmdb_write_batch_impl ::
  "('s, 't, 'e) lmdb_rw \<Rightarrow> bool \<Rightarrow> lmdb_batch_write list \<Rightarrow> ('s, 'e batch_error, original list option) step" where
  "lmdb_write_batch_impl db return_originals records s =
     (case bind_res (store_result (rw_open db s)) (\<lambda>_.
           bind_res (store_result (rw_begin db s)) (\<lambda>t.
           run_records db return_originals (executed records) {} [] t)) of
        Inl e \<Rightarrow> (Inl e, s)
      | Inr (t, originals) \<Rightarrow>
          (case rw_commit db s t of
             (Inr _, s') \<Rightarrow> (Inr (if return_originals then Some originals else None), s')
           | (Inl e, s') \<Rightarrow> (Inl (BatchStore e), s')))"

definition lmdb_write_batch ::
  "('s, 't, 'e) lmdb_rw \<Rightarrow> lmdb_batch_write list \<Rightarrow> ('s, 'e batch_error, original list option) step" where
  "lmdb_write_batch db records = lmdb_write_batch_impl db False records"

definition lmdb_write_batch_with_originals ::
  "('s, 't, 'e) lmdb_rw \<Rightarrow> lmdb_batch_write list \<Rightarrow> ('s, 'e batch_error, original list option) step" where
  "lmdb_write_batch_with_originals db records = lmdb_write_batch_impl db True records"

definition lmdb_put :: "('s, 't, 'e) lmdb_rw \<Rightarrow> bytes \<Rightarrow> bytes \<Rightarrow> ('s, 'e batch_error, original list option) step" where
  "lmdb_put db key val = lmdb_write_batch_impl db False [Put key val]"

definition lmdb_delete :: "('s, 't, 'e) lmdb_rw \<Rightarrow> bytes \<Rightarrow> ('s, 'e batch_error, original list option) step" where
  "lmdb_delete db key = lmdb_write_batch_impl db False [Delete key]"

definition lmdb_clear :: "('s, 't, 'e) lmdb_rw \<Rightarrow> ('s, 'e, unit) step" where
  "lmdb_clear db s =
     (case bind_res (rw_open db s) (\<lambda>_. bind_res (rw_begin db s) (rw_clear db)) of
        Inl e \<Rightarrow> (Inl e, s)
      | Inr t \<Rightarrow> rw_commit db s t)"

section \<open>The specification: a batch on a map, in the order submitted\<close>

fun passes :: "lmdb_batch_write \<Rightarrow> bytes option \<Rightarrow> bool" where
  "passes (Compare _ expected) current \<longleftrightarrow> current = Some expected"
| "passes (CompareAny _ expected) current \<longleftrightarrow> current \<in> Some ` set expected"
| "passes (CompareMissing _) current \<longleftrightarrow> current = None"
| "passes _ _ \<longleftrightarrow> True"

fun effect :: "lmdb_batch_write \<Rightarrow> bytes option \<Rightarrow> bytes option" where
  "effect (Put _ v) current = Some v"
| "effect (PutNew _ v) current = (case current of None \<Rightarrow> Some v | Some x \<Rightarrow> Some x)"
| "effect (Delete _) current = None"
| "effect _ current = current"

definition apply_record :: "contents \<Rightarrow> lmdb_batch_write \<Rightarrow> contents" where
  "apply_record m r = m(lmdb_record_key r := effect r (m (lmdb_record_key r)))"

lemma apply_record_at [simp]:
  "apply_record m r k = (if k = lmdb_record_key r then effect r (m k) else m k)"
  by (simp add: apply_record_def)

fun batch_spec :: "contents \<Rightarrow> lmdb_batch_write list \<Rightarrow> contents option" where
  "batch_spec m [] = Some m"
| "batch_spec m (r # rs) =
     (if passes r (m (lmdb_record_key r)) then batch_spec (apply_record m r) rs else None)"

fun first_keys :: "bytes set \<Rightarrow> lmdb_batch_write list \<Rightarrow> bytes list" where
  "first_keys seen [] = []"
| "first_keys seen (r # rs) =
     (if lmdb_record_key r \<in> seen then first_keys seen rs
      else lmdb_record_key r # first_keys (insert (lmdb_record_key r) seen) rs)"

lemma first_keys_set: "set (first_keys seen rs) = lmdb_record_key ` set rs - seen"
  by (induction seen rs rule: first_keys.induct) auto

lemma first_keys_distinct: "distinct (first_keys seen rs)"
  by (induction seen rs rule: first_keys.induct) (auto simp: first_keys_set)

lemma keys_unseen_iff: "keys_unseen seen rs \<longleftrightarrow> distinct (map lmdb_record_key rs) \<and> lmdb_record_key ` set rs \<inter> seen = {}"
  by (induction seen rs rule: keys_unseen.induct) auto

lemma unique_iff: "lmdb_record_keys_are_unique rs \<longleftrightarrow> distinct (map lmdb_record_key rs)"
  by (simp add: lmdb_record_keys_are_unique_def keys_unseen_iff)

lemma store_result_simps [simp]:
  "store_result r = Inr x \<longleftrightarrow> r = Inr x"
  "store_result r = Inl e \<longleftrightarrow> (\<exists>x. e = BatchStore x \<and> r = Inl x)"
  by (auto simp: store_result_def split: sum.splits)

section \<open>Batches with different keys do not depend on their order\<close>

abbreviation record_of :: "lmdb_batch_write list \<Rightarrow> bytes \<rightharpoonup> lmdb_batch_write" where
  "record_of rs \<equiv> map_of (map (\<lambda>r. (lmdb_record_key r, r)) rs)"

lemma batch_spec_distinct:
  "distinct (map lmdb_record_key rs) \<Longrightarrow>
   batch_spec m rs =
     (if \<forall>r\<in>set rs. passes r (m (lmdb_record_key r))
      then Some (\<lambda>k. case record_of rs k of None \<Rightarrow> m k | Some r \<Rightarrow> effect r (m k)) else None)"
proof (induction rs arbitrary: m)
  case (Cons r rs)
  have other: "lmdb_record_key x \<noteq> lmdb_record_key r" if "x \<in> set rs" for x using that Cons.prems by (metis distinct.simps(2) image_eqI list.simps(9) list.set_map)
  have none: "record_of rs (lmdb_record_key r) = None" using Cons.prems by (auto simp: map_of_eq_None_iff image_iff)
  have all: "(\<forall>x\<in>set rs. passes x (apply_record m r (lmdb_record_key x))) \<longleftrightarrow> (\<forall>x\<in>set rs. passes x (m (lmdb_record_key x)))"
    using other by simp
  have new: "(\<lambda>k. case record_of rs k of None \<Rightarrow> apply_record m r k | Some x \<Rightarrow> effect x (apply_record m r k)) =
      (\<lambda>k. case record_of (r # rs) k of None \<Rightarrow> m k | Some x \<Rightarrow> effect x (m k))"
    using none by (auto simp: fun_eq_iff split: option.split)
  have d: "distinct (map lmdb_record_key rs)" using Cons.prems by simp
  have ih: "batch_spec (apply_record m r) rs = (if \<forall>x\<in>set rs. passes x (m (lmdb_record_key x))
      then Some (\<lambda>k. case record_of (r # rs) k of None \<Rightarrow> m k | Some x \<Rightarrow> effect x (m k)) else None)"
    using Cons.IH [OF d, of "apply_record m r"] unfolding all new .
  show ?case by (subst batch_spec.simps(2), subst ih) simp
qed simp

lemma batch_spec_sorted:
  assumes "distinct (map lmdb_record_key rs)"
  shows "batch_spec m (sort_key lmdb_record_key rs) = batch_spec m rs"
proof -
  let ?ss = "sort_key lmdb_record_key rs"
  have d: "distinct (map lmdb_record_key ?ss)"
    using assms by (simp add: distinct_map)
  have keys: "map fst (map (\<lambda>r. (lmdb_record_key r, r)) xs) = map lmdb_record_key xs" for xs by simp
  have "record_of ?ss = record_of rs"
    by (subst map_of_inject_set; simp only: keys assms d set_map set_sort)
  then show ?thesis
    unfolding batch_spec_distinct [OF assms, of m] batch_spec_distinct [OF d, of m] set_sort by (rule arg_cong)
qed

section \<open>The transaction runs the specification\<close>

lemma get_bind:
  assumes "transacts db committed pending"
  shows "bind_res (store_result (rw_get db t k)) f = Inr y \<Longrightarrow> f (pending t k) = Inr y"
    and "bind_res (store_result (rw_get db t k)) f = Inl (CompareFailed c) \<Longrightarrow> f (pending t k) = Inl (CompareFailed c)"
  using transacts_get [OF assms, of t k] by (cases "rw_get db t k"; simp add: store_result_def)+

lemma run_record_Inr:
  assumes "transacts db committed pending" "run_record db r t = Inr t'"
  shows "passes r (pending t (lmdb_record_key r)) \<and> pending t' = apply_record (pending t) r"
proof -
  note get = get_bind(1) [OF assms(1)]
  show ?thesis
  proof (cases r)
    case (Put k v)
    then show ?thesis using assms(2) transacts_put [OF assms(1)] by (simp add: apply_record_def)
  next
    case (PutNew k v)
    then show ?thesis using assms(2) transacts_put [OF assms(1), of t k v t']
      by (cases "pending t k") (auto simp: apply_record_def fun_upd_idem dest!: get)
  next
    case (Delete k)
    then show ?thesis using assms(2) transacts_delete [OF assms(1)] by (simp add: apply_record_def)
  next
    case (Compare k e)
    then show ?thesis using assms(2)
      by (cases "pending t k") (auto simp: apply_record_def fun_upd_idem split: if_splits dest!: get)
  next
    case (CompareAny k es)
    then show ?thesis using assms(2)
      by (cases "pending t k") (auto simp: apply_record_def fun_upd_idem split: if_splits dest!: get)
  next
    case (CompareMissing k)
    then show ?thesis using assms(2)
      by (cases "pending t k") (auto simp: apply_record_def fun_upd_idem dest!: get)
  qed
qed

lemma run_record_compare:
  assumes "transacts db committed pending" "run_record db r t = Inl (CompareFailed k)"
  shows "k = lmdb_record_key r \<and> \<not> passes r (pending t (lmdb_record_key r))"
  using assms(2)
  by (cases r; cases "pending t (lmdb_record_key r)")
    (auto dest!: get_bind(2) [OF assms(1)] split: if_splits)

lemma run_records_Inr:
  assumes "transacts db committed pending"
  shows "run_records db ro rs seen os t = Inr (t', os') \<Longrightarrow> \<forall>k. k \<notin> seen \<longrightarrow> pending t k = base k \<Longrightarrow>
    batch_spec (pending t) rs = Some (pending t')
    \<and> (ro \<longrightarrow> os' = os @ map (\<lambda>k. (k, base k)) (first_keys seen rs))"
proof (induction rs arbitrary: seen os t)
  case (Cons r rs)
  let ?k = "lmdb_record_key r"
  from Cons.prems(1) obtain t1 os1 where first: "run_record db r t = Inr t1"
    and rest: "run_records db ro rs (insert ?k seen) os1 t1 = Inr (t', os')"
    and os1: "ro \<longrightarrow> os1 = (if ?k \<in> seen then os else os @ [(?k, pending t ?k)])"
    by (auto simp: Let_def bind_res_Inr split: if_splits dest!: transacts_get [OF assms])
  note step = run_record_Inr [OF assms first]
  have "\<forall>k. k \<notin> insert ?k seen \<longrightarrow> pending t1 k = base k" using Cons.prems(2) step by simp
  then have "batch_spec (pending t1) rs = Some (pending t')
      \<and> (ro \<longrightarrow> os' = os1 @ map (\<lambda>k. (k, base k)) (first_keys (insert ?k seen) rs))"
    by (rule Cons.IH [OF rest])
  then show ?case using step os1 Cons.prems(2) by (auto simp: insert_absorb)
qed simp

lemma run_records_compare:
  assumes "transacts db committed pending"
  shows "run_records db ro rs seen os t = Inl (CompareFailed k) \<Longrightarrow>
    batch_spec (pending t) rs = None \<and> k \<in> lmdb_record_key ` set rs"
proof (induction rs arbitrary: seen os t)
  case (Cons r rs)
  from Cons.prems consider "run_record db r t = Inl (CompareFailed k)"
    | t1 os1 where "run_record db r t = Inr t1" "run_records db ro rs (insert (lmdb_record_key r) seen) os1 t1 = Inl (CompareFailed k)"
    by (auto simp: Let_def bind_res_Inl split: if_splits)
  then show ?case
  proof cases
    case 1
    from run_record_compare [OF assms this] show ?thesis by simp
  next
    case 2
    have "batch_spec (pending t1) rs = None \<and> k \<in> lmdb_record_key ` set rs" by (rule Cons.IH [OF 2(2)])
    then show ?thesis using run_record_Inr [OF assms 2(1)] by simp
  qed
qed simp

lemma executed_set [simp]: "set (executed rs) = set rs"
  by (simp add: executed_def)

lemma batch_spec_executed [simp]: "batch_spec m (executed rs) = batch_spec m rs"
  by (simp add: executed_def unique_iff batch_spec_sorted)

lemma batch_impl_cases:
  assumes "lmdb_write_batch_impl db ro records s = (r, s')"
  obtains (store) e where "r = Inl (BatchStore e)" "s' = s \<or> (\<exists>t. rw_commit db s t = (Inl e, s'))"
  | (compare) k t where "r = Inl (CompareFailed k)" "s' = s" "rw_begin db s = Inr t"
      "run_records db ro (executed records) {} [] t = Inl (CompareFailed k)"
  | (good) t t' os u where "r = Inr (if ro then Some os else None)" "rw_begin db s = Inr t"
      "run_records db ro (executed records) {} [] t = Inr (t', os)" "rw_commit db s t' = (Inr u, s')"
proof (cases "rw_open db s")
  case (Inl e)
  then show ?thesis using assms store by (auto simp: lmdb_write_batch_impl_def store_result_def)
next
  case open': (Inr u)
  show ?thesis
  proof (cases "rw_begin db s")
    case (Inl e)
    then show ?thesis using assms open' store by (auto simp: lmdb_write_batch_impl_def store_result_def)
  next
    case (Inr t)
    show ?thesis
    proof (cases "run_records db ro (executed records) {} [] t")
      case run: (Inl e)
      then show ?thesis using assms open' Inr store compare
        by (cases e) (auto simp: lmdb_write_batch_impl_def store_result_def)
    next
      case run: (Inr x)
      obtain t' os where x: "x = (t', os)" by (cases x)
      obtain c s1 where c: "rw_commit db s t' = (c, s1)" by (cases "rw_commit db s t'")
      show ?thesis using assms open' Inr run x c store good
        by (cases c) (auto simp: lmdb_write_batch_impl_def store_result_def)
    qed
  qed
qed

text \<open>C2. A write batch is one atomic step of the specification.  When it succeeds, the committed
  contents are those of running the records in the order they were submitted, even when the
  code sorted them, and the originals it reports are exactly the contents before the batch of
  every key it names, each once.  When a comparison fails, the submitted batch fails too and
  the failing key is one of its keys; then, and on every other error, nothing is changed.\<close>

theorem batch_refines:
  assumes "transacts db committed pending"
    and "lmdb_write_batch_impl db return_originals records s = (r, s')"
  shows "case r of
      Inr None \<Rightarrow> \<not> return_originals \<and> batch_spec (committed s) records = Some (committed s')
    | Inr (Some originals) \<Rightarrow> return_originals \<and> batch_spec (committed s) records = Some (committed s')
        \<and> distinct (map fst originals)
        \<and> set originals = (\<lambda>k. (k, committed s k)) ` lmdb_record_key ` set records
    | Inl (CompareFailed k) \<Rightarrow> committed s' = committed s \<and> batch_spec (committed s) records = None
        \<and> k \<in> lmdb_record_key ` set records
    | Inl (BatchStore _) \<Rightarrow> committed s' = committed s"
  using assms(2)
proof (cases rule: batch_impl_cases)
  case store
  then show ?thesis using transacts_commit_failed [OF assms(1)] by auto
next
  case (compare k t)
  from run_records_compare [OF assms(1) compare(4)] compare show ?thesis
    by (simp add: transacts_begin [OF assms(1) compare(3)])
next
  case (good t t' os u)
  have "\<forall>k. k \<notin> {} \<longrightarrow> pending t k = committed s k" using transacts_begin [OF assms(1) good(2)] by simp
  from run_records_Inr [OF assms(1) good(3) this] good show ?thesis
    by (auto simp: transacts_begin [OF assms(1) good(2)] transacts_commit [OF assms(1) good(4)]
        first_keys_set first_keys_distinct comp_def)
qed

text \<open>A store that never fails.\<close>

definition ideal_rw :: "(contents, contents, unit) lmdb_rw" where
  "ideal_rw =
     \<lparr>rw_open = (\<lambda>_. Inr ()), rw_begin = Inr, rw_get = (\<lambda>t k. Inr (t k)), rw_put = (\<lambda>t k v. Inr (t(k \<mapsto> v))),
      rw_delete = (\<lambda>t k. Inr (t(k := None))), rw_clear = (\<lambda>_. Inr Map.empty), rw_commit = (\<lambda>_ t. (Inr (), t))\<rparr>"

lemma ideal_transacts: "transacts ideal_rw (\<lambda>s. s) (\<lambda>t. t)"
  by (auto simp: transacts_def ideal_rw_def)

lemma sample_batch_run:
  "lmdb_write_batch_impl ideal_rw True [Put [2] [5], CompareMissing [1]] Map.empty
   = (Inr (Some [([1], None), ([2], None)]), [[2] \<mapsto> [5]])"
  by (simp add: lmdb_write_batch_impl_def ideal_rw_def executed_def lmdb_record_keys_are_unique_def store_result_def Let_def)

theorem batch_refines_witness:
  "batch_spec Map.empty [Put [2] [5], CompareMissing [1]] = Some [[2] \<mapsto> [5]]
   \<and> set [([1], None), ([2], None)] = (\<lambda>k. (k, None)) ` lmdb_record_key ` set [Put [2] [5], CompareMissing [1]]"
  using batch_refines [OF ideal_transacts sample_batch_run] by auto

end
