(* ===== verification/Compaction.thy ===== *)
theory Compaction
  imports Log_Copy "HOL-Library.Multiset"
begin

text \<open>
  Compaction of a log (\<^verbatim>\<open>src/sections/part_02.rs\<close>): \<^verbatim>\<open>copy_live_records_impl\<close> copies the records at
  given offsets, and \<^verbatim>\<open>copy_records_preserve_tombstones_impl\<close> copies live records and tombstones
  in the order of the source.  The source is a file that may be damaged, the destination a
  log writer over any backend; opening either may fail.

  The last section relates the copied log to replaying it: a key whose newest record was
  copied is restored to exactly that record.
\<close>

section \<open>Definitions\<close>

datatype compaction_error =
    CompactionLog log_error
  | DuplicateLiveOffset
  | DuplicateTombstoneOffset
  | ConflictingOffset
  | LiveWasTombstone nat
  | TombstoneWasLive nat
  | LiveNotFound nat
  | TombstoneNotFound nat
  | NoCopyResult nat

type_synonym ('b, 'a) compaction_step = "('b log_writer \<times> os, compaction_error, 'a) step"

definition log_step :: "('b, 'a) lw_step \<Rightarrow> ('b, 'a) compaction_step" where
  "log_step m s = (case m s of (Inl e, s') \<Rightarrow> (Inl (CompactionLog e), s') | (Inr x, s') \<Rightarrow> (Inr x, s'))"

fun copy_live ::
  "'b backend_ops \<Rightarrow> crc_fn \<Rightarrow> os_file \<Rightarrow> nat list \<Rightarrow> (nat \<times> nat) list \<Rightarrow> ('b, (nat \<times> nat) list) compaction_step" where
  "copy_live ops crc f [] results = st_ret results"
| "copy_live ops crc f (offset # offsets) results =
     st_bind (log_step (copy_live_record_raw ops crc f offset)) (\<lambda>copied.
     copy_live ops crc f offsets (results @ [(rc_offset copied, rc_value_size copied)]))"

definition copy_live_records_impl ::
  "'b backend_ops \<Rightarrow> crc_fn \<Rightarrow> log_error + os_file \<Rightarrow> log_error + unit \<Rightarrow> nat list \<Rightarrow> ('b, (nat \<times> nat) list) compaction_step" where
  "copy_live_records_impl ops crc source opened offsets =
     (if \<not> distinct offsets then st_lift (Inl DuplicateLiveOffset)
      else
        st_bind (log_step (st_lift source)) (\<lambda>f.
        st_bind (log_step (st_lift opened)) (\<lambda>_.
        st_bind (copy_live ops crc f offsets []) (\<lambda>results.
        st_bind (log_step (lw_sync ops)) (\<lambda>_. st_ret results)))))"

fun copy_both ::
  "'b backend_ops \<Rightarrow> crc_fn \<Rightarrow> os_file \<Rightarrow> nat set \<Rightarrow> nat list \<Rightarrow> (nat \<rightharpoonup> nat \<times> nat) \<Rightarrow> ('b, nat \<rightharpoonup> nat \<times> nat) compaction_step" where
  "copy_both ops crc f live_set [] live_results = st_ret live_results"
| "copy_both ops crc f live_set (offset # offsets) live_results =
     st_bind (log_step (copy_record_raw ops crc f offset True)) (\<lambda>m. case m of
       Some copied \<Rightarrow>
         if offset \<in> live_set then
           (if rc_is_tombstone copied then st_lift (Inl (LiveWasTombstone offset))
            else copy_both ops crc f live_set offsets (live_results(offset \<mapsto> (rc_offset copied, rc_value_size copied))))
         else if \<not> rc_is_tombstone copied then st_lift (Inl (TombstoneWasLive offset))
         else copy_both ops crc f live_set offsets live_results
     | None \<Rightarrow>
         if offset \<in> live_set then st_lift (Inl (LiveNotFound offset))
         else st_lift (Inl (TombstoneNotFound offset)))"

definition copy_records_preserve_tombstones_impl ::
  "'b backend_ops \<Rightarrow> crc_fn \<Rightarrow> log_error + os_file \<Rightarrow> log_error + unit \<Rightarrow> nat list \<Rightarrow> nat list
     \<Rightarrow> ('b, (nat \<times> nat) list) compaction_step" where
  "copy_records_preserve_tombstones_impl ops crc source opened live_offsets tombstone_offsets =
     (if \<not> distinct live_offsets then st_lift (Inl DuplicateLiveOffset)
      else if \<not> distinct tombstone_offsets then st_lift (Inl DuplicateTombstoneOffset)
      else if set live_offsets \<inter> set tombstone_offsets \<noteq> {} then st_lift (Inl ConflictingOffset)
      else
        st_bind (log_step (st_lift source)) (\<lambda>f.
        st_bind (log_step (st_lift opened)) (\<lambda>_.
        st_bind (copy_both ops crc f (set live_offsets) (remdups_adj (sort (live_offsets @ tombstone_offsets))) Map.empty)
          (\<lambda>live_results.
        st_bind (log_step (lw_sync ops)) (\<lambda>_.
        st_lift (map_res (\<lambda>offset. ok_or (live_results offset) (NoCopyResult offset)) live_offsets))))))"

section \<open>What was copied\<close>

text \<open>The record at an offset of a file, and where records land in the destination.\<close>

definition found_at :: "crc_fn \<Rightarrow> os_file \<Rightarrow> nat \<Rightarrow> log_record \<Rightarrow> bool" where
  "found_at crc f offset rec \<longleftrightarrow> record_ok rec \<and> prefix (frame_bytes crc rec) (drop offset (readable f))"

fun placed :: "crc_fn \<Rightarrow> nat \<Rightarrow> log_record list \<Rightarrow> (nat \<times> nat) list" where
  "placed crc n [] = []"
| "placed crc n (r # rs) = (n, length (value_bytes r)) # placed crc (n + length (frame_bytes crc r)) rs"

lemma placed_length [simp]: "length (placed crc n rs) = length rs"
  by (induction rs arbitrary: n) simp_all

lemma placed_nth: "i < length rs \<Longrightarrow> placed crc n rs ! i = (n + length (frames crc (take i rs)), length (value_bytes (rs ! i)))"
  by (induction rs arbitrary: n i) (auto simp: nth_Cons split: nat.splits)

lemma found_unique: "found_at crc f off r \<Longrightarrow> found_at crc f off r' \<Longrightarrow> r = r'"
  using read_next_record_frame [of r crc off f] read_next_record_frame [of r' crc off f] by (auto simp: found_at_def)

lemma log_step_cases:
  assumes "log_step m s = (r, s')"
  obtains e where "m s = (Inl e, s')" "r = Inl (CompactionLog e)" | x where "m s = (Inr x, s')" "r = Inr x"
  using assms by (auto simp: log_step_def split: prod.splits sum.splits)

context io_backend
begin

lemma sync_result:
  assumes "wfb (lw_backend lw)" "lw_sync ops (lw, d) = (r, (lw', d'))"
  shows "wfb (lw_backend lw') \<and> d_bytes d' = d_bytes d \<and> (is_ok r \<longrightarrow> d_synced d' = d_bytes d')"
proof -
  obtain r1 b1 d1 where s: "be_sync ops (lw_backend lw, d) = (r1, (b1, d1))"
    by (cases "be_sync ops (lw_backend lw, d)") auto
  show ?thesis
    using assms s sync_Ok [OF assms(1)] sync_Err [OF assms(1)] by (cases r1) (auto simp: lw_sync_def lw_call_def)
qed

lemma copy_one:
  assumes "wfb (lw_backend lw)" "copy_record_raw ops crc f offset ct (lw, d) = (r, (lw', d'))"
  shows "wfb (lw_backend lw')" "prefix (d_bytes d) (d_bytes d')"
    and "r = Inr (Some res) \<Longrightarrow> \<exists>rec. found_at crc f offset rec \<and> d_bytes d' = d_bytes d @ frame_bytes crc rec
       \<and> (rvalue rec = None \<longrightarrow> ct) \<and> rc_offset res = length (d_bytes d) \<and> rc_value_size res = length (value_bytes rec)
       \<and> rc_is_tombstone res = (rvalue rec = None)"
proof -
  note c = copy_record_raw_result [OF assms]
  show "wfb (lw_backend lw')" "prefix (d_bytes d) (d_bytes d')" using c by simp_all
  assume r: "r = Inr (Some res)"
  from c [unfolded r sum.case option.case] obtain rec where
    "record_ok rec" "prefix (frame_bytes crc rec) (drop offset (readable f))" "d_bytes d' = d_bytes d @ frame_bytes crc rec"
    "rvalue rec = None \<longrightarrow> ct" "res = \<lparr>rc_offset = length (d_bytes d), rc_record_size = length (frame_bytes crc rec),
        rc_value_size = length (value_bytes rec), rc_is_tombstone = (rvalue rec = None)\<rparr>" by (elim exE conjE) (rule that)
  then show "\<exists>rec. found_at crc f offset rec \<and> d_bytes d' = d_bytes d @ frame_bytes crc rec
       \<and> (rvalue rec = None \<longrightarrow> ct) \<and> rc_offset res = length (d_bytes d) \<and> rc_value_size res = length (value_bytes rec)
       \<and> rc_is_tombstone res = (rvalue rec = None)"
    by (intro exI [of _ rec]) (simp add: found_at_def)
qed

lemma copy_one_live:
  assumes "wfb (lw_backend lw)" "copy_live_record_raw ops crc f offset (lw, d) = (r, (lw', d'))"
  shows "wfb (lw_backend lw')" "prefix (d_bytes d) (d_bytes d')"
    and "r = Inr res \<Longrightarrow> \<exists>rec. found_at crc f offset rec \<and> d_bytes d' = d_bytes d @ frame_bytes crc rec
       \<and> rvalue rec \<noteq> None \<and> rc_offset res = length (d_bytes d) \<and> rc_value_size res = length (value_bytes rec)"
proof -
  obtain r1 where c: "copy_record_raw ops crc f offset False (lw, d) = (r1, (lw', d'))"
    and r: "r = bind_res r1 (\<lambda>m. ok_or m (NotALiveRecord offset))"
    using assms(2) by (cases "copy_record_raw ops crc f offset False (lw, d)"; cases "fst (copy_record_raw ops crc f offset False (lw, d))")
      (auto simp: copy_live_record_raw_def st_bind_def)
  note one = copy_one [OF assms(1) c]
  show "wfb (lw_backend lw')" "prefix (d_bytes d) (d_bytes d')" using one(1,2) by simp_all
  assume "r = Inr res"
  then have "r1 = Inr (Some res)" using r by (auto simp: bind_res_Inr ok_or_Inr)
  from one(3) [OF this] show "\<exists>rec. found_at crc f offset rec \<and> d_bytes d' = d_bytes d @ frame_bytes crc rec
       \<and> rvalue rec \<noteq> None \<and> rc_offset res = length (d_bytes d) \<and> rc_value_size res = length (value_bytes rec)" by blast
qed

lemma copy_live_result:
  assumes "wfb (lw_backend lw)" "copy_live ops crc f offs res (lw, d) = (r, (lw', d'))"
  shows "wfb (lw_backend lw') \<and> prefix (d_bytes d) (d_bytes d') \<and>
    (\<forall>out. r = Inr out \<longrightarrow> (\<exists>recs. list_all2 (\<lambda>off rec. found_at crc f off rec \<and> rvalue rec \<noteq> None) offs recs
       \<and> d_bytes d' = d_bytes d @ frames crc recs \<and> out = res @ placed crc (length (d_bytes d)) recs))"
  using assms
proof (induction offs arbitrary: res lw d)
  case (Cons off offs)
  obtain r1 lw1 d1 where c: "copy_live_record_raw ops crc f off (lw, d) = (r1, (lw1, d1))"
    by (cases "copy_live_record_raw ops crc f off (lw, d)") auto
  note one = copy_one_live [OF Cons.prems(1) c]
  show ?case
  proof (cases r1)
    case (Inl e)
    then show ?thesis using Cons.prems(2) c one(1,2) by (auto simp: st_bind_def log_step_def)
  next
    case (Inr x)
    from one(3) [OF Inr] obtain rec where rec: "found_at crc f off rec" "d_bytes d1 = d_bytes d @ frame_bytes crc rec"
      "rvalue rec \<noteq> None" "rc_offset x = length (d_bytes d)" "rc_value_size x = length (value_bytes rec)" by blast
    have rest: "copy_live ops crc f offs (res @ [(rc_offset x, rc_value_size x)]) (lw1, d1) = (r, (lw', d'))"
      using Cons.prems(2) c Inr by (simp add: st_bind_def log_step_def)
    note ih = Cons.IH [OF one(1) rest]
    have "\<exists>recs. list_all2 (\<lambda>off rec. found_at crc f off rec \<and> rvalue rec \<noteq> None) (off # offs) recs
       \<and> d_bytes d' = d_bytes d @ frames crc recs \<and> out = res @ placed crc (length (d_bytes d)) recs" if "r = Inr out" for out
    proof -
      from ih that obtain recs where "list_all2 (\<lambda>off rec. found_at crc f off rec \<and> rvalue rec \<noteq> None) offs recs"
        "d_bytes d' = d_bytes d1 @ frames crc recs"
        "out = (res @ [(rc_offset x, rc_value_size x)]) @ placed crc (length (d_bytes d1)) recs" by blast
      then show ?thesis using rec by (intro exI [of _ "rec # recs"]) simp
    qed
    moreover have "prefix (d_bytes d) (d_bytes d')" using ih one(2) prefix_order.trans by blast
    ultimately show ?thesis using ih by blast
  qed
qed auto

lemma copy_both_result:
  assumes "wfb (lw_backend lw)" "copy_both ops crc f live offs res (lw, d) = (r, (lw', d'))" "distinct offs"
  shows "wfb (lw_backend lw') \<and> prefix (d_bytes d) (d_bytes d') \<and>
    (\<forall>out. r = Inr out \<longrightarrow> (\<exists>recs. list_all2 (\<lambda>off rec. found_at crc f off rec \<and> (rvalue rec = None \<longleftrightarrow> off \<notin> live)) offs recs
       \<and> d_bytes d' = d_bytes d @ frames crc recs
       \<and> (\<forall>x. out x = (if x \<in> live \<and> x \<in> set offs then map_of (zip offs (placed crc (length (d_bytes d)) recs)) x else res x))))"
  using assms
proof (induction offs arbitrary: res lw d)
  case (Cons off offs)
  obtain r1 lw1 d1 where c: "copy_record_raw ops crc f off True (lw, d) = (r1, (lw1, d1))"
    by (cases "copy_record_raw ops crc f off True (lw, d)") auto
  note one = copy_one [OF Cons.prems(1) c]
  show ?case
  proof (cases "\<exists>x. r1 = Inr (Some x) \<and> (off \<in> live \<longleftrightarrow> \<not> rc_is_tombstone x)")
    case False
    then have "\<exists>e. r = Inl e" "(lw', d') = (lw1, d1)"
      using Cons.prems(2) c by (auto simp: st_bind_def log_step_def split: sum.splits option.splits if_splits)
    then show ?thesis using one(1,2) by auto
  next
    case True
    then obtain x where x: "r1 = Inr (Some x)" "off \<in> live \<longleftrightarrow> \<not> rc_is_tombstone x" by blast
    from one(3) [OF x(1)] obtain rec where rec: "found_at crc f off rec" "d_bytes d1 = d_bytes d @ frame_bytes crc rec"
      "rc_offset x = length (d_bytes d)" "rc_value_size x = length (value_bytes rec)" "rc_is_tombstone x = (rvalue rec = None)"
      by (elim exE conjE) (rule that)
    let ?res = "if off \<in> live then res(off \<mapsto> (rc_offset x, rc_value_size x)) else res"
    have rest: "copy_both ops crc f live offs ?res (lw1, d1) = (r, (lw', d'))"
      using Cons.prems(2) c x by (auto simp: st_bind_def log_step_def)
    have d: "distinct offs" "off \<notin> set offs" using Cons.prems(3) by simp_all
    note ih = Cons.IH [OF one(1) rest d(1)]
    have "\<exists>recs. list_all2 (\<lambda>off rec. found_at crc f off rec \<and> (rvalue rec = None \<longleftrightarrow> off \<notin> live)) (off # offs) recs
       \<and> d_bytes d' = d_bytes d @ frames crc recs
       \<and> (\<forall>x. out x = (if x \<in> live \<and> x \<in> set (off # offs) then map_of (zip (off # offs) (placed crc (length (d_bytes d)) recs)) x else res x))"
      if "r = Inr out" for out
    proof -
      from ih that obtain recs where "list_all2 (\<lambda>off rec. found_at crc f off rec \<and> (rvalue rec = None \<longleftrightarrow> off \<notin> live)) offs recs"
        "d_bytes d' = d_bytes d1 @ frames crc recs"
        "\<forall>y. out y = (if y \<in> live \<and> y \<in> set offs then map_of (zip offs (placed crc (length (d_bytes d1)) recs)) y else ?res y)" by blast
      then show ?thesis using rec d x(2) by (intro exI [of _ "rec # recs"]) auto
    qed
    moreover have "prefix (d_bytes d) (d_bytes d')" using ih one(2) prefix_order.trans by blast
    ultimately show ?thesis using ih by blast
  qed
qed auto

end

lemma placed_found:
  assumes "list_all record_ok recs" "i < length recs"
  shows "found_at crc (good_file (bs @ frames crc recs)) (fst (placed crc (length bs) recs ! i)) (recs ! i)"
proof -
  have "recs = take i recs @ recs ! i # drop (Suc i) recs" using assms(2) by (rule id_take_nth_drop)
  then have "frames crc recs = frames crc (take i recs) @ frame_bytes crc (recs ! i) @ frames crc (drop (Suc i) recs)"
    by (metis concat.simps(2) concat_append list.simps(9) map_append)
  then show ?thesis
    using assms by (simp add: found_at_def placed_nth list_all_length)
qed

lemma found_all_ok:
  "list_all2 (\<lambda>off rec. found_at crc f off rec \<and> P off rec) offs recs \<Longrightarrow> list_all record_ok recs"
  by (auto simp: list_all2_conv_all_nth list_all_length found_at_def)

lemma remdups_adj_sorted: "distinct xs \<Longrightarrow> remdups_adj (sort xs) = sort xs"
  by (simp add: remdups_adj_distinct)

definition copied_to :: "crc_fn \<Rightarrow> os_file \<Rightarrow> bytes \<Rightarrow> nat \<Rightarrow> nat \<times> nat \<Rightarrow> bool" where
  "copied_to crc f dest off result \<longleftrightarrow> (\<exists>rec. found_at crc f off rec \<and> rvalue rec \<noteq> None
     \<and> found_at crc (good_file dest) (fst result) rec \<and> snd result = length (value_bytes rec))"

lemma copied_to_nth:
  assumes "list_all2 (\<lambda>off rec. found_at crc f off rec \<and> P off rec) offs recs" "i < length offs" "rvalue (recs ! i) \<noteq> None"
  shows "copied_to crc f (bs @ frames crc recs) (offs ! i) (placed crc (length bs) recs ! i)"
proof -
  have len: "length offs = length recs" using assms(1) by (rule list_all2_lengthD)
  have "found_at crc f (offs ! i) (recs ! i)" using list_all2_nthD [OF assms(1,2)] by simp
  then show ?thesis
    using placed_found [OF found_all_ok [OF assms(1)], of i crc bs] assms(2,3) len
    unfolding copied_to_def by (intro exI [of _ "recs ! i"]) (simp add: placed_nth)
qed

lemma map_res_ok_or: "map_res (\<lambda>x. ok_or (m x) (e x)) xs = Inr ys \<longleftrightarrow> map m xs = map Some ys"
  by (induction xs arbitrary: ys) (auto simp: bind_res_Inr ok_or_Inr map_eq_Cons_conv)

lemma preserve_cases:
  assumes "copy_records_preserve_tombstones_impl ops crc source opened live tombs s = (r, s')"
  obtains (early) e where "r = Inl e" "s' = s"
  | (failed) f e where "distinct (live @ tombs)"
      "copy_both ops crc f (set live) (sort (live @ tombs)) Map.empty s = (Inl e, s')" "r = Inl e"
  | (looped) f m s1 r2 where "source = Inr f" "distinct (live @ tombs)"
      "copy_both ops crc f (set live) (sort (live @ tombs)) Map.empty s = (Inr m, s1)" "lw_sync ops s1 = (r2, s')"
      "\<And>out. r = Inr out \<Longrightarrow> is_ok r2 \<and> map m live = map Some out"
proof (cases "distinct (live @ tombs)")
  case False
  then show thesis using assms early
    by (auto simp: copy_records_preserve_tombstones_impl_def split: if_splits)
next
  case True
  then have same: "distinct live" "distinct tombs" "set live \<inter> set tombs = {}"
    "remdups_adj (sort (live @ tombs)) = sort (live @ tombs)" by (simp_all add: remdups_adj_sorted)
  show thesis
  proof (cases "\<exists>f. source = Inr f \<and> opened = Inr ()")
    case False
    then show thesis using assms early same
      by (cases source; cases opened) (auto simp: copy_records_preserve_tombstones_impl_def log_step_def)
  next
    case opn: True
    then obtain f where f: "source = Inr f" "opened = Inr ()" by blast
    obtain r1 s1 where c: "copy_both ops crc f (set live) (sort (live @ tombs)) Map.empty s = (r1, s1)"
      by (cases "copy_both ops crc f (set live) (sort (live @ tombs)) Map.empty s")
    obtain r2 s2 where y: "lw_sync ops s1 = (r2, s2)" by (cases "lw_sync ops s1")
    show thesis
    proof (cases r1)
      case (Inl e)
      then show thesis using assms f c failed [OF True] same
        by (auto simp: copy_records_preserve_tombstones_impl_def log_step_def st_bind_def)
    next
      case (Inr m)
      have "s' = s2" "\<And>out. r = Inr out \<Longrightarrow> is_ok r2 \<and> map m live = map Some out"
        using assms f c y Inr same by (cases r2; auto simp: copy_records_preserve_tombstones_impl_def log_step_def
            st_bind_def map_res_ok_or is_ok_def)+
      then show thesis using looped [OF f(1) True] c y Inr by blast
    qed
  qed
qed

lemma live_cases:
  assumes "copy_live_records_impl ops crc source opened offs s = (r, s')"
  obtains (early) e where "r = Inl e" "s' = s"
  | (failed) f e where "copy_live ops crc f offs [] s = (Inl e, s')" "r = Inl e"
  | (looped) f out s1 r2 where "source = Inr f" "copy_live ops crc f offs [] s = (Inr out, s1)" "lw_sync ops s1 = (r2, s')"
      "\<And>x. r = Inr x \<Longrightarrow> is_ok r2 \<and> x = out"
proof (cases "distinct offs \<and> opened = Inr () \<and> (\<exists>f. source = Inr f)")
  case False
  then show thesis using assms early
    by (cases source; cases opened) (auto simp: copy_live_records_impl_def log_step_def split: if_splits)
next
  case True
  then obtain f where f: "source = Inr f" by blast
  obtain r1 s1 where c: "copy_live ops crc f offs [] s = (r1, s1)" by (cases "copy_live ops crc f offs [] s")
  obtain r2 s2 where y: "lw_sync ops s1 = (r2, s2)" by (cases "lw_sync ops s1")
  show thesis
  proof (cases r1)
    case (Inl e)
    then show thesis using assms f c failed True by (auto simp: copy_live_records_impl_def log_step_def st_bind_def)
  next
    case (Inr out)
    have "s' = s2" "\<And>x. r = Inr x \<Longrightarrow> is_ok r2 \<and> x = out"
      using assms f c y Inr True by (cases r2; auto simp: copy_live_records_impl_def log_step_def st_bind_def is_ok_def)+
    then show thesis using looped [OF f] c y Inr by blast
  qed
qed

context io_backend
begin

lemma preserve_result:
  assumes "wfb (lw_backend lw)"
    and "copy_records_preserve_tombstones_impl ops crc source opened live tombs (lw, d) = (r, (lw', d'))"
  shows "prefix (d_bytes d) (d_bytes d') \<and>
    (\<forall>results. r = Inr results \<longrightarrow> (\<exists>f recs. source = Inr f
       \<and> list_all2 (\<lambda>off rec. found_at crc f off rec \<and> (rvalue rec = None \<longleftrightarrow> off \<in> set tombs)) (sort (live @ tombs)) recs
       \<and> d_bytes d' = d_bytes d @ frames crc recs \<and> d_synced d' = d_bytes d'
       \<and> list_all2 (copied_to crc f (d_bytes d')) live results))"
  using assms(2)
proof (cases rule: preserve_cases)
  case (failed f e)
  have "distinct (sort (live @ tombs))" using failed(1) by simp
  from copy_both_result [OF assms(1) failed(2) this] failed(3) show ?thesis by simp
next
  case (looped f m s1 r2)
  obtain lw1 d1 where s1: "s1 = (lw1, d1)" by (cases s1)
  have dist: "distinct (sort (live @ tombs))" using looped(2) by simp
  note both = copy_both_result [OF assms(1) looped(3) [unfolded s1] dist]
  note sync = sync_result [OF conjunct1 [OF both] looped(4) [unfolded s1]]
  have "\<exists>recs. list_all2 (\<lambda>off rec. found_at crc f off rec \<and> (rvalue rec = None \<longleftrightarrow> off \<in> set tombs)) (sort (live @ tombs)) recs
       \<and> d_bytes d' = d_bytes d @ frames crc recs \<and> d_synced d' = d_bytes d'
       \<and> list_all2 (copied_to crc f (d_bytes d')) live results" if "r = Inr results" for results
  proof -
    note fin = looped(5) [OF that]
    from both obtain recs where recs: "list_all2 (\<lambda>off rec. found_at crc f off rec \<and> (rvalue rec = None \<longleftrightarrow> off \<notin> set live)) (sort (live @ tombs)) recs"
      "d_bytes d1 = d_bytes d @ frames crc recs"
      "\<forall>x. m x = (if x \<in> set live \<and> x \<in> set (sort (live @ tombs)) then map_of (zip (sort (live @ tombs)) (placed crc (length (d_bytes d)) recs)) x else None)"
      by blast
    have kind: "list_all2 (\<lambda>off rec. found_at crc f off rec \<and> (rvalue rec = None \<longleftrightarrow> off \<in> set tombs)) (sort (live @ tombs)) recs"
      by (rule list.rel_mono_strong [OF recs(1)]) (use looped(2) in auto)
    have "copied_to crc f (d_bytes d') (live ! i) (results ! i)" if "i < length live" for i
    proof -
      have some: "m (live ! i) = Some (results ! i)" and "live ! i \<in> set live" using fin \<open>i < length live\<close>
        by (metis length_map nth_map, simp)
      then have "map_of (zip (sort (live @ tombs)) (placed crc (length (d_bytes d)) recs)) (live ! i) = Some (results ! i)"
        using recs(3) by simp
      then obtain j where "j < length recs" "sort (live @ tombs) ! j = live ! i" "placed crc (length (d_bytes d)) recs ! j = results ! i"
        using list_all2_lengthD [OF recs(1)] by (auto dest!: map_of_SomeD simp: set_zip)
      then show ?thesis
        using copied_to_nth [OF recs(1), of j "d_bytes d"] list_all2_nthD2 [OF recs(1), of j] sync recs(2) \<open>live ! i \<in> set live\<close>
          list_all2_lengthD [OF recs(1)] by simp
    qed
    then show ?thesis using kind recs(2) sync fin by (auto simp: list_all2_conv_all_nth dest: map_eq_imp_length_eq)
  qed
  then show ?thesis using looped(1) sync both by auto
qed simp

lemma live_result:
  assumes "wfb (lw_backend lw)"
    and "copy_live_records_impl ops crc source opened offs (lw, d) = (r, (lw', d'))"
  shows "prefix (d_bytes d) (d_bytes d') \<and>
    (\<forall>results. r = Inr results \<longrightarrow> (\<exists>f recs. source = Inr f
       \<and> list_all2 (\<lambda>off rec. found_at crc f off rec \<and> rvalue rec \<noteq> None) offs recs
       \<and> d_bytes d' = d_bytes d @ frames crc recs \<and> d_synced d' = d_bytes d'
       \<and> list_all2 (copied_to crc f (d_bytes d')) offs results))"
  using assms(2)
proof (cases rule: live_cases)
  case (failed f e)
  from copy_live_result [OF assms(1) failed(1)] failed(2) show ?thesis by simp
next
  case (looped f out s1 r2)
  obtain lw1 d1 where s1: "s1 = (lw1, d1)" by (cases s1)
  note all = copy_live_result [OF assms(1) looped(2) [unfolded s1]]
  note sync = sync_result [OF conjunct1 [OF all] looped(3) [unfolded s1]]
  from all obtain recs where recs: "list_all2 (\<lambda>off rec. found_at crc f off rec \<and> rvalue rec \<noteq> None) offs recs"
    "d_bytes d1 = d_bytes d @ frames crc recs" "out = placed crc (length (d_bytes d)) recs" by auto
  have "list_all2 (copied_to crc f (d_bytes d1)) offs out"
    using copied_to_nth [OF recs(1), of _ "d_bytes d"] list_all2_nthD2 [OF recs(1)] list_all2_lengthD [OF recs(1)] recs(2,3)
    by (auto simp: list_all2_conv_all_nth)
  then show ?thesis using looped(1,4) sync all recs by auto
qed simp

end

section \<open>Compaction on a healthy device\<close>

lemma sync_calm:
  assumes "wf_backend (lw_backend lw)" "d_script d = []"
  shows "\<exists>lw'. lw_sync sync_ops (lw, d) = (Inr (), (lw', d\<lparr>d_synced := d_bytes d\<rparr>))"
  using assms by (simp add: lw_sync_def lw_call_def sync_ops_def sb_sync_def sb_step_def sb_os_def st_bind_def
      flush_buf_def write_loop.simps [of "[]"] os_calm wf_backend_def wf_sync_def)

lemma both_calm:
  assumes "wf_backend (lw_backend lw)" "d_script d = []" "\<not> d_poisoned d" "file_len f \<le> U64_MAX"
    and "list_all2 (\<lambda>off rec. found_at crc f off rec \<and> (rvalue rec = None \<longleftrightarrow> off \<notin> live)) offs recs"
    and "length (d_bytes d) + length (frames crc recs) \<le> U64_MAX"
  shows "\<exists>lw' out. copy_both sync_ops crc f live offs res (lw, d) = (Inr out, (lw', d\<lparr>d_bytes := d_bytes d @ frames crc recs\<rparr>))
    \<and> wf_backend (lw_backend lw')"
  using assms(5,1-3,6)
proof (induction offs recs arbitrary: lw d res rule: list_all2_induct)
  case (Cons off offs rec recs)
  have rec: "record_ok rec" "prefix (frame_bytes crc rec) (drop off (readable f))" using Cons.hyps(1) by (simp_all add: found_at_def)
  let ?d1 = "d\<lparr>d_bytes := d_bytes d @ frame_bytes crc rec\<rparr>"
  obtain lw1 where one: "copy_record_raw sync_ops crc f off True (lw, d) =
      (Inr (Some \<lparr>rc_offset = length (d_bytes d), rc_record_size = length (frame_bytes crc rec),
                rc_value_size = length (value_bytes rec), rc_is_tombstone = (rvalue rec = None)\<rparr>), (lw1, ?d1))"
    "wf_backend (lw_backend lw1)"
    using copy_calm [OF Cons.prems(1-3) assms(4) rec, of True] Cons.prems(4) by auto
  let ?res = "if off \<in> live then res(off \<mapsto> (length (d_bytes d), length (value_bytes rec))) else res"
  have "\<exists>lw' out. copy_both sync_ops crc f live offs ?res (lw1, ?d1) = (Inr out, (lw', ?d1\<lparr>d_bytes := d_bytes ?d1 @ frames crc recs\<rparr>))
    \<and> wf_backend (lw_backend lw')"
    using Cons.prems by (intro Cons.IH [OF one(2)]) simp_all
  then show ?case using one(1) Cons.hyps(1) by (auto simp: log_step_def st_bind_def)
qed simp

lemma preserve_calm:
  assumes "wf_backend (lw_backend lw)" "d_script d = []" "\<not> d_poisoned d" "file_len f \<le> U64_MAX" "distinct (live @ tombs)"
    and "list_all2 (\<lambda>off rec. found_at crc f off rec \<and> (rvalue rec = None \<longleftrightarrow> off \<in> set tombs)) (sort (live @ tombs)) recs"
    and "length (d_bytes d) + length (frames crc recs) \<le> U64_MAX"
  shows "\<exists>results s'. copy_records_preserve_tombstones_impl sync_ops crc (Inr f) (Inr ()) live tombs (lw, d) = (Inr results, s')"
proof -
  have kind: "list_all2 (\<lambda>off rec. found_at crc f off rec \<and> (rvalue rec = None \<longleftrightarrow> off \<notin> set live)) (sort (live @ tombs)) recs"
    by (rule list.rel_mono_strong [OF assms(6)]) (use assms(5) in auto)
  let ?d1 = "d\<lparr>d_bytes := d_bytes d @ frames crc recs\<rparr>"
  obtain lw1 m where c: "copy_both sync_ops crc f (set live) (sort (live @ tombs)) Map.empty (lw, d) = (Inr m, (lw1, ?d1))"
    "wf_backend (lw_backend lw1)" using both_calm [OF assms(1-4) kind assms(7)] by blast
  have ds: "distinct (sort (live @ tombs))" using assms(5) by simp
  have "m off \<noteq> None" if "off \<in> set live" for off
  proof -
    from sync.copy_both_result [OF assms(1) c(1) ds] obtain rs where
      rs: "list_all2 (\<lambda>off rec. found_at crc f off rec \<and> (rvalue rec = None \<longleftrightarrow> off \<notin> set live)) (sort (live @ tombs)) rs"
      and m: "\<forall>x. m x = (if x \<in> set live \<and> x \<in> set (sort (live @ tombs)) then map_of (zip (sort (live @ tombs)) (placed crc (length (d_bytes d)) rs)) x else None)"
      by blast
    have "length (sort (live @ tombs)) = length (placed crc (length (d_bytes d)) rs)" using list_all2_lengthD [OF rs] by simp
    from map_of_zip_is_Some [OF this, of off] that m show ?thesis by auto
  qed
  then have "map m live = map Some (map (the \<circ> m) live)" by auto
  then have "map_res (\<lambda>off. ok_or (m off) (NoCopyResult off)) live = Inr (map (the \<circ> m) live)" unfolding map_res_ok_or .
  moreover obtain lw2 where "lw_sync sync_ops (lw1, ?d1) = (Inr (), (lw2, ?d1\<lparr>d_synced := d_bytes ?d1\<rparr>))"
    using sync_calm [OF c(2), of ?d1] assms(2) by auto
  ultimately show ?thesis
    using c(1) assms(5) by (simp add: copy_records_preserve_tombstones_impl_def remdups_adj_sorted log_step_def st_bind_def)
qed

section \<open>Replaying a log\<close>

text \<open>The records of a log with their offsets, and the newest entry of each key.\<close>

definition log_entries :: "crc_fn \<Rightarrow> log_record list \<Rightarrow> (nat \<times> log_record) list" where
  "log_entries crc rs = zip (map fst (placed crc 0 rs)) rs"

definition newest :: "(nat \<times> log_record) list \<Rightarrow> bytes \<rightharpoonup> nat \<times> log_record" where
  "newest es = map_of (rev (map (\<lambda>e. (rkey (snd e), e)) es))"

lemma newest_snoc: "newest (es @ [e]) = (newest es)(rkey (snd e) \<mapsto> e)"
  by (simp add: newest_def)

lemma replay_filter_newest:
  "newest es k = Some e \<Longrightarrow> P e \<Longrightarrow> replay (map snd (filter P es)) k = Some (snd e)"
  by (induction es rule: rev_induct) (auto simp: newest_snoc replay_snoc replay_def newest_def split: if_splits)

lemma replay_filter_none:
  "\<forall>e\<in>set es. rkey (snd e) = k \<longrightarrow> \<not> P e \<Longrightarrow> replay (map snd (filter P es)) k = None"
  by (auto simp: replay_def map_of_eq_None_iff image_iff)

lemma placed_sorted: "sorted_wrt (<) (map fst (placed crc n rs)) \<and> (\<forall>x\<in>set (map fst (placed crc n rs)). n \<le> x)"
  by (induction rs arbitrary: n) (fastforce simp: frame_length)+

lemma entries_fst: "map fst (log_entries crc rs) = map fst (placed crc 0 rs)"
  by (simp add: log_entries_def)

lemma entries_found:
  assumes "all_ok rs" "e \<in> set (log_entries crc rs)"
  shows "found_at crc (good_file (frames crc rs)) (fst e) (snd e)"
  using assms placed_found [of rs _ crc "[]"] by (auto simp: log_entries_def set_zip)

lemma requested_records:
  assumes "all_ok rs" "distinct offs" "set offs \<subseteq> fst ` set (log_entries crc rs)"
    and found: "list_all2 (\<lambda>off rec. found_at crc (good_file (frames crc rs)) off rec \<and> P off rec) (sort offs) recs"
  shows "recs = map snd (filter (\<lambda>e. fst e \<in> set offs) (log_entries crc rs))"
proof -
  let ?es = "filter (\<lambda>e. fst e \<in> set offs) (log_entries crc rs)"
  have ascending: "sorted_wrt (<) (map fst (log_entries crc rs))" by (simp add: entries_fst placed_sorted)
  then have "sorted_wrt (<) (map fst ?es)" by (simp add: sorted_wrt_map sorted_wrt_filter)
  moreover have "set (map fst ?es) = set (sort offs)" using assms(3) by auto
  ultimately have offs: "map fst ?es = sort offs"
    using assms(2) by (intro sorted_distinct_set_unique) (auto simp: strict_sorted_iff)
  have "list_all2 (found_at crc (good_file (frames crc rs))) (map fst ?es) (map snd ?es)"
    unfolding list.rel_map by (rule list.rel_refl_strong) (use entries_found [OF assms(1)] in simp)
  then show ?thesis
    using found unfolding offs by (auto simp: list_all2_conv_all_nth intro!: nth_equalityI found_unique)
qed

section \<open>Properties\<close>

text \<open>C7. Compaction copies exactly what it was asked to.  Whatever the devices do and whatever the
  source holds, nothing of the destination is lost, and when compaction succeeds the
  destination has grown by exactly the frames of the complete, checksummed records at the
  requested offsets, in source order, live where live was asked and tombstones where
  tombstones were, all of it is on stable storage, and the result for each live offset is
  where its record now is and how long its value is.\<close>

theorem compaction_exact:
  assumes "wf_backend (lw_backend lw)"
    and "copy_records_preserve_tombstones_impl sync_ops crc source opened live tombs (lw, d) = (r, (lw', d'))"
  shows "prefix (d_bytes d) (d_bytes d') \<and>
    (\<forall>results. r = Inr results \<longrightarrow> (\<exists>f recs. source = Inr f
       \<and> list_all2 (\<lambda>off rec. found_at crc f off rec \<and> (rvalue rec = None \<longleftrightarrow> off \<in> set tombs)) (sort (live @ tombs)) recs
       \<and> d_bytes d' = d_bytes d @ frames crc recs \<and> d_synced d' = d_bytes d'
       \<and> list_all2 (copied_to crc f (d_bytes d')) live results))"
  by (rule sync.preserve_result [OF assms])

text \<open>C8. Compaction succeeds when the device does.  On a healthy device, when every requested offset
  holds a complete record of the kind it was requested as and the copies fit the 64-bit file
  offset, compaction returns success.\<close>

theorem compaction_succeeds:
  assumes "wf_backend (lw_backend lw)" "d_script d = []" "\<not> d_poisoned d" "file_len f \<le> U64_MAX" "distinct (live @ tombs)"
    and "list_all2 (\<lambda>off rec. found_at crc f off rec \<and> (rvalue rec = None \<longleftrightarrow> off \<in> set tombs)) (sort (live @ tombs)) recs"
    and "length (d_bytes d) + length (frames crc recs) \<le> U64_MAX"
  shows "\<exists>results s'. copy_records_preserve_tombstones_impl sync_ops crc (Inr f) (Inr ()) live tombs (lw, d) = (Inr results, s')"
  by (rule preserve_calm [OF assms])


section \<open>Witnesses\<close>

definition sample_tombstone :: log_record where
  "sample_tombstone = \<lparr>timestamp_ms = 8, expire_at_ms = 0, rkey = [107], rvalue = None\<rparr>"

abbreviation sample_log :: "log_record list" where
  "sample_log \<equiv> [sample_record, sample_tombstone]"

lemma sample_log_facts:
  "record_ok sample_tombstone" "length (frame_bytes crc sample_tombstone) = 27" "rvalue sample_tombstone = None"
  by (simp_all add: sample_tombstone_def record_ok_def frame_length value_bytes_def)

lemma sample_entries: "log_entries crc sample_log = [(0, sample_record), (29, sample_tombstone)]"
  by (simp add: log_entries_def)

lemma sample_log_found:
  "list_all2 (\<lambda>off rec. found_at sum_crc (good_file (frames sum_crc sample_log)) off rec \<and> (rvalue rec = None \<longleftrightarrow> off \<in> set [29]))
     (sort ([0] @ [29])) sample_log"
  using entries_found [of sample_log "(0, sample_record)" sum_crc] entries_found [of sample_log "(29, sample_tombstone)" sum_crc]
    sample_record_ok by (simp add: sample_log_facts sample_entries) (simp add: sample_record_def)

lemma sample_compaction:
  obtains results lw' d' where "copy_records_preserve_tombstones_impl sync_ops sum_crc (Inr (good_file (frames sum_crc sample_log))) (Inr ())
     [0] [29] (lw_open sync_ops sample_backend 1, calm_os []) = (Inr results, (lw', d'))"
  using preserve_calm [OF _ _ _ _ _ sample_log_found, of "lw_open sync_ops sample_backend 1" "calm_os []"]
  by (auto simp: lw_open_def calm_os_def U64_MAX_def sample_log_facts)

lemma sample_writer_ok: "wf_backend (lw_backend (lw_open sync_ops sample_backend 1))"
  by (simp add: lw_open_def)

theorem compaction_exact_witness:
  "\<exists>(d' :: os) results. d_synced d' = d_bytes d' \<and> length results = 1
     \<and> list_all2 (copied_to sum_crc (good_file (frames sum_crc sample_log)) (d_bytes d')) [0] results"
proof -
  obtain results lw' d' where "copy_records_preserve_tombstones_impl sync_ops sum_crc (Inr (good_file (frames sum_crc sample_log))) (Inr ())
     [0] [29] (lw_open sync_ops sample_backend 1, calm_os []) = (Inr results, (lw', d'))" by (rule sample_compaction)
  from compaction_exact [OF sample_writer_ok this] show ?thesis
    by (intro exI [of _ d'] exI [of _ results]) (auto dest: list_all2_lengthD)
qed

theorem compaction_succeeds_witness:
  "\<exists>results s'. copy_records_preserve_tombstones_impl sync_ops sum_crc (Inr (good_file (frames sum_crc sample_log))) (Inr ())
     [0] [29] (lw_open sync_ops sample_backend 1, calm_os []) = (Inr results, s')"
  by (rule compaction_succeeds [OF _ _ _ _ _ sample_log_found])
    (simp_all add: lw_open_def calm_os_def U64_MAX_def sample_log_facts)


end
