(* ===== verification/Batch_Reads.thy ===== *)
theory Batch_Reads
  imports Log_Pread "HOL-Library.Multiset"
begin

text \<open>
  Batches of positional reads (\<^verbatim>\<open>sections/part_03.rs\<close>, \<^verbatim>\<open>v2_pread_batch\<close> in \<^verbatim>\<open>part_02.rs\<close>) and the
  validation of stored value references (\<^verbatim>\<open>sections/part_01.rs\<close>).  Reads are grouped by file, run
  in offset order within a file, and put back at the index the caller gave them; a missing or
  unreadable file and a damaged record are errors of their own indexes only.

  The file system is an argument that maps a path to a file or to the reason it cannot be
  opened.  The iteration order of the hash map that groups reads by path is not specified;
  it is an argument too.  The tasks that run the reads and send the answers are not modelled.
\<close>

section \<open>Definitions\<close>

datatype open_error = NoEntry | OpenFailed string

datatype read_failure = MissingFile string | OpenFile string string | ReadFailed log_error

datatype batch_read_value = BValue bytes | BNil | BError read_failure

type_synonym file_system = "string \<Rightarrow> open_error + os_file"

datatype group_error = IndexOutOfRange nat nat | DuplicateIndex nat

fun mark_reads :: "nat \<Rightarrow> (nat \<times> 'a) list \<Rightarrow> bool list \<Rightarrow> group_error + bool list" where
  "mark_reads num_reads [] seen = Inr seen"
| "mark_reads num_reads ((index, _) # reads) seen =
     (if index \<ge> num_reads then Inl (IndexOutOfRange index num_reads)
      else if seen ! index then Inl (DuplicateIndex index)
      else mark_reads num_reads reads (seen[index := True]))"

fun mark_groups :: "nat \<Rightarrow> (string \<times> (nat \<times> 'a) list) list \<Rightarrow> bool list \<Rightarrow> group_error + bool list" where
  "mark_groups num_reads [] seen = Inr seen"
| "mark_groups num_reads ((_, reads) # groups) seen =
     bind_res (mark_reads num_reads reads seen) (mark_groups num_reads groups)"

definition validate_grouped_pread_groups :: "(string \<times> (nat \<times> nat) list) list \<Rightarrow> group_error + nat" where
  "validate_grouped_pread_groups groups =
     (let num_reads = sum_list (map (\<lambda>(_, reads). length reads) groups) in
      bind_res (mark_groups num_reads groups (replicate num_reads False)) (\<lambda>_. Inr num_reads))"

definition validate_grouped_keyed_pread_groups :: "(string \<times> (nat \<times> nat \<times> bytes) list) list \<Rightarrow> group_error + nat" where
  "validate_grouped_keyed_pread_groups groups =
     (let num_reads = sum_list (map (\<lambda>(_, reads). length reads) groups) in
      bind_res (mark_groups num_reads groups (replicate num_reads False)) (\<lambda>_. Inr num_reads))"

definition missing_file_results :: "string \<Rightarrow> nat list \<Rightarrow> (nat \<times> batch_read_value) list" where
  "missing_file_results path reads = map (\<lambda>index. (index, BError (MissingFile path))) reads"

definition open_error_results :: "string \<Rightarrow> open_error \<Rightarrow> nat list \<Rightarrow> (nat \<times> batch_read_value) list" where
  "open_error_results path e reads =
     (case e of
        NoEntry \<Rightarrow> missing_file_results path reads
      | OpenFailed reason \<Rightarrow> map (\<lambda>index. (index, BError (OpenFile path reason))) reads)"

definition sort_reads_by_offset :: "(nat \<times> nat) list \<Rightarrow> (nat \<times> nat) list" where
  "sort_reads_by_offset reads = sort_key snd reads"

definition sort_keyed_reads_by_offset :: "(nat \<times> nat \<times> bytes) list \<Rightarrow> (nat \<times> nat \<times> bytes) list" where
  "sort_keyed_reads_by_offset reads = sort_key (\<lambda>(_, offset, _). offset) reads"

definition read_plain :: "crc_fn \<Rightarrow> os_file \<Rightarrow> nat \<Rightarrow> batch_read_value" where
  "read_plain crc f offset =
     (case pread_record crc f offset of
        Inr (Some record) \<Rightarrow> (case rvalue record of Some v \<Rightarrow> BValue v | None \<Rightarrow> BNil)
      | Inr None \<Rightarrow> BNil
      | Inl e \<Rightarrow> BError (ReadFailed e))"

definition read_keyed :: "crc_fn \<Rightarrow> os_file \<Rightarrow> nat \<times> bytes \<Rightarrow> batch_read_value" where
  "read_keyed crc f = (\<lambda>(offset, expected_key).
     case pread_value_for_key crc f offset expected_key of
       Inr (Some val) \<Rightarrow> (case val of Some v \<Rightarrow> BValue v | None \<Rightarrow> BNil)
     | Inr None \<Rightarrow> BNil
     | Inl e \<Rightarrow> BError (ReadFailed e))"

definition pread_batch_for_path ::
  "crc_fn \<Rightarrow> file_system \<Rightarrow> string \<Rightarrow> (nat \<times> nat) list \<Rightarrow> (nat \<times> batch_read_value) list" where
  "pread_batch_for_path crc fs path reads =
     (case fs path of
        Inl e \<Rightarrow> open_error_results path e (map fst reads)
      | Inr f \<Rightarrow> map (\<lambda>(index, offset). (index, read_plain crc f offset)) (sort_reads_by_offset reads))"

definition pread_batch_for_path_keyed ::
  "crc_fn \<Rightarrow> file_system \<Rightarrow> string \<Rightarrow> (nat \<times> nat \<times> bytes) list \<Rightarrow> (nat \<times> batch_read_value) list" where
  "pread_batch_for_path_keyed crc fs path reads =
     (case fs path of
        Inl e \<Rightarrow> open_error_results path e (map fst reads)
      | Inr f \<Rightarrow> map (\<lambda>(index, read). (index, read_keyed crc f read)) (sort_keyed_reads_by_offset reads))"

fun apply_grouped_pread_results :: "batch_read_value list \<Rightarrow> (nat \<times> batch_read_value) list \<Rightarrow> batch_read_value list" where
  "apply_grouped_pread_results vals [] = vals"
| "apply_grouped_pread_results vals ((index, v) # results) =
     apply_grouped_pread_results (if index < length vals then vals[index := v] else vals) results"

fun read_groups ::
  "(string \<Rightarrow> (nat \<times> 'a) list \<Rightarrow> (nat \<times> batch_read_value) list) \<Rightarrow> (string \<times> (nat \<times> 'a) list) list
     \<Rightarrow> batch_read_value list \<Rightarrow> batch_read_value list" where
  "read_groups read_path [] vals = vals"
| "read_groups read_path ((path, reads) # groups) vals =
     read_groups read_path groups (apply_grouped_pread_results vals (read_path path reads))"

fun add_read :: "string \<Rightarrow> nat \<times> nat \<Rightarrow> (string \<times> (nat \<times> nat) list) list \<Rightarrow> (string \<times> (nat \<times> nat) list) list" where
  "add_read path read [] = [(path, [read])]"
| "add_read path read ((p, reads) # groups) =
     (if p = path then (p, reads @ [read]) # groups else (p, reads) # add_read path read groups)"

fun group_from :: "nat \<Rightarrow> (string \<times> nat) list \<Rightarrow> (string \<times> (nat \<times> nat) list) list \<Rightarrow> (string \<times> (nat \<times> nat) list) list" where
  "group_from index [] groups = groups"
| "group_from index ((path, offset) # locations) groups =
     group_from (Suc index) locations (add_read path (index, offset) groups)"

type_synonym group_order = "(string \<times> (nat \<times> nat) list) list \<Rightarrow> (string \<times> (nat \<times> nat) list) list"

definition group_pread_locations :: "group_order \<Rightarrow> (string \<times> nat) list \<Rightarrow> nat \<times> (string \<times> (nat \<times> nat) list) list" where
  "group_pread_locations order locations = (length locations, order (group_from 0 locations []))"

definition pread_batch_grouped ::
  "crc_fn \<Rightarrow> file_system \<Rightarrow> group_order \<Rightarrow> (string \<times> nat) list \<Rightarrow> batch_read_value list" where
  "pread_batch_grouped crc fs order locations =
     (let (num_reads, groups) = group_pread_locations order locations in
      read_groups (pread_batch_for_path crc fs) groups (replicate num_reads BNil))"

text \<open>The work of \<^verbatim>\<open>v2_pread_batch_path_async\<close>, \<^verbatim>\<open>v2_pread_batch_path_key_async\<close>,
  \<^verbatim>\<open>v2_pread_batch_grouped_async\<close> and \<^verbatim>\<open>v2_pread_batch_grouped_key_async\<close>.\<close>

definition pread_batch_path :: "crc_fn \<Rightarrow> file_system \<Rightarrow> string \<Rightarrow> nat list \<Rightarrow> batch_read_value list" where
  "pread_batch_path crc fs path offsets =
     apply_grouped_pread_results (replicate (length offsets) BNil)
       (pread_batch_for_path crc fs path (enumerate 0 offsets))"

definition pread_batch_path_key :: "crc_fn \<Rightarrow> file_system \<Rightarrow> string \<Rightarrow> (nat \<times> bytes) list \<Rightarrow> batch_read_value list" where
  "pread_batch_path_key crc fs path reads =
     apply_grouped_pread_results (replicate (length reads) BNil)
       (pread_batch_for_path_keyed crc fs path (enumerate 0 reads))"

definition pread_groups ::
  "crc_fn \<Rightarrow> file_system \<Rightarrow> (string \<times> (nat \<times> nat) list) list \<Rightarrow> group_error + batch_read_value list" where
  "pread_groups crc fs groups =
     bind_res (validate_grouped_pread_groups groups) (\<lambda>num_reads.
     Inr (read_groups (pread_batch_for_path crc fs) groups (replicate num_reads BNil)))"

definition pread_groups_key ::
  "crc_fn \<Rightarrow> file_system \<Rightarrow> (string \<times> (nat \<times> nat \<times> bytes) list) list \<Rightarrow> group_error + batch_read_value list" where
  "pread_groups_key crc fs groups =
     bind_res (validate_grouped_keyed_pread_groups groups) (\<lambda>num_reads.
     Inr (read_groups (pread_batch_for_path_keyed crc fs) groups (replicate num_reads BNil)))"

text \<open>The synchronous \<^verbatim>\<open>v2_pread_batch\<close>: the first failing read, in offset order, fails the
  batch.  Its sort is unstable, but reads at equal offsets have equal outcomes.\<close>

datatype pread_batch_error = BatchOpen open_error | BatchRead log_error

fun read_sorted ::
  "crc_fn \<Rightarrow> os_file \<Rightarrow> (nat \<times> nat) list \<Rightarrow> bytes option option list \<Rightarrow> pread_batch_error + bytes option option list" where
  "read_sorted crc f [] slot_results = Inr slot_results"
| "read_sorted crc f ((orig_idx, offset) # reads) slot_results =
     (case pread_record crc f offset of
        Inr m \<Rightarrow> read_sorted crc f reads (slot_results[orig_idx := Some (Option.bind m rvalue)])
      | Inl e \<Rightarrow> Inl (BatchRead e))"

definition v2_pread_batch :: "crc_fn \<Rightarrow> file_system \<Rightarrow> string \<Rightarrow> nat list \<Rightarrow> pread_batch_error + bytes option list" where
  "v2_pread_batch crc fs path locations =
     (case fs path of
        Inr f \<Rightarrow> bind_res (read_sorted crc f (sort_key snd (enumerate 0 locations)) (replicate (length locations) None))
                   (\<lambda>slot_results. Inr (map (\<lambda>t. case t of Some v \<Rightarrow> v | None \<Rightarrow> None) slot_results))
      | Inl e \<Rightarrow> Inl (BatchOpen e))"

section \<open>One read on its own\<close>

text \<open>What a batch promises for each of its locations: the answer of opening the file and
  reading that location alone.\<close>

definition opened :: "file_system \<Rightarrow> string \<Rightarrow> (os_file \<Rightarrow> batch_read_value) \<Rightarrow> batch_read_value" where
  "opened fs path rd =
     (case fs path of
        Inl NoEntry \<Rightarrow> BError (MissingFile path)
      | Inl (OpenFailed reason) \<Rightarrow> BError (OpenFile path reason)
      | Inr f \<Rightarrow> rd f)"

abbreviation read_location :: "crc_fn \<Rightarrow> file_system \<Rightarrow> string \<Rightarrow> nat \<Rightarrow> batch_read_value" where
  "read_location crc fs path offset \<equiv> opened fs path (\<lambda>f. read_plain crc f offset)"

abbreviation read_key_location :: "crc_fn \<Rightarrow> file_system \<Rightarrow> string \<Rightarrow> nat \<times> bytes \<Rightarrow> batch_read_value" where
  "read_key_location crc fs path read \<equiv> opened fs path (\<lambda>f. read_keyed crc f read)"

text \<open>All reads of a list of groups, and the indexes they answer.\<close>

definition flat :: "(string \<times> (nat \<times> 'a) list) list \<Rightarrow> (string \<times> nat \<times> 'a) list" where
  "flat groups = concat (map (\<lambda>(path, reads). map (Pair path) reads) groups)"

definition indexes :: "(string \<times> (nat \<times> 'a) list) list \<Rightarrow> nat list" where
  "indexes groups = map (\<lambda>r. fst (snd r)) (flat groups)"

lemma flat_simps [simp]:
  "flat [] = []" "flat ((path, reads) # groups) = map (Pair path) reads @ flat groups"
  by (simp_all add: flat_def)

lemma indexes_simps [simp]:
  "indexes [] = []" "indexes ((path, reads) # groups) = map fst reads @ indexes groups"
  by (simp_all add: indexes_def comp_def case_prod_beta)

lemma mem_flat: "(path, read) \<in> set (flat groups) \<longleftrightarrow> (\<exists>reads. (path, reads) \<in> set groups \<and> read \<in> set reads)"
  by (auto simp: flat_def)

section \<open>Putting answers back\<close>

lemma length_apply_results [simp]: "length (apply_grouped_pread_results vals results) = length vals"
  by (induction vals results rule: apply_grouped_pread_results.induct) auto

lemma apply_results_append [simp]:
  "apply_grouped_pread_results vals (a @ b) = apply_grouped_pread_results (apply_grouped_pread_results vals a) b"
  by (induction vals a rule: apply_grouped_pread_results.induct) auto

lemma apply_results_other:
  "i \<notin> fst ` set results \<Longrightarrow> apply_grouped_pread_results vals results ! i = vals ! i"
  by (induction vals results rule: apply_grouped_pread_results.induct) auto

lemma apply_results_nth:
  assumes "distinct (map fst results)" "(i, v) \<in> set results" "i < length vals"
  shows "apply_grouped_pread_results vals results ! i = v"
  using assms
proof (induction vals results rule: apply_grouped_pread_results.induct)
  case (2 vals index w results)
  then show ?case
    by (cases "i = index") (auto simp: apply_results_other image_iff)
qed simp

lemma read_groups_flat:
  "read_groups rd groups vals =
     apply_grouped_pread_results vals (concat (map (\<lambda>(path, reads). rd path reads) groups))"
  by (induction rd groups vals rule: read_groups.induct) auto

section \<open>Validation of caller-supplied groups\<close>

lemma mark_reads_append:
  "mark_reads n (a @ b) seen = bind_res (mark_reads n a seen) (mark_reads n b)"
  by (induction n a seen rule: mark_reads.induct) auto

lemma mark_groups_flat: "mark_groups n groups seen = mark_reads n (concat (map snd groups)) seen"
proof (induction n groups seen rule: mark_groups.induct)
  case (2 n p reads groups seen)
  then show ?case
    by (cases "mark_reads n reads seen") (simp_all add: mark_reads_append)
qed simp

lemma mark_reads_ok:
  "length seen = n \<Longrightarrow> (\<exists>s. mark_reads n reads seen = Inr s) \<longleftrightarrow>
     distinct (map fst reads) \<and> (\<forall>i \<in> fst ` set reads. i < n \<and> \<not> seen ! i)"
proof (induction n reads seen rule: mark_reads.induct)
  case (2 n index x reads seen)
  show ?case
  proof (cases "index \<ge> n \<or> seen ! index")
    case False
    with 2 have "(\<exists>s. mark_reads n reads (seen[index := True]) = Inr s) \<longleftrightarrow>
        distinct (map fst reads) \<and> (\<forall>i \<in> fst ` set reads. i < n \<and> \<not> seen[index := True] ! i)"
      by simp
    with False 2(2) show ?thesis by (auto simp: nth_list_update)
  qed auto
qed simp

lemma indexes_concat: "indexes groups = map fst (concat (map snd groups))"
  by (induction groups) auto

lemma valid_groups:
  "(\<exists>s. mark_groups (length (indexes groups)) groups (replicate (length (indexes groups)) False) = Inr s) \<longleftrightarrow>
     distinct (indexes groups) \<and> set (indexes groups) = {..<length (indexes groups)}"
proof -
  have fresh: "(\<forall>i \<in> A. i < n \<and> \<not> replicate n False ! i) \<longleftrightarrow> A \<subseteq> {..<n}" for A n
    by auto
  have "set (indexes groups) = {..<length (indexes groups)}"
    if "distinct (indexes groups)" "set (indexes groups) \<subseteq> {..<length (indexes groups)}"
    using that by (intro card_subset_eq) (simp_all add: distinct_card)
  then show ?thesis
    unfolding mark_groups_flat mark_reads_ok [OF length_replicate] fresh
    by (auto simp: indexes_concat)
qed

lemma num_reads: "sum_list (map (\<lambda>(_, reads). length reads) groups) = length (indexes groups)"
  by (induction groups) auto

definition covers :: "(string \<times> (nat \<times> 'a) list) list \<Rightarrow> nat \<Rightarrow> bool" where
  "covers groups n \<longleftrightarrow> distinct (indexes groups) \<and> set (indexes groups) = {..<n}"

lemma covers_length: "covers groups n \<Longrightarrow> n = length (indexes groups)"
  unfolding covers_def by (metis card_lessThan distinct_card)

lemma mark_covers:
  "bind_res (mark_groups (length (indexes groups)) groups (replicate (length (indexes groups)) False))
     (\<lambda>_. Inr (length (indexes groups))) = Inr n \<longleftrightarrow> covers groups n"
proof -
  have "covers groups n \<longleftrightarrow> n = length (indexes groups) \<and> covers groups (length (indexes groups))"
    using covers_length [of groups n] by blast
  then show ?thesis
    unfolding covers_def valid_groups [symmetric] bind_res_Inr by auto
qed

lemma validate_Inr:
  "validate_grouped_pread_groups groups = Inr n \<longleftrightarrow> covers groups n"
  "validate_grouped_keyed_pread_groups kgroups = Inr n \<longleftrightarrow> covers kgroups n"
  unfolding validate_grouped_pread_groups_def validate_grouped_keyed_pread_groups_def Let_def num_reads
  by (rule mark_covers)+

section \<open>Reading groups\<close>

locale path_reader =
  fixes read_path :: "string \<Rightarrow> (nat \<times> 'a) list \<Rightarrow> (nat \<times> batch_read_value) list"
    and read_one :: "string \<Rightarrow> 'a \<Rightarrow> batch_read_value"
  assumes mset_read_path:
    "mset (read_path path reads) = mset (map (\<lambda>(index, x). (index, read_one path x)) reads)"
begin

lemma mset_answers:
  "mset (concat (map (\<lambda>(path, reads). read_path path reads) groups)) =
     mset (map (\<lambda>(path, index, x). (index, read_one path x)) (flat groups))"
  by (induction groups) (auto simp: mset_read_path multiset.map_comp comp_def)

lemma set_answers:
  "(path, index, x) \<in> set (flat groups) \<Longrightarrow>
     (index, read_one path x) \<in> set (concat (map (\<lambda>(path, reads). read_path path reads) groups))"
  unfolding mset_eq_setD [OF mset_answers] by force

lemma answer_indexes:
  "mset (map fst (concat (map (\<lambda>(path, reads). read_path path reads) groups))) = mset (indexes groups)"
  unfolding mset_map [of fst] mset_answers by (simp add: indexes_def multiset.map_comp comp_def case_prod_beta)

lemma read_groups_nth:
  assumes "distinct (indexes groups)" "(path, index, x) \<in> set (flat groups)" "index < length vals"
  shows "read_groups read_path groups vals ! index = read_one path x"
  unfolding read_groups_flat
  using assms set_answers mset_eq_imp_distinct_iff [OF answer_indexes, of groups]
  by (intro apply_results_nth) blast+

lemma length_read_groups: "length (read_groups read_path groups vals) = length vals"
  by (simp add: read_groups_flat)

lemma valid_groups_answer:
  assumes "\<And>n. valid = Inr n \<longleftrightarrow> covers groups n"
  shows "case bind_res valid (\<lambda>n. Inr (read_groups read_path groups (replicate n BNil))) of
     Inr vals \<Rightarrow> covers groups (length vals) \<and>
       (\<forall>(path, index, x) \<in> set (flat groups). vals ! index = read_one path x)
   | Inl _ \<Rightarrow> \<not> (\<exists>n. covers groups n)"
proof (cases valid)
  case (Inr n)
  with assms have n: "covers groups n" by blast
  then have "index < n" if "(path, index, x) \<in> set (flat groups)" for path index x
    using that by (force simp: indexes_def covers_def)
  with n Inr show ?thesis
    by (auto simp: length_read_groups read_groups_nth covers_def)
next
  case (Inl e)
  with assms have "\<not> covers groups n" for n by (metis sum.distinct(1))
  with Inl show ?thesis by simp
qed

lemma read_locations:
  assumes "mset (flat groups) = mset (map (\<lambda>(index, path, x). (path, index, x)) (enumerate 0 locations))"
  shows "read_groups read_path groups (replicate (length locations) BNil) =
    map (\<lambda>(path, x). read_one path x) locations"
proof (rule nth_equalityI)
  fix i assume "i < length (read_groups read_path groups (replicate (length locations) BNil))"
  then have i: "i < length locations" by (simp add: length_read_groups)
  obtain path x where l: "locations ! i = (path, x)" by fastforce
  have "map (\<lambda>r. fst (snd r)) (map (\<lambda>(index, path, x). (path, index, x)) (enumerate 0 locations))
      = [0..<length locations]"
    using map_fst_enumerate [of 0 locations] by (simp add: comp_def case_prod_beta)
  then have "mset (indexes groups) = mset [0..<length locations]"
    using arg_cong [OF assms, of "image_mset (\<lambda>r. fst (snd r))"]
    unfolding indexes_def mset_map [symmetric] by simp
  then have "distinct (indexes groups)"
    using mset_eq_imp_distinct_iff [of "indexes groups" "[0..<length locations]"] by simp
  moreover have "(path, i, x) \<in> set (flat groups)"
    unfolding mset_eq_setD [OF assms] using i l
    by (auto simp: in_set_enumerate_eq image_iff intro!: bexI [of _ "(i, path, x)"])
  ultimately show "read_groups read_path groups (replicate (length locations) BNil) ! i =
      map (\<lambda>(path, x). read_one path x) locations ! i"
    using i l by (simp add: read_groups_nth)
qed (simp add: length_read_groups)

lemma read_single_path:
  "apply_grouped_pread_results (replicate (length xs) BNil) (read_path path (enumerate 0 xs)) = map (read_one path) xs"
  using read_locations [of "[(path, enumerate 0 xs)]" "map (Pair path) xs"]
  by (simp add: comp_def case_prod_beta enumerate_eq_zip zip_map2)

end

interpretation plain: path_reader "pread_batch_for_path crc fs" "read_location crc fs" for crc fs
proof
  fix path and reads :: "(nat \<times> nat) list"
  show "mset (pread_batch_for_path crc fs path reads) =
      mset (map (\<lambda>(index, x). (index, read_location crc fs path x)) reads)"
    by (simp add: pread_batch_for_path_def opened_def open_error_results_def missing_file_results_def
        sort_reads_by_offset_def multiset.map_comp comp_def case_prod_unfold split: sum.splits open_error.splits)
qed

interpretation keyed: path_reader "pread_batch_for_path_keyed crc fs" "read_key_location crc fs" for crc fs
proof
  fix path and reads :: "(nat \<times> nat \<times> bytes) list"
  show "mset (pread_batch_for_path_keyed crc fs path reads) =
      mset (map (\<lambda>(index, x). (index, read_key_location crc fs path x)) reads)"
    by (simp add: pread_batch_for_path_keyed_def opened_def open_error_results_def missing_file_results_def
        sort_keyed_reads_by_offset_def multiset.map_comp comp_def case_prod_unfold
        split: sum.splits open_error.splits)
qed

lemma flat_add_read: "mset (flat (add_read path r groups)) = add_mset (path, r) (mset (flat groups))"
  by (induction path r groups rule: add_read.induct) auto

lemma flat_group_from:
  "mset (flat (group_from k locations groups)) =
     mset (flat groups) + mset (map (\<lambda>(index, path, x). (path, index, x)) (enumerate k locations))"
  by (induction k locations groups rule: group_from.induct) (auto simp: flat_add_read)

lemma flat_cong:
  assumes "mset groups = mset groups'"
  shows "mset (flat groups) = mset (flat groups')"
proof -
  have "mset (flat gs) = \<Sum>\<^sub># (image_mset (\<lambda>(path, reads). image_mset (Pair path) (mset reads)) (mset gs))"
    for gs :: "(string \<times> (nat \<times> 'a) list) list"
    by (induction gs) auto
  with assms show ?thesis by simp
qed

section \<open>The synchronous batch\<close>

lemma read_sorted_Inr:
  "read_sorted crc f reads slots = Inr slots' \<longleftrightarrow>
     (\<forall>r \<in> set reads. \<exists>m. pread_record crc f (snd r) = Inr m) \<and>
     slots' = fold (\<lambda>r s. s[fst r := Some (Option.bind (case pread_record crc f (snd r) of Inr m \<Rightarrow> m | Inl _ \<Rightarrow> None) rvalue)])
       reads slots"
  by (induction crc f reads slots rule: read_sorted.induct) (auto split: sum.splits)

lemma fold_update_other:
  "i \<notin> fst ` set rs \<Longrightarrow> fold (\<lambda>r s. s[fst r := g r]) rs s ! i = s ! i"
  by (induction rs arbitrary: s) auto

lemma length_fold_update [simp]: "length (fold (\<lambda>r s. s[fst r := g r]) rs s) = length s"
  by (induction rs arbitrary: s) auto

lemma fold_update_nth:
  "distinct (map fst rs) \<Longrightarrow> r \<in> set rs \<Longrightarrow> fst r < length s \<Longrightarrow> fold (\<lambda>r s. s[fst r := g r]) rs s ! fst r = g r"
  by (induction rs arbitrary: s) (auto simp: fold_update_other)

lemma fold_update_sorted:
  "fold (\<lambda>r s. s[fst r := g (snd r)]) (sort_key snd (enumerate 0 xs)) (replicate (length xs) d) = map g xs"
proof (rule nth_equalityI)
  fix i assume "i < length (fold (\<lambda>r s. s[fst r := g (snd r)]) (sort_key snd (enumerate 0 xs)) (replicate (length xs) d))"
  then have i: "i < length xs" by simp
  have "distinct (map fst (sort_key snd (enumerate 0 xs)))"
  proof -
    have "mset (map fst (sort_key snd (enumerate 0 xs))) = mset (map fst (enumerate 0 xs))"
      by (simp only: mset_map mset_sort)
    from mset_eq_imp_distinct_iff [OF this] show ?thesis
      unfolding map_fst_enumerate by simp
  qed
  from fold_update_nth [OF this, of "(i, xs ! i)" "replicate (length xs) d" "\<lambda>r. g (snd r)"] i
  show "fold (\<lambda>r s. s[fst r := g (snd r)]) (sort_key snd (enumerate 0 xs)) (replicate (length xs) d) ! i = map g xs ! i"
    by (simp add: in_set_enumerate_eq)
qed simp

lemma v2_pread_batch_Inr:
  "v2_pread_batch crc fs path locations = Inr vals \<longleftrightarrow>
     (\<exists>f. fs path = Inr f \<and> (\<forall>offset \<in> set locations. \<exists>m. pread_record crc f offset = Inr m) \<and>
       vals = map (\<lambda>offset. Option.bind (case pread_record crc f offset of Inr m \<Rightarrow> m | Inl _ \<Rightarrow> None) rvalue) locations)"
proof -
  have all: "(\<forall>r \<in> set (sort_key snd (enumerate 0 locations)). P (snd r)) \<longleftrightarrow> (\<forall>offset \<in> set locations. P offset)" for P
    by (simp add: in_set_enumerate_eq Ball_def) (metis in_set_conv_nth)
  show ?thesis
  proof (cases "fs path")
    case (Inr f)
    let ?g = "\<lambda>offset. Option.bind (case pread_record crc f offset of Inr m \<Rightarrow> m | Inl _ \<Rightarrow> None) rvalue"
    show ?thesis
      using fold_update_sorted [of "\<lambda>offset. Some (?g offset)" locations None]
        all [of "\<lambda>offset. \<exists>m. pread_record crc f offset = Inr m"]
      by (auto simp add: v2_pread_batch_def Inr bind_res_Inr read_sorted_Inr comp_def simp del: set_sort)
  qed (simp add: v2_pread_batch_def)
qed

section \<open>Properties\<close>

text \<open>C34.  A batch is its reads: whatever order the hash map hands the files out in, and although
  each file's reads are run by ascending offset, a batch of locations over many files, a batch of
  offsets in one file and a batch of keyed reads in one file answer, at each position, exactly
  what reading that location alone answers.  The synchronous batch succeeds exactly when the file
  opens and no read fails, and then lists the values (nothing for a deletion or a location at
  the end of the file) in the caller's order.\<close>

theorem batch_reads_exact:
  assumes "\<And>gs. mset (order gs) = mset gs"
  shows "pread_batch_grouped crc fs order locations = map (\<lambda>(path, offset). read_location crc fs path offset) locations \<and>
    pread_batch_path crc fs path offsets = map (read_location crc fs path) offsets \<and>
    pread_batch_path_key crc fs path reads = map (read_key_location crc fs path) reads \<and>
    (v2_pread_batch crc fs path offsets = Inr vals \<longleftrightarrow>
      (\<exists>f. fs path = Inr f \<and> (\<forall>offset \<in> set offsets. \<exists>m. pread_record crc f offset = Inr m) \<and>
        vals = map (\<lambda>offset. Option.bind (case pread_record crc f offset of Inr m \<Rightarrow> m | Inl _ \<Rightarrow> None) rvalue) offsets))"
proof (intro conjI)
  have "mset (flat (order (group_from 0 locations []))) =
      mset (map (\<lambda>(index, path, x). (path, index, x)) (enumerate 0 locations))"
    using flat_cong [OF assms] by (simp add: flat_group_from)
  then show "pread_batch_grouped crc fs order locations = map (\<lambda>(path, offset). read_location crc fs path offset) locations"
    unfolding pread_batch_grouped_def group_pread_locations_def Let_def prod.case by (rule plain.read_locations)
  show "pread_batch_path crc fs path offsets = map (read_location crc fs path) offsets"
    unfolding pread_batch_path_def by (rule plain.read_single_path)
  show "pread_batch_path_key crc fs path reads = map (read_key_location crc fs path) reads"
    unfolding pread_batch_path_key_def by (rule keyed.read_single_path)
qed (rule v2_pread_batch_Inr)

definition sample_fs :: file_system where
  "sample_fs path = (if path = ''a'' then Inr (good_file (frame_bytes sum_crc sample_record)) else Inl NoEntry)"

lemma sample_location: "read_location sum_crc sample_fs ''a'' 0 = BValue [118, 119]"
proof -
  have "pread_record sum_crc (good_file (frame_bytes sum_crc sample_record)) 0 = Inr (Some sample_record)"
    by (subst pread_record_Some) (simp_all add: U64_MAX_def)
  then show ?thesis by (simp add: opened_def sample_fs_def read_plain_def sample_record_def)
qed

lemma missing_location: "read_location sum_crc sample_fs ''b'' n = BError (MissingFile ''b'')"
  by (simp add: opened_def sample_fs_def)

theorem batch_reads_exact_witness:
  "pread_batch_grouped sum_crc sample_fs rev [(''a'', 0), (''b'', 7), (''a'', 0)] =
     [BValue [118, 119], BError (MissingFile ''b''), BValue [118, 119]]"
  using conjunct1 [OF batch_reads_exact [of rev sum_crc sample_fs "[(''a'', 0), (''b'', 7), (''a'', 0)]"]]
  by (simp add: sample_location missing_location)

text \<open>C35.  Groups supplied by the caller are answered only when their indexes are exactly
  0, ..., n - 1, each once; a batch with a repeated, missing or out-of-range index is refused as a
  whole.  When it is answered, every index holds the answer of its own location, read alone.
  The same holds for keyed groups.\<close>

theorem grouped_reads_exact:
  "(case pread_groups crc fs groups of
      Inr vals \<Rightarrow> covers groups (length vals) \<and>
        (\<forall>(path, index, offset) \<in> set (flat groups). vals ! index = read_location crc fs path offset)
    | Inl _ \<Rightarrow> \<not> (\<exists>n. covers groups n)) \<and>
   (case pread_groups_key crc fs kgroups of
      Inr vals \<Rightarrow> covers kgroups (length vals) \<and>
        (\<forall>(path, index, read) \<in> set (flat kgroups). vals ! index = read_key_location crc fs path read)
    | Inl _ \<Rightarrow> \<not> (\<exists>n. covers kgroups n))"
  unfolding pread_groups_def pread_groups_key_def
  by (intro conjI plain.valid_groups_answer keyed.valid_groups_answer validate_Inr)

theorem grouped_reads_exact_witness:
  "pread_groups sum_crc sample_fs [(''b'', [(1, 7)]), (''a'', [(0, 0)])] = Inr [BValue [118, 119], BError (MissingFile ''b'')] \<and>
   (\<exists>e. pread_groups sum_crc sample_fs [(''b'', [(1, 7)]), (''a'', [(1, 0)])] = Inl e)"
proof -
  let ?good = "[(''b'', [(1, 7)]), (''a'', [(0, 0)])] :: (string \<times> (nat \<times> nat) list) list"
  have "\<exists>vals. pread_groups sum_crc sample_fs ?good = Inr vals"
    by (simp add: pread_groups_def validate_grouped_pread_groups_def)
  then obtain vals where vals: "pread_groups sum_crc sample_fs ?good = Inr vals" by blast
  then have all: "covers ?good (length vals)" "vals ! 0 = BValue [118, 119]" "vals ! 1 = BError (MissingFile ''b'')"
    using conjunct1 [OF grouped_reads_exact [where crc = sum_crc and fs = sample_fs and groups = ?good]]
      sample_location missing_location by simp_all
  then have "vals = [BValue [118, 119], BError (MissingFile ''b'')]"
    using covers_length [OF all(1)] by (auto simp: numeral_2_eq_2 length_Suc_conv)
  then show ?thesis
    using vals by (simp add: pread_groups_def validate_grouped_pread_groups_def)
qed

end
