(* ===== verification/Key_Scans.thy ===== *)
theory Key_Scans
  imports Log_Scan Batch_Reads
begin

text \<open>
  The scans of a data file that recovery and compaction use (\<^verbatim>\<open>sections/part_02.rs\<close>): the
  tombstones of a page of records, and the newest state of a set of keys.  Both verify the
  checksum of every record they pass and stop at the first record that is not complete.
  \<open>frames_from\<close> is the run of frames such a scan passes.
\<close>

section \<open>Definitions\<close>

datatype scan_error =
    HeaderEof | KeyEof | ValueEof | ScanIo | Undecodable log_error | OffsetOverflow
  | ScanCrcMismatch u32 u32 | StartPastEnd nat nat | MaxNotPositive | MaxTooLarge | CannotOpen open_error

record tombstone_scan_record =
  t_key :: bytes
  t_offset :: nat
  t_record_size :: nat
  t_expire_at_ms :: u64

definition SCAN_VALUE_HASH_CHUNK_SIZE :: nat where
  "SCAN_VALUE_HASH_CHUNK_SIZE = 64 * 1024"

definition MAX_TOMBSTONE_SCAN_PAGE_RECORDS :: nat where
  "MAX_TOMBSTONE_SCAN_PAGE_RECORDS = 65536"

definition scan_exact :: "os_file \<Rightarrow> nat \<Rightarrow> nat \<Rightarrow> scan_error \<Rightarrow> scan_error + bytes" where
  "scan_exact f p n eof =
     (case read_full f p n of Full bs \<Rightarrow> Inr bs | Eof _ \<Rightarrow> Inl eof | IoFail \<Rightarrow> Inl ScanIo)"

function read_value_into_crc :: "os_file \<Rightarrow> nat \<Rightarrow> bytes \<Rightarrow> nat \<Rightarrow> scan_error + bytes" where
  "read_value_into_crc f p hasher remaining =
     (if remaining > 0 then
        let read_len = min remaining SCAN_VALUE_HASH_CHUNK_SIZE in
        bind_res (scan_exact f p read_len ValueEof) (\<lambda>chunk.
        read_value_into_crc f (p + read_len) (hasher @ chunk) (remaining - read_len))
      else Inr hasher)"
  by pat_completeness auto
termination
  by (relation "measure (\<lambda>(f, p, hasher, remaining). remaining)") (auto simp: SCAN_VALUE_HASH_CHUNK_SIZE_def)

definition scan_decoded :: "u32 \<Rightarrow> bool \<Rightarrow> scan_error + nat" where
  "scan_decoded value_size_raw is_tombstone =
     (case decoded_value_size value_size_raw is_tombstone of Inl e \<Rightarrow> Inl (Undecodable e) | Inr n \<Rightarrow> Inr n)"

text \<open>One turn of the loop of \<^verbatim>\<open>scan_tombstones_from_reader\<close>: the tombstone, if the record is one, and
  the next offset.\<close>

definition tombstone_step :: "crc_fn \<Rightarrow> os_file \<Rightarrow> nat \<Rightarrow> scan_error + (tombstone_scan_record option \<times> nat)" where
  "tombstone_step crc f offset =
     bind_res (scan_exact f offset HEADER_SIZE HeaderEof) (\<lambda>header.
     let h = parse_header header; is_tombstone = (h_value_size_raw h = TOMBSTONE) in
     bind_res (scan_decoded (h_value_size_raw h) is_tombstone) (\<lambda>value_size.
     bind_res (scan_exact f (offset + HEADER_SIZE) (h_key_size h) KeyEof) (\<lambda>key.
     let hasher = drop 4 header @ key in
     if is_tombstone then
       let actual_crc = crc hasher in
       if actual_crc \<noteq> h_crc h then Inl (ScanCrcMismatch (h_crc h) actual_crc)
       else let record_size = HEADER_SIZE + length key in
         bind_res (ok_or (checked_add64 offset record_size) OffsetOverflow) (\<lambda>next_offset.
         Inr (Some \<lparr>t_key = key, t_offset = offset, t_record_size = record_size,
                    t_expire_at_ms = h_expire_at_ms h\<rparr>, next_offset))
     else
       bind_res (ok_or (Option.bind (checked_add64 HEADER_SIZE (h_key_size h)) (\<lambda>size. checked_add64 size value_size))
                   OffsetOverflow) (\<lambda>record_size.
       bind_res (ok_or (checked_add64 offset record_size) OffsetOverflow) (\<lambda>next_offset.
       if next_offset > file_len f then Inl ValueEof
       else
       bind_res (read_value_into_crc f (offset + HEADER_SIZE + h_key_size h) hasher value_size) (\<lambda>hasher.
       let actual_crc = crc hasher in
       if actual_crc \<noteq> h_crc h then Inl (ScanCrcMismatch (h_crc h) actual_crc)
       else Inr (None, next_offset)))))))"

function scan_tombstones_from_reader ::
  "crc_fn \<Rightarrow> os_file \<Rightarrow> nat \<Rightarrow> nat \<Rightarrow> tombstone_scan_record list \<Rightarrow> nat
     \<Rightarrow> scan_error + (tombstone_scan_record list \<times> nat \<times> bool)" where
  "scan_tombstones_from_reader crc f offset max_records results scanned_records =
     (if offset < file_len f \<and> scanned_records < max_records then
        bind_res (tombstone_step crc f offset) (\<lambda>(tombstone, next_offset).
        scan_tombstones_from_reader crc f next_offset max_records
          (results @ (case tombstone of Some t \<Rightarrow> [t] | None \<Rightarrow> [])) (scanned_records + 1))
      else Inr (results, offset, offset = file_len f))"
  by pat_completeness auto
termination
  by (relation "measure (\<lambda>(crc, f, offset, max_records, results, scanned). max_records - scanned)") auto

definition open_tombstone_scan ::
  "crc_fn \<Rightarrow> file_system \<Rightarrow> string \<Rightarrow> nat \<Rightarrow> nat \<Rightarrow> scan_error + (tombstone_scan_record list \<times> nat \<times> bool)" where
  "open_tombstone_scan crc fs path start_offset max_records =
     (case fs path of
        Inl e \<Rightarrow> Inl (CannotOpen e)
      | Inr f \<Rightarrow>
          if start_offset > file_len f then Inl (StartPastEnd start_offset (file_len f))
          else scan_tombstones_from_reader crc f start_offset max_records [] 0)"

definition scan_tombstones_page_from_path ::
  "crc_fn \<Rightarrow> file_system \<Rightarrow> string \<Rightarrow> nat \<Rightarrow> nat \<Rightarrow> scan_error + (tombstone_scan_record list \<times> nat \<times> bool)" where
  "scan_tombstones_page_from_path crc fs path start_offset max_records =
     (if max_records = 0 then Inl MaxNotPositive
      else if max_records > MAX_TOMBSTONE_SCAN_PAGE_RECORDS then Inl MaxTooLarge
      else open_tombstone_scan crc fs path start_offset max_records)"

text \<open>One turn of the loop of \<^verbatim>\<open>scan_key_states_from_path\<close>: the key, its expiry, whether it is deleted,
  and the next offset.\<close>

definition key_state_step :: "crc_fn \<Rightarrow> os_file \<Rightarrow> nat \<Rightarrow> scan_error + (bytes \<times> u64 \<times> bool \<times> nat)" where
  "key_state_step crc f offset =
     bind_res (scan_exact f offset HEADER_SIZE HeaderEof) (\<lambda>header.
     let h = parse_header header; is_tombstone = (h_value_size_raw h = TOMBSTONE) in
     bind_res (scan_decoded (h_value_size_raw h) is_tombstone) (\<lambda>value_size.
     bind_res (scan_exact f (offset + HEADER_SIZE) (h_key_size h) KeyEof) (\<lambda>key.
     let record_size = HEADER_SIZE + h_key_size h + value_size in
     bind_res (ok_or (checked_add64 offset record_size) OffsetOverflow) (\<lambda>next_offset.
     if next_offset > file_len f then Inl ValueEof
     else
     bind_res (read_value_into_crc f (offset + HEADER_SIZE + h_key_size h) (drop 4 header @ key) value_size) (\<lambda>hasher.
     let computed_crc = crc hasher in
     if computed_crc \<noteq> h_crc h then Inl (ScanCrcMismatch (h_crc h) computed_crc)
     else Inr (key, h_expire_at_ms h, is_tombstone, next_offset))))))"

lemma key_state_step_progress:
  "key_state_step crc f offset = Inr (key, e, t, next_offset) \<Longrightarrow> offset < next_offset"
  by (auto simp: key_state_step_def bind_res_Inr Let_def ok_or_Inr checked_add64_Some split: if_splits)

type_synonym key_states = "bytes \<rightharpoonup> u64 \<times> bool"

function key_state_loop :: "crc_fn \<Rightarrow> os_file \<Rightarrow> bytes list \<Rightarrow> nat \<Rightarrow> key_states \<Rightarrow> scan_error + key_states" where
  "key_state_loop crc f targets offset states =
     (if offset < file_len f then
        bind_res (key_state_step crc f offset) (\<lambda>(key, expire_at_ms, is_tombstone, next_offset).
        key_state_loop crc f targets next_offset
          (if key \<in> set targets then states(key \<mapsto> (expire_at_ms, is_tombstone)) else states))
      else Inr states)"
  by pat_completeness auto
termination
  by (relation "measure (\<lambda>(crc, f, targets, offset, states). file_len f - offset)")
    (auto dest: key_state_step_progress)

text \<open>The hash map of states is a map; the order in which its entries are listed is unspecified.\<close>

definition scan_key_states_from_path ::
  "crc_fn \<Rightarrow> file_system \<Rightarrow> string \<Rightarrow> bytes list \<Rightarrow> scan_error + key_states" where
  "scan_key_states_from_path crc fs path masked_keys =
     (if masked_keys = [] then Inr Map.empty
      else case fs path of
             Inl e \<Rightarrow> Inl (CannotOpen e)
           | Inr f \<Rightarrow> key_state_loop crc f masked_keys 0 Map.empty)"

section \<open>One record\<close>

declare read_value_into_crc.simps [simp del] scan_tombstones_from_reader.simps [simp del] key_state_loop.simps [simp del]

lemma scan_exact_Inr: "scan_exact f p n eof = Inr bs \<longleftrightarrow> length bs = n \<and> prefix bs (drop p (readable f))"
  using read_full_Full [of f p n bs] by (auto simp: scan_exact_def split: read_outcome.splits)

lemma scan_decoded_Inr: "scan_decoded raw t = Inr n \<longleftrightarrow> decoded_value_size raw t = Inr n"
  by (auto simp: scan_decoded_def split: sum.splits)

lemma read_value_into_crc_Inr:
  "read_value_into_crc f p hasher n = Inr out \<longleftrightarrow>
     (\<exists>vl. out = hasher @ vl \<and> length vl = n \<and> prefix vl (drop p (readable f)))"
proof (induction f p hasher n arbitrary: rule: read_value_into_crc.induct)
  case (1 f p hasher n)
  show ?case
  proof (cases "n = 0")
    case False
    define c where "c = min n SCAN_VALUE_HASH_CHUNK_SIZE"
    have c: "c \<le> n" by (simp add: c_def)
    have "read_value_into_crc f p hasher n = Inr out \<longleftrightarrow> (\<exists>a b. out = hasher @ a @ b \<and> length a = c \<and>
        prefix a (drop p (readable f)) \<and> length b = n - c \<and> prefix b (drop (p + c) (readable f)))"
    proof -
      have IH: "read_value_into_crc f (p + c) (hasher @ a) (n - c) = Inr out \<longleftrightarrow>
          (\<exists>b. out = (hasher @ a) @ b \<and> length b = n - c \<and> prefix b (drop (p + c) (readable f)))"
        if "length a = c \<and> prefix a (drop p (readable f))" for a
        using "1.IH" [of c a] False that by (simp add: c_def scan_exact_Inr)
      have "read_value_into_crc f p hasher n = Inr out \<longleftrightarrow> (\<exists>a. (length a = c \<and> prefix a (drop p (readable f))) \<and>
          read_value_into_crc f (p + c) (hasher @ a) (n - c) = Inr out)"
        using False unfolding read_value_into_crc.simps [of f p hasher n] c_def [symmetric] Let_def
        by (simp add: bind_res_Inr scan_exact_Inr)
      then show ?thesis using IH by (auto cong: conj_cong)
    qed
    also have "\<dots> \<longleftrightarrow> (\<exists>vl. out = hasher @ vl \<and> length vl = n \<and> prefix vl (drop p (readable f)))"
      (is "?A \<longleftrightarrow> ?B")
    proof
      assume ?A then show ?B using c by (fastforce simp: prefix_chain)
    next
      assume ?B
      then obtain vl where vl: "out = hasher @ take c vl @ drop c vl" "length vl = n"
          "prefix (take c vl @ drop c vl) (drop p (readable f))" by auto
      then show ?A using c
        by (intro exI [of _ "take c vl"] exI [of _ "drop c vl"]) (simp add: prefix_chain del: append_take_drop_id)
    qed
    finally show ?thesis .
  qed (auto simp: read_value_into_crc.simps)
qed

text \<open>Both scans step over exactly the frame of a record.\<close>

definition tombstone_of :: "nat \<Rightarrow> log_record \<Rightarrow> tombstone_scan_record option" where
  "tombstone_of offset r =
     (if rvalue r = None then Some \<lparr>t_key = rkey r, t_offset = offset, t_record_size = 26 + length (rkey r),
                                    t_expire_at_ms = expire_at_ms r\<rparr> else None)"

abbreviation frame_at :: "crc_fn \<Rightarrow> os_file \<Rightarrow> nat \<Rightarrow> log_record \<Rightarrow> bool" where
  "frame_at crc f p r \<equiv> record_ok r \<and> prefix (frame_bytes crc r) (drop p (readable f))"

lemma frame_at_bound: "frame_at crc f p r \<Longrightarrow> p + length (frame_bytes crc r) \<le> length (readable f)"
  using prefix_length_le [of "frame_bytes crc r" "drop p (readable f)"] frame_length_ge [of crc r] by auto

lemma frame_at_unique: "frame_at crc f p r \<Longrightarrow> frame_at crc f p r' \<Longrightarrow> r = r'"
  using read_next_record_frame [of r crc p f] read_next_record_frame [of r' crc p f] by simp

lemma frame_at_parts:
  assumes "frame_at crc f p r"
  shows "scan_exact f p 26 HeaderEof = Inr (frame_header crc r)"
    and "scan_decoded (value_size_field r) (rvalue r = None) = Inr (length (value_bytes r))"
    and "value_size_field r = TOMBSTONE \<longleftrightarrow> rvalue r = None"
    and "scan_exact f (p + 26) (length (rkey r)) KeyEof = Inr (rkey r)"
    and "read_value_into_crc f (p + 26 + length (rkey r)) (drop 4 (frame_header crc r) @ rkey r) (length (value_bytes r))
      = Inr (frame_body r)"
    and "p + (26 + length (rkey r) + length (value_bytes r)) \<le> file_len f"
    and "parse_header (frame_header crc r) =
      \<lparr>h_crc = crc (frame_body r), h_timestamp_ms = timestamp_ms r, h_expire_at_ms = expire_at_ms r,
       h_key_size = length (rkey r), h_value_size_raw = value_size_field r\<rparr>"
proof -
  have "prefix (frame_header crc r) (drop p (readable f))" "prefix (rkey r) (drop (p + 26) (readable f))"
    "prefix (value_bytes r) (drop (p + 26 + length (rkey r)) (readable f))"
    using assms by (auto simp: frame_header_split prefix_chain)
  then show "scan_exact f p 26 HeaderEof = Inr (frame_header crc r)"
    "scan_exact f (p + 26) (length (rkey r)) KeyEof = Inr (rkey r)"
    "read_value_into_crc f (p + 26 + length (rkey r)) (drop 4 (frame_header crc r) @ rkey r) (length (value_bytes r))
      = Inr (frame_body r)"
    by (auto simp: scan_exact_Inr read_value_into_crc_Inr frame_header_def frame_body_def)
  show "scan_decoded (value_size_field r) (rvalue r = None) = Inr (length (value_bytes r))"
    "value_size_field r = TOMBSTONE \<longleftrightarrow> rvalue r = None"
    using decoded_frame_size assms by (auto simp: scan_decoded_Inr)
  show "p + (26 + length (rkey r) + length (value_bytes r)) \<le> file_len f"
    using frame_at_bound [OF assms] length_readable_le [of f] by (simp add: frame_length)
qed (rule parse_frame_header [OF conjunct1 [OF assms]])

lemma key_state_step_Inr:
  assumes "file_len f \<le> U64_MAX"
  shows "key_state_step crc f p = Inr (key, e, t, q) \<longleftrightarrow>
     (\<exists>r. frame_at crc f p r \<and> key = rkey r \<and> e = expire_at_ms r \<and> (t \<longleftrightarrow> rvalue r = None) \<and>
          q = p + length (frame_bytes crc r))" (is "?L \<longleftrightarrow> ?R")
proof
  assume ?L
  then obtain h vl where h: "length h = 26" "prefix h (drop p (readable f))" "length key = h_key_size (parse_header h)"
      "decoded_value_size (h_value_size_raw (parse_header h)) t = Inr (length vl)"
      "prefix key (drop (p + 26) (readable f))" "prefix vl (drop (p + 26 + length key) (readable f))"
      "crc (drop 4 h @ key @ vl) = h_crc (parse_header h)"
    and res: "t \<longleftrightarrow> h_value_size_raw (parse_header h) = TOMBSTONE" "e = h_expire_at_ms (parse_header h)"
      "q = p + (26 + length key + length vl)"
    by (auto simp: key_state_step_def bind_res_Inr Let_def ok_or_Inr checked_add64_Some scan_exact_Inr
        scan_decoded_Inr read_value_into_crc_Inr split: if_splits)
  define r where "r = \<lparr>timestamp_ms = h_timestamp_ms (parse_header h), expire_at_ms = h_expire_at_ms (parse_header h),
      rkey = key, rvalue = (if t then None else Some vl)\<rparr>"
  have "frame_at crc f p r"
    unfolding frame_at_iff using h res by (intro exI [of _ h] exI [of _ vl]) (simp add: r_def)
  moreover have "length (frame_bytes crc r) = 26 + length key + length vl"
    using h(4) by (auto simp: frame_length r_def value_bytes_def split: if_splits)
  ultimately show ?R using res by (intro exI [of _ r]) (simp add: r_def)
next
  assume ?R
  then obtain r where r: "frame_at crc f p r" "key = rkey r" "e = expire_at_ms r" "t \<longleftrightarrow> rvalue r = None"
    "q = p + length (frame_bytes crc r)" by blast
  note parts = frame_at_parts [OF r(1)]
  have "checked_add64 p (26 + length (rkey r) + length (value_bytes r)) = Some q"
    using parts(6) assms r(5) by (simp add: checked_add64_def frame_length)
  then show ?L
    using parts(1-6) r by (simp add: key_state_step_def parts(7) Let_def frame_length)
qed

lemma key_state_step_tuple:
  assumes "file_len f \<le> U64_MAX"
  shows "key_state_step crc f p = Inr x \<longleftrightarrow> (\<exists>r. frame_at crc f p r \<and>
     x = (rkey r, expire_at_ms r, rvalue r = None, p + length (frame_bytes crc r)))"
  using key_state_step_Inr [OF assms, of crc p] by (cases x) (simp add: conj_commute conj_left_commute)

lemma tombstone_step_Inr:
  assumes "file_len f \<le> U64_MAX"
  shows "tombstone_step crc f p = Inr (t, q) \<longleftrightarrow>
     (\<exists>r. frame_at crc f p r \<and> t = tombstone_of p r \<and> q = p + length (frame_bytes crc r))" (is "?L \<longleftrightarrow> ?R")
proof
  assume ?L
  then obtain h key vl where h: "length h = 26" "prefix h (drop p (readable f))" "length key = h_key_size (parse_header h)"
      "decoded_value_size (h_value_size_raw (parse_header h)) (h_value_size_raw (parse_header h) = TOMBSTONE) = Inr (length vl)"
      "prefix key (drop (p + 26) (readable f))" "prefix vl (drop (p + 26 + length key) (readable f))"
      "crc (drop 4 h @ key @ vl) = h_crc (parse_header h)"
    and res: "t = (if h_value_size_raw (parse_header h) = TOMBSTONE then Some \<lparr>t_key = key, t_offset = p,
         t_record_size = 26 + length key, t_expire_at_ms = h_expire_at_ms (parse_header h)\<rparr> else None)"
      "q = p + (26 + length key + length vl)"
    by (cases "\<exists>h. scan_exact f p HEADER_SIZE HeaderEof = Inr h \<and> h_value_size_raw (parse_header h) = TOMBSTONE")
      (auto simp: tombstone_step_def bind_res_Inr Let_def ok_or_Inr checked_add64_Some scan_exact_Inr bind_eq_Some_conv
        scan_decoded_Inr read_value_into_crc_Inr split: if_splits)
  define r where "r = \<lparr>timestamp_ms = h_timestamp_ms (parse_header h), expire_at_ms = h_expire_at_ms (parse_header h),
      rkey = key, rvalue = (if h_value_size_raw (parse_header h) = TOMBSTONE then None else Some vl)\<rparr>"
  have "frame_at crc f p r"
    unfolding frame_at_iff using h res by (intro exI [of _ h] exI [of _ vl]) (simp add: r_def)
  moreover have "length (frame_bytes crc r) = 26 + length key + length vl"
    using h(4) by (auto simp: frame_length r_def value_bytes_def split: if_splits)
  ultimately show ?R using res by (intro exI [of _ r]) (simp add: r_def tombstone_of_def)
next
  assume ?R
  then obtain r where r: "frame_at crc f p r" "t = tombstone_of p r" "q = p + length (frame_bytes crc r)" by blast
  note parts = frame_at_parts [OF r(1)]
  have sums: "checked_add64 p (26 + length (rkey r) + length (value_bytes r)) = Some q"
    "checked_add64 26 (length (rkey r)) = Some (26 + length (rkey r))"
    "checked_add64 (26 + length (rkey r)) (length (value_bytes r)) = Some (26 + length (rkey r) + length (value_bytes r))"
    using parts(6) assms r(3) by (auto simp: checked_add64_def frame_length)
  show ?L
  proof (cases "rvalue r")
    case None
    then have "drop 4 (frame_header crc r) @ rkey r = frame_body r"
      by (simp add: frame_header_def frame_body_def value_bytes_def)
    with None show ?thesis
      using parts(1-6) sums r by (simp add: tombstone_step_def parts(7) Let_def frame_length tombstone_of_def value_bytes_def)
  next
    case (Some v)
    then show ?thesis
      using parts(1-6) sums r by (simp add: tombstone_step_def parts(7) Let_def frame_length tombstone_of_def)
  qed
qed

section \<open>Runs of records\<close>

definition frames_from :: "crc_fn \<Rightarrow> os_file \<Rightarrow> nat \<Rightarrow> log_record list \<Rightarrow> nat \<Rightarrow> bool" where
  "frames_from crc f p rs q \<longleftrightarrow>
     all_ok rs \<and> prefix (frames crc rs) (drop p (readable f)) \<and> q = p + length (frames crc rs)"

fun tombstones_of :: "nat \<Rightarrow> log_record list \<Rightarrow> tombstone_scan_record list" where
  "tombstones_of p [] = []"
| "tombstones_of p (r # rs) =
     (case tombstone_of p r of Some t \<Rightarrow> [t] | None \<Rightarrow> []) @
     tombstones_of (p + (26 + length (rkey r) + length (value_bytes r))) rs"

lemma frames_from_Nil [simp]: "frames_from crc f p [] q \<longleftrightarrow> q = p"
  by (simp add: frames_from_def)

lemma frames_from_Cons [simp]:
  "frames_from crc f p (r # rs) q \<longleftrightarrow>
     frame_at crc f p r \<and> frames_from crc f (p + length (frame_bytes crc r)) rs q"
  by (auto simp: frames_from_def prefix_chain)

lemma frames_from_le: "frames_from crc f p rs q \<Longrightarrow> p \<le> file_len f \<Longrightarrow> q \<le> file_len f"
  using prefix_length_le [of "frames crc rs" "drop p (readable f)"] length_readable_le [of f]
  by (cases "frames crc rs = []") (auto simp: frames_from_def)

lemma frame_at_next:
  "frame_at crc f p r \<Longrightarrow> p < p + length (frame_bytes crc r) \<and> p + length (frame_bytes crc r) \<le> file_len f"
  using frame_at_bound [of r crc p f] frame_length_ge [of crc r] length_readable_le [of f] by fastforce

lemma frames_from_end: "frames_from crc f (file_len f) rs q \<longleftrightarrow> rs = [] \<and> q = file_len f"
  using frame_at_next [of _ crc "file_len f" f] by (cases rs) auto

lemma tombstone_loop_Inr:
  assumes "file_len f \<le> U64_MAX" "offset \<le> file_len f" "n \<le> max_records"
  shows "scan_tombstones_from_reader crc f offset max_records results n = Inr (ts, next_offset, fin) \<longleftrightarrow>
     (\<exists>rs. frames_from crc f offset rs next_offset \<and> ts = results @ tombstones_of offset rs \<and>
        (fin \<longleftrightarrow> next_offset = file_len f) \<and> n + length rs \<le> max_records \<and>
        (n + length rs = max_records \<or> next_offset = file_len f))"
  using assms
proof (induction crc f offset max_records results n rule: scan_tombstones_from_reader.induct)
  case (1 crc f offset max_records results n)
  show ?case
  proof (cases "offset < file_len f \<and> n < max_records")
    case False
    then consider "offset = file_len f" | "n = max_records" using "1.prems"(2,3) by linarith
    then show ?thesis
      using False "1.prems"(3) by cases (auto simp: scan_tombstones_from_reader.simps frames_from_end)
  next
    case True
    let ?loop = "\<lambda>r. scan_tombstones_from_reader crc f (offset + length (frame_bytes crc r)) max_records
      (results @ (case tombstone_of offset r of Some t \<Rightarrow> [t] | None \<Rightarrow> [])) (n + 1) = Inr (ts, next_offset, fin)"
    let ?run = "\<lambda>r rs. frames_from crc f (offset + length (frame_bytes crc r)) rs next_offset \<and>
      ts = results @ tombstones_of offset (r # rs) \<and> (fin \<longleftrightarrow> next_offset = file_len f) \<and>
      n + length (r # rs) \<le> max_records \<and> (n + length (r # rs) = max_records \<or> next_offset = file_len f)"
    have "scan_tombstones_from_reader crc f offset max_records results n = Inr (ts, next_offset, fin) \<longleftrightarrow>
        (\<exists>r. frame_at crc f offset r \<and> ?loop r)"
      using True "1.prems"(1) unfolding scan_tombstones_from_reader.simps [of crc f offset]
      by (auto simp: bind_res_Inr tombstone_step_Inr)
    also have "?loop r \<longleftrightarrow> (\<exists>rs. ?run r rs)" if "frame_at crc f offset r" for r
      using "1.IH" [OF True, of "(tombstone_of offset r, offset + length (frame_bytes crc r))"] that True
        frame_at_next [OF that] "1.prems"(1) tombstone_step_Inr [of f crc offset]
      by (auto simp: frame_length)
    then have "(\<exists>r. frame_at crc f offset r \<and> ?loop r) \<longleftrightarrow> (\<exists>r rs. frame_at crc f offset r \<and> ?run r rs)"
      by blast
    also have "\<dots> \<longleftrightarrow> (\<exists>rs. frames_from crc f offset rs next_offset \<and> ts = results @ tombstones_of offset rs \<and>
        (fin \<longleftrightarrow> next_offset = file_len f) \<and> n + length rs \<le> max_records \<and>
        (n + length rs = max_records \<or> next_offset = file_len f))" (is "?A \<longleftrightarrow> (\<exists>rs. ?B rs)")
    proof
      assume ?A then show "\<exists>rs. ?B rs" by (metis frames_from_Cons)
    next
      assume "\<exists>rs. ?B rs"
      then obtain rs where rs: "?B rs" ..
      with True obtain r rs' where "rs = r # rs'" by (cases rs) auto
      with rs show ?A by auto
    qed
    finally show ?thesis .
  qed
qed

text \<open>The states of the masked keys that a run of records leaves.\<close>

definition note_state :: "bytes list \<Rightarrow> log_record \<Rightarrow> key_states \<Rightarrow> key_states" where
  "note_state targets r states =
     (if rkey r \<in> set targets then states(rkey r \<mapsto> (expire_at_ms r, rvalue r = None)) else states)"

lemma key_state_loop_Inr:
  assumes "file_len f \<le> U64_MAX" "offset \<le> file_len f"
  shows "key_state_loop crc f targets offset states = Inr states' \<longleftrightarrow>
     (\<exists>rs. frames_from crc f offset rs (file_len f) \<and> states' = fold (note_state targets) rs states)"
  using assms
proof (induction crc f targets offset states rule: key_state_loop.induct)
  case (1 crc f targets offset states)
  show ?case
  proof (cases "offset < file_len f")
    case False
    with "1.prems"(2) have "offset = file_len f" by simp
    then show ?thesis by (auto simp: key_state_loop.simps frames_from_end)
  next
    case True
    let ?loop = "\<lambda>r. key_state_loop crc f targets (offset + length (frame_bytes crc r)) (note_state targets r states)"
    define turn where "turn = (\<lambda>(key, expire_at_ms, is_tombstone, next_offset). key_state_loop crc f targets next_offset
        (if key \<in> set targets then states(key \<mapsto> (expire_at_ms, is_tombstone)) else states))"
    have turn: "turn (rkey r, expire_at_ms r, rvalue r = None, offset + length (frame_bytes crc r)) = ?loop r" for r
      by (simp add: turn_def note_state_def)
    have "key_state_loop crc f targets offset states = bind_res (key_state_step crc f offset) turn"
      using True by (subst key_state_loop.simps) (simp add: turn_def)
    then have "key_state_loop crc f targets offset states = Inr states' \<longleftrightarrow>
        (\<exists>x. key_state_step crc f offset = Inr x \<and> turn x = Inr states')"
      by (simp only: bind_res_Inr)
    then have "key_state_loop crc f targets offset states = Inr states' \<longleftrightarrow>
        (\<exists>r. frame_at crc f offset r \<and> ?loop r = Inr states')"
      unfolding key_state_step_tuple [OF "1.prems"(1)] turn [symmetric] by blast
    moreover have "?loop r = Inr states' \<longleftrightarrow> (\<exists>rs. frames_from crc f (offset + length (frame_bytes crc r)) rs (file_len f) \<and>
        states' = fold (note_state targets) (r # rs) states)" if "frame_at crc f offset r" for r
    proof -
      have "key_state_step crc f offset = Inr (rkey r, expire_at_ms r, rvalue r = None, offset + length (frame_bytes crc r))"
        unfolding key_state_step_tuple [OF "1.prems"(1)] using that by blast
      from "1.IH" [OF True this refl refl refl "1.prems"(1), folded note_state_def] frame_at_next [OF that]
      show ?thesis by simp
    qed
    ultimately have "key_state_loop crc f targets offset states = Inr states' \<longleftrightarrow> (\<exists>r rs.
        frames_from crc f offset (r # rs) (file_len f) \<and> states' = fold (note_state targets) (r # rs) states)"
      by auto
    also have "\<dots> \<longleftrightarrow> (\<exists>rs. frames_from crc f offset rs (file_len f) \<and> states' = fold (note_state targets) rs states)"
      (is "?A \<longleftrightarrow> (\<exists>rs. ?B rs)")
    proof
      assume "\<exists>rs. ?B rs"
      then obtain rs where rs: "?B rs" ..
      with True obtain r rs' where "rs = r # rs'" by (cases rs) auto
      with rs show ?A by blast
    qed blast
    finally show ?thesis .
  qed
qed

lemma frames_from_strict:
  "frames_from crc f 0 rs (file_len f) \<longleftrightarrow> iter_from_start crc f = Inr rs"
proof -
  have "prefix xs (readable f) \<and> file_len f = length xs \<longleftrightarrow> readable f = xs \<and> \<not> (faulty f \<and> 0 < file_len f)" for xs
  proof (cases "faulty f")
    case True
    then have "length (readable f) < file_len f" by (simp add: readable_short_iff)
    with True show ?thesis using prefix_length_le [of xs "readable f"] by auto
  next
    case False
    then have "length (readable f) = file_len f"
      using readable_short_iff [of f] length_readable_le [of f] by simp
    with False show ?thesis by (auto simp: prefix_def)
  qed
  then show ?thesis
    unfolding frames_from_def iter_from_start_def iter_from_iff by simp
qed

lemma note_states:
  "fold (note_state targets) rs Map.empty =
     (\<lambda>k. if k \<in> set targets then map_option (\<lambda>r. (expire_at_ms r, rvalue r = None)) (replay rs k) else None)"
proof (induction rs rule: rev_induct)
  case (snoc r rs)
  then show ?case by (auto simp: note_state_def replay_snoc fun_eq_iff)
qed (simp add: replay_def fun_eq_iff)

section \<open>Properties\<close>

text \<open>C36.  The tombstone scan is exact and its cursor is a record boundary.  A page of a file
  is answered exactly when the limit is between 1 and 65,536, the start lies in the file, and the
  file holds, from the start on, a run of complete, checksummed records that fills the limit
  or reaches the end of the file; the page then lists the deletions of that run, with their
  offsets and sizes, hands back the offset after the run, and reports the end exactly when that
  is the end of the file.\<close>

theorem tombstone_page_exact:
  assumes "fs path = Inr f" "file_len f \<le> U64_MAX"
  shows "scan_tombstones_page_from_path crc fs path start max_records = Inr (ts, next_offset, fin) \<longleftrightarrow>
     0 < max_records \<and> max_records \<le> 65536 \<and> start \<le> file_len f \<and>
     (\<exists>rs. frames_from crc f start rs next_offset \<and> length rs \<le> max_records \<and>
        (length rs = max_records \<or> next_offset = file_len f) \<and>
        ts = tombstones_of start rs \<and> (fin \<longleftrightarrow> next_offset = file_len f))"
  using tombstone_loop_Inr [OF assms(2), of start 0 max_records crc "[]"] assms(1)
  by (auto simp: scan_tombstones_page_from_path_def open_tombstone_scan_def MAX_TOMBSTONE_SCAN_PAGE_RECORDS_def)

definition deleted_record :: log_record where
  "deleted_record = \<lparr>timestamp_ms = 8, expire_at_ms = 5, rkey = [107], rvalue = None\<rparr>"

lemma deleted_frame: "record_ok deleted_record" "length (frame_bytes crc deleted_record) = 27"
  by (simp_all add: deleted_record_def record_ok_def value_bytes_def frame_length)

definition scan_fs :: file_system where
  "scan_fs path = Inr (good_file (frames sum_crc [sample_record, deleted_record]))"

lemma scan_fs_file: "scan_fs path = Inr (good_file (frames sum_crc [sample_record, deleted_record]))"
  by (simp add: scan_fs_def)

lemma scan_file_len: "file_len (good_file (frames sum_crc [sample_record, deleted_record])) = 56"
  by (simp add: file_len_def good_file_def deleted_frame)

lemma scan_tombstones:
  "tombstones_of 0 [sample_record, deleted_record] =
     [\<lparr>t_key = [107], t_offset = 29, t_record_size = 27, t_expire_at_ms = 5\<rparr>]"
  by (simp add: tombstone_of_def sample_record_def deleted_record_def value_bytes_def)

theorem tombstone_page_exact_witness:
  "scan_tombstones_page_from_path sum_crc scan_fs ''a'' 0 2 =
     Inr ([\<lparr>t_key = [107], t_offset = 29, t_record_size = 27, t_expire_at_ms = 5\<rparr>], 56, True)"
proof -
  have "frames_from sum_crc (good_file (frames sum_crc [sample_record, deleted_record])) 0 [sample_record, deleted_record] 56"
    by (simp add: frames_from_def deleted_frame)
  then show ?thesis
    using scan_tombstones scan_file_len
    by (subst tombstone_page_exact [OF scan_fs_file])
      (auto simp: U64_MAX_def simp del: tombstones_of.simps frames_from_Cons intro!: exI [of _ "[sample_record, deleted_record]"])
qed



end
