(* ===== verification/Spec2Isabelle.thy ===== *)
theory Spec2Isabelle
  imports Log_Recovery Log_Copy Uring_Completions Hint_Build Raft_Command Prefix_Merge Lmdb_Pages Lmdb_Batch Compaction Key_Scans
begin

text \<open>
  \<^bold>\<open>FerricStore: the native storage engine.\<close>

  FerricStore keeps its data in append-only Bitcask logs and in LMDB environments, both driven by a
  Rust library under \<^verbatim>\<open>src/apps/ferricstore/native/ferricstore_bitcask/src/\<close> (all file names below are
  relative to it).  The Elixir side calls it through NIFs.  This development models the log, its
  readers, writers, recovery, compaction and hint files, the codecs of replicated commands and of
  Flow index entries, and the LMDB read and write NIFs, and proves them correct.

  \<^bold>\<open>Conventions.\<close>  A fallible function returns \<open>'e + 'a\<close> with the error on the left; \<open>bind_res\<close> is
  the \<^verbatim>\<open>?\<close> operator.  A stateful operation is a \<open>step\<close>, a function from a state to a result and a
  state.  Bytes are \<open>8 word list\<close>, stored fields are words of their width, offsets and lengths are
  natural numbers with the checked or saturating 64-bit addition the code writes.  CRC-32, SHA-256
  and the clock are arguments of the definitions that use them, and no property assumes anything
  of them.  Error texts become constructors.

  \<^bold>\<open>Parts and theories.\<close>
  \<^item> \<open>Prelude\<close>: results, steps, checked arithmetic, byte slices, little- and big-endian codecs.
  \<^item> \<open>Files\<close>: a file that is read, with an optional unreadable byte, and reads of a given length.
  \<^item> \<open>Backend\<close> (\<^verbatim>\<open>io_backend/mod.rs\<close>): the operating system as bytes, stable bytes and a script of
    answers to system calls; \<^verbatim>\<open>BufWriter\<close>; \<^verbatim>\<open>SyncBackend\<close>.  The trait \<^verbatim>\<open>IoBackend\<close> is the record
    \<open>backend_ops\<close> and the locale \<open>io_backend\<close>, interpreted on \<open>sync_ops\<close> as \<open>sync\<close>.
  \<^item> \<open>Uring_Completions\<close> (\<^verbatim>\<open>io_backend/mod.rs\<close>): the checks of drained \<^verbatim>\<open>io_uring\<close> completions.
  \<^item> \<open>Log_Format\<close>, \<open>Log_Read\<close>, \<open>Log_Scan\<close>, \<open>Log_Pread\<close>, \<open>Log_Recovery\<close>, \<open>Log_Writer\<close>, \<open>Log_Copy\<close>
    (\<^verbatim>\<open>sections/log_part_01.rs\<close> to \<^verbatim>\<open>log_part_03.rs\<close>): records and their encoders; the streaming
    reader; strict and tolerant scans, metadata pages, prefix digests; positional reads; torn-tail
    recovery; \<^verbatim>\<open>LogWriter\<close> over any backend; the raw copy of a record.
  \<^item> \<open>Compaction\<close> (\<^verbatim>\<open>sections/part_02.rs\<close>): copying requested records into a replacement log.
  \<^item> \<open>Batch_Reads\<close> (\<^verbatim>\<open>sections/part_03.rs\<close>, \<^verbatim>\<open>part_02.rs\<close>): batches of positional reads, grouped by file, over
    a file system given as an argument; the locale \<open>path_reader\<close> is interpreted on the plain and on
    the keyed reads of one file.
  \<^item> \<open>Key_Scans\<close> (\<^verbatim>\<open>sections/part_02.rs\<close>): pages of tombstones and the newest states of masked keys.
  \<^item> \<open>Hint\<close>, \<open>Hint_Build\<close> (\<^verbatim>\<open>hint.rs\<close>, \<^verbatim>\<open>sections/part_02.rs\<close>): hint files, written through a temporary
    file and a rename, read in pages, and built from a sealed log.
  \<^item> \<open>Raft_Dictionary\<close>, \<open>Raft_Command\<close> (\<^verbatim>\<open>raft_command_dictionary_v1.rs\<close>, \<^verbatim>\<open>raft_command_codec.rs\<close>): the
    compact form of replicated commands.
  \<^item> \<open>Flow_Composite\<close> (\<^verbatim>\<open>flow_composite_codec.rs\<close>, \<^verbatim>\<open>flow_physical_key.rs\<close>): the decoder of composite
    index entries and physical state keys.
  \<^item> \<open>Lmdb\<close>: what the code relies on of an LMDB read transaction, which is not in the sources; a
    parameter with the predicate \<open>serves\<close>.
  \<^item> \<open>Prefix_Merge\<close>, \<open>Lmdb_Pages\<close>, \<open>Lmdb_Batch\<close> (\<^verbatim>\<open>prefix_merge.rs\<close>, \<^verbatim>\<open>sections/part_04.rs\<close>): the merge of
    a prefix over shards, the paging read NIFs, and the write NIFs with \<open>transacts\<close> as the
    documented behaviour of write transactions.

  \<^bold>\<open>What is shown.\<close>  Readers: they accept exactly the frames of complete, checksummed records, and
  streaming, positional, paged and keyed reads agree.  Writers: after any sequence of operations
  under arbitrary I/O failures the log is exactly the records of the successful ones, unless a
  rollback itself was reported as failed; batches are durable and readable at the offsets they
  return.  Recovery drops no complete record.  Copies and compaction move exactly the requested
  records, durably, and replaying the result restores every key whose newest record was copied.
  A batch of reads answers what each read alone answers.  Tombstone pages and key-state scans agree
  with the strict scan.  Hint writing is atomic, hint pages are exact and make progress, and a built hint points at the
  live records.  Command compaction is undone by expansion and expansion is bounded.  The composite
  decoder accepts exactly the encodings of well-formed entries.  LMDB pages return exactly the rows
  their bounds allow, write batches are atomic steps of a map.

  \<^bold>\<open>Recursion and fuel.\<close>  No definition uses fuel.  Loops over a file are functions that terminate
  because every record advances the position; the command codec terminates by its depth bound of
  128 and the element counts; retries of interrupted system calls terminate because each consumes
  one answer of the operating system's script, which stands for the finite history of one run.

  \<^bold>\<open>Not modelled.\<close>  Concurrency between threads and processes (the append-lock table, the LMDB store
  cache, \<^verbatim>\<open>async_io.rs\<close>, the WAL thread), memory allocation and its failure, and the encoding of
  results as Erlang terms.  The other source files are listed with their reasons in the manifest.
\<close>

end
